(* ===== verification/Umf_Prelude.thy ===== *)
theory Umf_Prelude
  imports Main "HOL-Library.Word" "HOL-Library.Monad_Syntax"
begin

text \<open>
  Shared vocabulary of the development: the integer and pointer types of the C code, the
  result codes of \<^verbatim>\<open>include/umf/base.h\<close>, the option monad in which the operations on linked
  structures are written, the host allocator seen by the components, and the lemmas on
  words, lists and maps that several components need.

  A C function that works on heap objects is modelled as a function into \<open>option\<close>: the
  value \<open>None\<close> stands for a dereference of a null or dangling pointer, a failed
  \<^verbatim>\<open>assert\<close>, or a loop that does not end. A theorem that such a function returns
  \<open>Some\<close> therefore states memory safety, the validity of the assertions of the
  debug build, and termination at once.
\<close>

unbundle bit_operations_syntax

named_theorems heap_simps \<open>evaluation of pointer operations\<close>
named_theorems align_simps \<open>alignment arithmetic on words\<close>

section \<open>Integer, pointer and result types\<close>

type_synonym u64 = "64 word"
type_synonym u32 = "32 word"

text \<open>
  User memory (the memory handed to clients) is addressed by machine words; objects that
  the library allocates for itself are addressed by identifiers, one typed heap per kind
  of object. A nullable pointer is an option.
\<close>

type_synonym addr = u64
type_synonym ptr = nat
type_synonym ref = "ptr option"
type_synonym 'a heap = "ptr \<Rightarrow> 'a option"

datatype umf_result =
    UMF_RESULT_SUCCESS
  | UMF_RESULT_ERROR_OUT_OF_HOST_MEMORY
  | UMF_RESULT_ERROR_MEMORY_PROVIDER_SPECIFIC
  | UMF_RESULT_ERROR_INVALID_ARGUMENT
  | UMF_RESULT_ERROR_INVALID_ALIGNMENT
  | UMF_RESULT_ERROR_NOT_SUPPORTED
  | UMF_RESULT_ERROR_USER_SPECIFIC
  | UMF_RESULT_ERROR_DEPENDENCY_UNAVAILABLE
  | UMF_RESULT_ERROR_OUT_OF_RESOURCES
  | UMF_RESULT_ERROR_UNKNOWN

section \<open>Pointers and assertions\<close>

definition deref :: "'a heap \<Rightarrow> ref \<Rightarrow> 'a option" where
  "deref h p = Option.bind p h"

definition assert_that :: "bool \<Rightarrow> unit option" where
  "assert_that b = (if b then Some () else None)"

lemma deref_simps [simp, heap_simps]:
  "deref h None = None"
  "deref h (Some a) = h a"
  by (simp_all add: deref_def)

lemma assert_that_simps [simp, heap_simps]:
  "assert_that True = Some ()"
  "assert_that False = None"
  by (simp_all add: assert_that_def)

lemma assert_that_eq_Some [simp]: "assert_that b = Some u \<longleftrightarrow> b"
  by (simp add: assert_that_def)

section \<open>The host allocator\<close>

text \<open>
  \<^verbatim>\<open>umf_ba_global_alloc\<close> either returns an object that is distinct from every live one or
  fails. \<open>next_id\<close> is the supply of identifiers and \<open>oom\<close> the script of
  failures: its head says whether the next allocation fails, and an exhausted script
  means that allocations succeed. Theorems quantify over the script. \<open>lock_fail\<close> is
  the script of the failures of \<^verbatim>\<open>utils_mutex_lock\<close> and \<^verbatim>\<open>utils_mutex_init\<close>, read in the same way.
\<close>

record host =
  next_id :: ptr
  oom :: "bool list"
  lock_fail :: "bool list"

definition ba_global_alloc :: "host \<Rightarrow> ref \<times> host" where
  "ba_global_alloc s =
     (case oom s of
        True # rest \<Rightarrow> (None, s\<lparr>oom := rest\<rparr>)
      | False # rest \<Rightarrow> (Some (next_id s), s\<lparr>next_id := Suc (next_id s), oom := rest\<rparr>)
      | [] \<Rightarrow> (Some (next_id s), s\<lparr>next_id := Suc (next_id s)\<rparr>))"

definition mutex_lock :: "host \<Rightarrow> bool \<times> host" where
  "mutex_lock s =
     (case lock_fail s of
        b # rest \<Rightarrow> (\<not> b, s\<lparr>lock_fail := rest\<rparr>)
      | [] \<Rightarrow> (True, s))"

definition mutex_init :: "host \<Rightarrow> bool \<times> host" where
  "mutex_init s = mutex_lock s"

lemma mutex_lock_keeps [simp]:
  "mutex_lock s = (b, s') \<Longrightarrow> next_id s' = next_id s"
  "mutex_lock s = (b, s') \<Longrightarrow> oom s' = oom s"
  by (auto simp: mutex_lock_def split: list.splits)

lemma ba_global_alloc_cases:
  obtains (fail) rest where "oom s = True # rest" "ba_global_alloc s = (None, s\<lparr>oom := rest\<rparr>)"
  | (ok) s' where "ba_global_alloc s = (Some (next_id s), s')" "next_id s' = Suc (next_id s)"
      "oom s' = tl (oom s)"
proof (cases "oom s")
  case Nil
  then show thesis by (intro ok [of "s\<lparr>next_id := Suc (next_id s)\<rparr>"]) (simp_all add: ba_global_alloc_def)
next
  case (Cons b rest)
  then show thesis by (cases b) (auto intro: fail ok simp: ba_global_alloc_def)
qed

lemma ba_global_alloc_no_oom:
  "oom s = [] \<Longrightarrow> ba_global_alloc s = (Some (next_id s), s\<lparr>next_id := Suc (next_id s)\<rparr>)"
  by (simp add: ba_global_alloc_def)

section \<open>Words\<close>

lemma bit_unat: "bit (v :: 'a::len word) m \<longleftrightarrow> odd (unat v div 2 ^ m)"
proof -
  have "bit v m \<longleftrightarrow> bit (unat v) m" by (simp add: bit_unsigned_iff)
  then show ?thesis by (simp add: bit_iff_odd)
qed

lemma top_bit_unat:
  assumes "2 ^ m \<le> unat v" "unat v < 2 ^ Suc m"
  shows "bit (v :: 'a::len word) m"
proof -
  have "unat v div 2 ^ m = 1"
    using assms by (intro div_nat_eqI) simp_all
  then show ?thesis by (simp add: bit_unat)
qed

lemma unat_drop_bit: "unat (drop_bit k (v :: 'a::len word)) = unat v div 2 ^ k"
proof -
  have "unat (drop_bit k v) = drop_bit k (unat v)"
    by (subst unsigned_drop_bit_eq) (simp add: take_bit_nat_eq_self)
  then show ?thesis by (simp only: drop_bit_eq_div)
qed

lemma unat_less_pow [simp]: "unat (v :: 'a::len word) < 2 ^ LENGTH('a)"
  by (rule unsigned_less)

lemma unat_less_u64: "unat (v :: u64) < 2 ^ 64"
  using unat_less_pow [of v] by simp

lemma unat_plus_u64: "unat a + unat b < 2 ^ 64 \<Longrightarrow> unat (a + b :: u64) = unat a + unat b"
  by (subst unat_add_lem [symmetric]) simp

lemma unat_minus_u64: "unat b \<le> unat a \<Longrightarrow> unat (a - b :: u64) = unat a - unat b"
  by (rule unat_sub) (simp add: word_le_nat_alt)

lemma plus_wraps_iff: "(a + b :: u64) < a \<longleftrightarrow> 2 ^ 64 \<le> unat a + unat b"
proof -
  have "unat (a + b) = (unat a + unat b) mod 2 ^ 64" by (simp add: unat_word_ariths)
  moreover have "(unat a + unat b) mod 2 ^ 64 =
      (if unat a + unat b < 2 ^ 64 then unat a + unat b else unat a + unat b - 2 ^ 64)"
    using unat_less_u64 [of a] unat_less_u64 [of b] by (simp add: mod_if)
  ultimately show ?thesis
    using unat_less_u64 [of a] unat_less_u64 [of b] by (simp add: word_less_nat_alt split: if_splits)
qed

end
