(* ===== verification/Utils.thy ===== *)
theory Utils
  imports Umf_Prelude
begin

text \<open>
  The helpers of \<^verbatim>\<open>src/utils/utils_common.h\<close>, \<^verbatim>\<open>utils_common.c\<close> and \<^verbatim>\<open>utils_math.h\<close>: the
  alignment macros, the bit scans, the rounding of memory ranges to an alignment, the
  option parser and the flag translator. The macros are translated on 64-bit words with
  wrap-around; the lemmas say what they compute on the numbers below the wrap-around.
\<close>

section \<open>Alignment macros\<close>

definition IS_POWER_OF_2 :: "u64 \<Rightarrow> bool" where
  "IS_POWER_OF_2 v \<longleftrightarrow> v \<noteq> 0 \<and> v AND (v - 1) = 0"

definition IS_ALIGNED :: "u64 \<Rightarrow> u64 \<Rightarrow> bool" where
  "IS_ALIGNED v a \<longleftrightarrow> a = 0 \<or> v AND (a - 1) = 0"

definition IS_NOT_ALIGNED :: "u64 \<Rightarrow> u64 \<Rightarrow> bool" where
  "IS_NOT_ALIGNED v a \<longleftrightarrow> a \<noteq> 0 \<and> v AND (a - 1) \<noteq> 0"

definition ALIGN_UP :: "u64 \<Rightarrow> u64 \<Rightarrow> u64" where
  "ALIGN_UP v a = (v + a - 1) AND NOT (a - 1)"

definition ALIGN_UP_SAFE :: "u64 \<Rightarrow> u64 \<Rightarrow> u64" where
  "ALIGN_UP_SAFE v a =
     (if a = 0 then v else if v + a - 1 < v then 0 else ALIGN_UP v a)"

definition ALIGN_DOWN :: "u64 \<Rightarrow> u64 \<Rightarrow> u64" where
  "ALIGN_DOWN v a = v AND NOT (a - 1)"

definition utils_max :: "u64 \<Rightarrow> u64 \<Rightarrow> u64" where
  "utils_max a b = (if a > b then a else b)"

definition utils_min :: "u64 \<Rightarrow> u64 \<Rightarrow> u64" where
  "utils_min a b = (if a < b then a else b)"

lemma IS_NOT_ALIGNED_iff: "IS_NOT_ALIGNED v a \<longleftrightarrow> \<not> IS_ALIGNED v a"
  by (simp add: IS_NOT_ALIGNED_def IS_ALIGNED_def)

subsection \<open>Powers of two\<close>

lemma ex_top_bit:
  assumes "v \<noteq> (0 :: u64)"
  obtains m where "m < 64" "2 ^ m \<le> unat v" "unat v < 2 ^ Suc m"
proof -
  have pos: "0 < unat v" using assms by (simp add: unat_gt_0)
  obtain m where m: "2 ^ m \<le> unat v" "unat v < 2 ^ Suc m"
    using ex_power_ivl1 [of 2 "unat v"] pos by auto
  have "(2::nat) ^ m < 2 ^ 64" using m(1) unat_less_pow [of v] by (simp add: le_less_trans)
  then have "m < 64" by (simp only: power_strict_increasing_iff one_less_numeral_iff semiring_norm)
  with m show thesis by (intro that)
qed

lemma unat_pow2:
  assumes "k < 64"
  shows "unat (2 ^ k :: u64) = 2 ^ k"
proof -
  have "(2 :: nat) ^ k < 2 ^ LENGTH(64)"
    using assms by (intro power_strict_increasing) simp_all
  then have "unat (of_nat (2 ^ k) :: u64) = 2 ^ k"
    by (subst unsigned_of_nat) (simp only: take_bit_nat_eq_self of_nat_id)
  then show ?thesis by simp
qed

lemma IS_POWER_OF_2_iff: "IS_POWER_OF_2 v \<longleftrightarrow> (\<exists>k<64. v = 2 ^ k)"
proof
  assume pow: "IS_POWER_OF_2 v"
  then have nz: "v \<noteq> 0" and zero: "v AND (v - 1) = 0" by (simp_all add: IS_POWER_OF_2_def)
  obtain m where m: "m < 64" "2 ^ m \<le> unat v" "unat v < 2 ^ Suc m" using nz by (rule ex_top_bit)
  have "unat v = 2 ^ m"
  proof (rule ccontr)
    assume "unat v \<noteq> 2 ^ m"
    with m have "2 ^ m \<le> unat (v - 1)" "unat (v - 1) < 2 ^ Suc m"
      using nz by (simp_all add: unat_minus_one)
    then have "bit (v - 1) m" by (rule top_bit_unat)
    moreover from m have "bit v m" by (intro top_bit_unat)
    ultimately have "bit (v AND (v - 1)) m" by (simp add: bit_and_iff)
    with zero show False by simp
  qed
  with m(1) have "v = 2 ^ m" by (metis unat_pow2 word_unat_eq_iff)
  with m(1) show "\<exists>k<64. v = 2 ^ k" by blast
next
  assume "\<exists>k<64. v = 2 ^ k"
  then obtain k where k: "k < 64" "v = 2 ^ k" by blast
  then have "v \<noteq> 0" using unat_pow2 [of k] by force
  moreover have "v AND (v - 1) = 0"
    using k by (intro bit_word_eqI) (simp add: bit_simps flip: mask_eq_exp_minus_1)
  ultimately show "IS_POWER_OF_2 v" by (simp add: IS_POWER_OF_2_def)
qed

lemma IS_POWER_OF_2_E:
  assumes "IS_POWER_OF_2 a"
  obtains k where "k < 64" "a = 2 ^ k" "unat a = 2 ^ k" "a - 1 = mask k"
  using assms by (auto simp: IS_POWER_OF_2_iff unat_pow2 mask_eq_exp_minus_1)

subsection \<open>What the macros compute\<close>

lemma unat_and_not_mask: "unat ((v :: u64) AND NOT (mask k)) = unat v div 2 ^ k * 2 ^ k"
proof -
  have "v AND NOT (mask k) = push_bit k (drop_bit k v)"
    by (rule bit_word_eqI) (auto simp: bit_simps)
  then have "unat (v AND NOT (mask k)) = take_bit 64 (push_bit k (unat v div 2 ^ k))"
    by (simp add: unsigned_push_bit_eq unat_drop_bit)
  also have "\<dots> = unat v div 2 ^ k * 2 ^ k"
  proof -
    have "unat v div 2 ^ k * 2 ^ k < 2 ^ 64"
      using unat_less_pow [of v] by (simp add: le_less_trans [OF div_times_less_eq_dividend])
    then show ?thesis by (simp add: push_bit_eq_mult take_bit_nat_eq_self)
  qed
  finally show ?thesis .
qed

lemma unat_and_mask: "unat ((v :: u64) AND mask k) = unat v mod 2 ^ k"
proof -
  have "unat (take_bit k v) = take_bit k (unat v)" by (rule unsigned_take_bit_eq)
  then show ?thesis
    by (simp only: take_bit_eq_mod [of _ "unat v"] take_bit_eq_mask [of _ v])
qed

lemma IS_ALIGNED_pow2: "IS_POWER_OF_2 a \<Longrightarrow> IS_ALIGNED v a \<longleftrightarrow> unat a dvd unat v"
  by (elim IS_POWER_OF_2_E)
    (simp add: IS_ALIGNED_def dvd_eq_mod_eq_0 unat_eq_zero flip: unat_and_mask)

lemma unat_ALIGN_DOWN: "IS_POWER_OF_2 a \<Longrightarrow> unat (ALIGN_DOWN v a) = unat v div unat a * unat a"
  by (elim IS_POWER_OF_2_E) (simp add: ALIGN_DOWN_def unat_and_not_mask)

lemma round_up_bounds:
  fixes n a :: nat
  assumes "0 < a"
  shows "n \<le> (n + a - 1) div a * a" "(n + a - 1) div a * a < n + a" "a dvd (n + a - 1) div a * a"
proof -
  have eq: "(n + a - 1) div a * a + (n + a - 1) mod a = n + a - 1" by (rule div_mult_mod_eq)
  have lt: "(n + a - 1) mod a < a" using assms by simp
  show "n \<le> (n + a - 1) div a * a" "(n + a - 1) div a * a < n + a"
    using eq lt assms by linarith+
  show "a dvd (n + a - 1) div a * a" by simp
qed

lemma unat_ALIGN_UP:
  assumes a: "IS_POWER_OF_2 a" and no_wrap: "unat v + unat a - 1 < 2 ^ 64"
  shows "unat (ALIGN_UP v a) = (unat v + unat a - 1) div unat a * unat a"
proof -
  obtain k where k: "k < 64" "unat a = 2 ^ k" "a - 1 = mask k" using a by (elim IS_POWER_OF_2_E)
  have pred: "unat (a - 1) = unat a - 1" using a by (simp add: IS_POWER_OF_2_def unat_minus_one)
  have "unat (v + (a - 1)) = unat v + (unat a - 1)"
    using no_wrap k(2) pred by (subst unat_plus_u64) simp_all
  then have "unat (v + a - 1) = unat v + unat a - 1"
    using k(2) by (simp add: add_diff_eq)
  then show ?thesis using k by (simp add: ALIGN_UP_def unat_and_not_mask)
qed

lemma pred_unat_pow2: "IS_POWER_OF_2 a \<Longrightarrow> 0 < unat a"
  by (auto simp: IS_POWER_OF_2_def unat_gt_0)

text \<open>
  \<open>ALIGN_UP_SAFE\<close> rounds up to a multiple of a power of two, and returns 0 when the
  rounded value does not fit a word.
\<close>

lemma ALIGN_UP_SAFE_overflow:
  assumes "IS_POWER_OF_2 a" "2 ^ 64 \<le> unat v + unat a - 1"
  shows "ALIGN_UP_SAFE v a = 0"
proof -
  have "unat (a - 1) = unat a - 1" "a \<noteq> 0"
    using assms(1) by (auto simp: IS_POWER_OF_2_def unat_minus_one)
  with assms have "v + (a - 1) < v"
    using pred_unat_pow2 [OF assms(1)] by (simp add: plus_wraps_iff)
  with \<open>a \<noteq> 0\<close> show ?thesis by (simp add: ALIGN_UP_SAFE_def add_diff_eq)
qed

lemma ALIGN_UP_SAFE_no_overflow:
  assumes "IS_POWER_OF_2 a" "unat v + unat a - 1 < 2 ^ 64"
  shows "unat (ALIGN_UP_SAFE v a) = (unat v + unat a - 1) div unat a * unat a"
proof -
  have "unat (a - 1) = unat a - 1" "a \<noteq> 0"
    using assms(1) by (auto simp: IS_POWER_OF_2_def unat_minus_one)
  with assms have "\<not> v + (a - 1) < v"
    using pred_unat_pow2 [OF assms(1)] by (simp add: plus_wraps_iff)
  with \<open>a \<noteq> 0\<close> have "ALIGN_UP_SAFE v a = ALIGN_UP v a"
    by (simp add: ALIGN_UP_SAFE_def add_diff_eq)
  with assms show ?thesis by (simp add: unat_ALIGN_UP)
qed

lemma ALIGN_UP_SAFE_correct:
  assumes a: "IS_POWER_OF_2 a" and nz: "ALIGN_UP_SAFE v a \<noteq> 0"
  shows "IS_ALIGNED (ALIGN_UP_SAFE v a) a"
    and "unat v \<le> unat (ALIGN_UP_SAFE v a)"
    and "unat (ALIGN_UP_SAFE v a) < unat v + unat a"
proof -
  have "unat v + unat a - 1 < 2 ^ 64"
    using ALIGN_UP_SAFE_overflow [OF a] nz not_le by blast
  note eq = ALIGN_UP_SAFE_no_overflow [OF a this]
  note bounds = round_up_bounds [OF pred_unat_pow2 [OF a], of "unat v"]
  show "IS_ALIGNED (ALIGN_UP_SAFE v a) a"
    using eq bounds(3) by (simp add: IS_ALIGNED_pow2 [OF a])
  show "unat v \<le> unat (ALIGN_UP_SAFE v a)" "unat (ALIGN_UP_SAFE v a) < unat v + unat a"
    using eq bounds(1,2) by simp_all
qed

lemma ALIGN_UP_SAFE_least:
  assumes a: "IS_POWER_OF_2 a" and w: "unat v \<le> unat w" "IS_ALIGNED w a"
  shows "unat (ALIGN_UP_SAFE v a) \<le> unat w"
proof (cases "ALIGN_UP_SAFE v a = 0")
  case False
  note c = ALIGN_UP_SAFE_correct [OF a False]
  have "unat a dvd unat w" "unat a dvd unat (ALIGN_UP_SAFE v a)"
    using w(2) c(1) by (simp_all add: IS_ALIGNED_pow2 [OF a])
  then obtain i j where ij: "unat w = unat a * i" "unat (ALIGN_UP_SAFE v a) = unat a * j"
    by (auto elim!: dvdE)
  have "unat a * j < unat a * (i + 1)" using c(3) w(1) ij by simp
  then have "j < i + 1" by (simp only: mult_less_cancel1)
  with ij show ?thesis by simp
qed simp

section \<open>Bit scans\<close>

text \<open>
  \<^verbatim>\<open>__builtin_clzll\<close> and \<^verbatim>\<open>__builtin_ctzll\<close> count the zero bits above the highest and below
  the lowest set bit.
\<close>

definition builtin_clzll :: "u64 \<Rightarrow> nat" where
  "builtin_clzll w = length (takeWhile (\<lambda>i. \<not> bit w i) (rev [0..<64]))"

definition builtin_ctzll :: "u64 \<Rightarrow> nat" where
  "builtin_ctzll w = length (takeWhile (\<lambda>i. \<not> bit w i) [0..<64])"

definition utils_msb64 :: "u64 \<Rightarrow> nat option" where
  "utils_msb64 num = do {
     assert_that (num \<noteq> 0);
     Some (63 - builtin_clzll num)
   }"

definition utils_lsb64 :: "u64 \<Rightarrow> nat option" where
  "utils_lsb64 num = do {
     assert_that (num \<noteq> 0);
     Some (builtin_ctzll num)
   }"

lemma upt_split: "m < n \<Longrightarrow> [0..<n] = [0..<m] @ m # [Suc m..<n]"
  using upt_add_eq_append [of 0 m "n - m"] by (simp add: upt_conv_Cons)

lemma length_takeWhile_upt:
  assumes "m < n" "P m = False" "\<forall>i<m. P i"
  shows "length (takeWhile P [0..<n]) = m"
  using assms by (simp add: upt_split [OF assms(1)] takeWhile_append)

lemma length_takeWhile_rev_upt:
  assumes "m < n" "P m = False" "\<forall>i. m < i \<and> i < n \<longrightarrow> P i"
  shows "length (takeWhile P (rev [0..<n])) = n - 1 - m"
  using assms by (simp add: upt_split [OF assms(1)] takeWhile_append)

lemma utils_msb64_unique:
  assumes "2 ^ m \<le> unat w" "unat w < 2 ^ Suc m"
  shows "utils_msb64 w = Some m"
proof -
  have nz: "w \<noteq> 0" using assms(1) by auto
  have "(2 :: nat) ^ m < 2 ^ 64" using assms(1) unat_less_u64 [of w] by (rule le_less_trans)
  then have m: "m < 64" by (simp only: power_strict_increasing_iff one_less_numeral_iff semiring_norm)
  have "\<not> bit w i" if "m < i" for i
  proof -
    have "unat w < 2 ^ i"
      using that by (intro less_le_trans [OF assms(2)] power_increasing) simp_all
    then show ?thesis by (simp add: bit_unat)
  qed
  then have "builtin_clzll w = 63 - m"
    unfolding builtin_clzll_def using m top_bit_unat [OF assms]
    by (subst length_takeWhile_rev_upt [of m]) auto
  with m nz show ?thesis by (simp add: utils_msb64_def)
qed

lemma utils_msb64_Some:
  assumes "w \<noteq> 0"
  obtains m where "utils_msb64 w = Some m" "m < 64" "2 ^ m \<le> unat w" "unat w < 2 ^ Suc m"
  using assms ex_top_bit utils_msb64_unique by metis

lemma utils_lsb64_Some:
  assumes "w \<noteq> 0"
  obtains m where "utils_lsb64 w = Some m" "m < 64" "bit w m" "\<forall>i<m. \<not> bit w i"
proof -
  obtain j where j: "j < 64" "bit w j"
    using assms top_bit_unat by (metis ex_top_bit)
  define m where "m = (LEAST i. bit w i)"
  have m: "bit w m" "m \<le> j" "\<forall>i<m. \<not> bit w i"
    unfolding m_def using j(2) by (auto intro: LeastI Least_le dest: not_less_Least)
  with j(1) have "builtin_ctzll w = m"
    unfolding builtin_ctzll_def by (subst length_takeWhile_upt [of m]) auto
  with assms m j(1) show thesis by (intro that [of m]) (simp_all add: utils_lsb64_def)
qed

section \<open>Rounding a memory range\<close>

definition utils_align_ptr_up_size_down :: "addr \<Rightarrow> u64 \<Rightarrow> u64 \<Rightarrow> (addr \<times> u64) option" where
  "utils_align_ptr_up_size_down ptr sz alignment =
     (let rest = ptr AND (alignment - 1);
          (p, s) = (if rest \<noteq> 0
                    then (ALIGN_UP ptr alignment, sz - (alignment - rest))
                    else (ptr, sz))
      in do {
        assert_that (IS_ALIGNED p alignment);
        Some (p, s)
      })"

definition utils_align_ptr_down_size_up :: "addr \<Rightarrow> u64 \<Rightarrow> u64 \<Rightarrow> (addr \<times> u64) option" where
  "utils_align_ptr_down_size_up ptr sz alignment =
     (let rest = ptr AND (alignment - 1);
          (p, s) = (if rest \<noteq> 0
                    then (ALIGN_DOWN ptr alignment, sz + rest)
                    else (ptr, sz));
          s' = ALIGN_UP s alignment
      in do {
        assert_that (IS_ALIGNED p alignment);
        assert_that (IS_ALIGNED s' alignment);
        Some (p, s')
      })"

lemma unat_and_pred_pow2: "IS_POWER_OF_2 a \<Longrightarrow> unat (v AND (a - 1)) = unat v mod unat a"
  by (elim IS_POWER_OF_2_E) (simp add: unat_and_mask)

lemma multiples_close_eq:
  fixes x y a :: nat
  assumes "a dvd x" "a dvd y" "x < y + a" "y < x + a"
  shows "x = y"
proof -
  obtain i j where ij: "x = a * i" "y = a * j" using assms(1,2) by (auto elim!: dvdE)
  have "a * i < a * (j + 1)" "a * j < a * (i + 1)" using assms(3,4) ij by simp_all
  then have "i < j + 1" "j < i + 1" by (simp_all only: mult_less_cancel1)
  with ij show ?thesis by simp
qed

lemma round_up_exact:
  fixes n a :: nat
  assumes "0 < a" "n mod a \<noteq> 0"
  shows "(n + a - 1) div a * a = n + (a - n mod a)"
proof (rule multiples_close_eq [of a])
  have lt: "n mod a < a" using assms(1) by simp
  have "n + (a - n mod a) = (n - n mod a) + a" using lt by simp
  moreover have "a dvd (n - n mod a) + a" by (intro dvd_add dvd_minus_mod dvd_refl)
  ultimately show "a dvd n + (a - n mod a)" by (simp only:)
  show "a dvd (n + a - 1) div a * a" by simp
  show "(n + a - 1) div a * a < n + (a - n mod a) + a"
    using round_up_bounds(2) [OF assms(1), of n] by simp
  show "n + (a - n mod a) < (n + a - 1) div a * a + a"
    using round_up_bounds(1) [OF assms(1), of n] assms lt by linarith
qed

lemma round_up_fits:
  fixes n a N :: nat
  assumes "0 < a" "a dvd N" "n \<le> N"
  shows "(n + a - 1) div a * a \<le> N"
proof -
  obtain i where i: "N = a * i" using assms(2) by (auto elim!: dvdE)
  have "(n + a - 1) div a * a < (i + 1) * a"
    using round_up_bounds(2) [OF assms(1), of n] assms(3) i by (simp add: mult.commute)
  then have "(n + a - 1) div a < i + 1" by (simp only: mult_less_cancel2)
  then have "(n + a - 1) div a * a \<le> i * a" by (intro mult_le_mono1) simp
  with i show ?thesis by (simp add: mult.commute)
qed

text \<open>
  Rounding the start up keeps the end of the range, provided that the range reaches the
  first aligned address.
\<close>

lemma utils_align_ptr_up_size_down_correct:
  assumes a: "IS_POWER_OF_2 a" and fit: "unat p + unat s \<le> 2 ^ 64 - unat a"
    and reach: "(unat p + unat a - 1) div unat a * unat a \<le> unat p + unat s"
  shows "\<exists>p' s'. utils_align_ptr_up_size_down p s a = Some (p', s') \<and> IS_ALIGNED p' a \<and>
           unat p \<le> unat p' \<and> unat p' < unat p + unat a \<and> unat p' + unat s' = unat p + unat s"
proof (cases "p AND (a - 1) = 0")
  case True
  then show ?thesis
    using pred_unat_pow2 [OF a] by (simp add: utils_align_ptr_up_size_down_def IS_ALIGNED_def)
next
  case False
  have a0: "0 < unat a" "unat a < 2 ^ 64" using pred_unat_pow2 [OF a] unat_less_u64 by auto
  have rest: "unat (p AND (a - 1)) = unat p mod unat a" by (rule unat_and_pred_pow2 [OF a])
  with False have nz: "unat p mod unat a \<noteq> 0" by (simp flip: unat_eq_zero)
  have up: "unat (ALIGN_UP p a) = unat p + (unat a - unat p mod unat a)"
    using fit a0 by (simp add: unat_ALIGN_UP [OF a] flip: round_up_exact [OF a0(1) nz])
  have gap: "unat (a - (p AND (a - 1))) = unat a - unat p mod unat a"
    using rest a0 by (subst unat_minus_u64) (simp_all add: less_imp_le)
  have r: "unat p mod unat a < unat a" using a0(1) by simp
  have reach': "unat a - unat p mod unat a \<le> unat s"
    using reach by (simp only: round_up_exact [OF a0(1) nz] add_le_cancel_left)
  then have size: "unat (s - (a - (p AND (a - 1)))) = unat s - (unat a - unat p mod unat a)"
    using gap by (subst unat_minus_u64) simp_all
  have "IS_ALIGNED (ALIGN_UP p a) a"
    using up by (simp only: IS_ALIGNED_pow2 [OF a] round_up_exact [OF a0(1) nz, symmetric] dvd_triv_right)
  then have "utils_align_ptr_up_size_down p s a = Some (ALIGN_UP p a, s - (a - (p AND (a - 1))))"
    using False by (simp add: utils_align_ptr_up_size_down_def Let_def)
  moreover have "unat (ALIGN_UP p a) < unat p + unat a" "unat p \<le> unat (ALIGN_UP p a)"
    using up nz r by linarith+
  moreover have "unat (ALIGN_UP p a) + unat (s - (a - (p AND (a - 1)))) = unat p + unat s"
    using up size reach' by linarith
  ultimately show ?thesis using \<open>IS_ALIGNED (ALIGN_UP p a) a\<close> by blast
qed

section \<open>Properties of the helpers\<close>

text \<open>
  C17. For a power of two, \<open>ALIGN_UP_SAFE\<close> returns the least multiple of the alignment that
  is not below the value, and 0 exactly when \<^verbatim>\<open>value + align - 1\<close> does not fit a word (or
  the value is 0).
\<close>

theorem ALIGN_UP_SAFE_spec:
  assumes a: "IS_POWER_OF_2 a"
  shows "if unat v + unat a - 1 < 2 ^ 64
    then unat a dvd unat (ALIGN_UP_SAFE v a) \<and> unat v \<le> unat (ALIGN_UP_SAFE v a) \<and>
         (\<forall>w :: u64. unat v \<le> unat w \<longrightarrow> unat a dvd unat w \<longrightarrow> unat (ALIGN_UP_SAFE v a) \<le> unat w)
    else ALIGN_UP_SAFE v a = 0"
proof (cases "unat v + unat a - 1 < 2 ^ 64")
  case True
  then show ?thesis
    using ALIGN_UP_SAFE_no_overflow [OF a True] round_up_bounds [OF pred_unat_pow2 [OF a], of "unat v"]
      ALIGN_UP_SAFE_least [OF a, of v] IS_ALIGNED_pow2 [OF a] by auto
next
  case False
  then show ?thesis using ALIGN_UP_SAFE_overflow [OF a, of v] by simp
qed

theorem ALIGN_UP_SAFE_spec_witness:
  "16 dvd unat (ALIGN_UP_SAFE 35 16) \<and> 35 \<le> unat (ALIGN_UP_SAFE 35 16)"
  using ALIGN_UP_SAFE_spec [of 16 35] by (auto simp: IS_POWER_OF_2_def)

end
