(* ===== verification/Ravl.thy ===== *)
theory Ravl
  imports Utils
begin

text \<open>
  The relaxed AVL tree of \<^verbatim>\<open>src/ravl/ravl.c\<close>, at the level of its nodes and pointers. A tree is
  a root pointer and a heap of nodes; each function of the source is one definition that
  performs the same loads and stores in the same order. \<open>None\<close> stands for a null or
  dangling dereference, a failed \<^verbatim>\<open>assert\<close> or a loop that does not end.

  The theory \<open>Ravl_Tree\<close> relates these heaps to algebraic trees and proves the
  functions correct.
\<close>

section \<open>Data\<close>

datatype ravl_slot_type = RAVL_LEFT | RAVL_RIGHT | RAVL_ROOT

text \<open>
  Ranks are unbounded integers here and \<^verbatim>\<open>int32_t\<close> in the code; a rank grows by at most one
  with each insertion. The object of a tree itself is the record \<open>ravl\<close>, not a heap object.
\<close>

record 'd ravl_node =
  rn_parent :: ref
  rn_left :: ref
  rn_right :: ref
  rn_rank :: int
  rn_pointer_based :: bool
  rn_data :: 'd

record 'd ravl =
  ravl_root :: ref
  ravl_compare :: "'d \<Rightarrow> 'd \<Rightarrow> int"
  ravl_data_size :: u64
  ravl_nodes :: "'d ravl_node heap"

datatype ravl_constr = ravl_node_insert_constructor | ravl_node_copy_constructor

text \<open>\<open>enum ravl_predicate\<close> is a set of flags.\<close>

type_synonym ravl_predicate = u32

abbreviation RAVL_PREDICATE_EQUAL :: ravl_predicate where "RAVL_PREDICATE_EQUAL \<equiv> 1"
abbreviation RAVL_PREDICATE_GREATER :: ravl_predicate where "RAVL_PREDICATE_GREATER \<equiv> 2"
abbreviation RAVL_PREDICATE_LESS :: ravl_predicate where "RAVL_PREDICATE_LESS \<equiv> 4"
abbreviation RAVL_PREDICATE_LESS_EQUAL :: ravl_predicate where "RAVL_PREDICATE_LESS_EQUAL \<equiv> 5"
abbreviation RAVL_PREDICATE_GREATER_EQUAL :: ravl_predicate where
  "RAVL_PREDICATE_GREATER_EQUAL \<equiv> 3"

text \<open>Reading and writing \<^verbatim>\<open>n->slots[t]\<close>; a node is updated in place with \<open>upd_node\<close>.\<close>

definition slots :: "'d ravl_node \<Rightarrow> ravl_slot_type \<Rightarrow> ref" where
  "slots n t = (case t of RAVL_LEFT \<Rightarrow> rn_left n | RAVL_RIGHT \<Rightarrow> rn_right n | RAVL_ROOT \<Rightarrow> None)"

definition set_slot :: "ravl_slot_type \<Rightarrow> ref \<Rightarrow> 'd ravl_node \<Rightarrow> 'd ravl_node" where
  "set_slot t v n =
     (case t of RAVL_LEFT \<Rightarrow> n\<lparr>rn_left := v\<rparr> | RAVL_RIGHT \<Rightarrow> n\<lparr>rn_right := v\<rparr> | RAVL_ROOT \<Rightarrow> n)"

definition upd_node :: "('d ravl_node \<Rightarrow> 'd ravl_node) \<Rightarrow> ptr \<Rightarrow> 'd ravl \<Rightarrow> 'd ravl option" where
  "upd_node f a r = do {
     n \<leftarrow> ravl_nodes r a;
     Some (r\<lparr>ravl_nodes := (ravl_nodes r)(a \<mapsto> f n)\<rparr>)
   }"

section \<open>Creation and traversal\<close>

definition ravl_new_sized ::
  "('d \<Rightarrow> 'd \<Rightarrow> int) \<Rightarrow> u64 \<Rightarrow> host \<Rightarrow> 'd ravl option \<times> host" where
  "ravl_new_sized cmp data_size s =
     (case ba_global_alloc s of
        (None, s') \<Rightarrow> (None, s')
      | (Some _, s') \<Rightarrow>
          (Some \<lparr>ravl_root = None, ravl_compare = cmp, ravl_data_size = data_size,
                 ravl_nodes = Map.empty\<rparr>, s'))"

definition ravl_new :: "('d \<Rightarrow> 'd \<Rightarrow> int) \<Rightarrow> host \<Rightarrow> 'd ravl option \<times> host" where
  "ravl_new cmp s = ravl_new_sized cmp 8 s"

text \<open>
  The traversal threads the state \<open>arg\<close> of the callback; the callback does not see
  the nodes. With \<open>free_node\<close> the nodes are released after their subtrees; the release of
  a node that is not allocated is \<open>None\<close>.
\<close>

partial_function (option) ravl_foreach_node ::
  "'d ravl_node heap \<Rightarrow> ref \<Rightarrow> ('d \<Rightarrow> 's \<Rightarrow> 's option) option \<Rightarrow> 's \<Rightarrow> bool \<Rightarrow>
   ('d ravl_node heap \<times> 's) option" where
  "ravl_foreach_node h n cb arg free_node =
     (case n of
        None \<Rightarrow> Some (h, arg)
      | Some a \<Rightarrow> do {
          nd \<leftarrow> h a;
          (h1, arg1) \<leftarrow> ravl_foreach_node h (rn_left nd) cb arg free_node;
          nd1 \<leftarrow> h1 a;
          arg2 \<leftarrow> (case cb of None \<Rightarrow> Some arg1 | Some f \<Rightarrow> f (rn_data nd1) arg1);
          (h2, arg3) \<leftarrow> ravl_foreach_node h1 (rn_right nd1) cb arg2 free_node;
          if free_node then do {
            _ \<leftarrow> h2 a;
            Some (h2(a := None), arg3)
          }
          else Some (h2, arg3)
        })"

definition ravl_clear :: "'d ravl \<Rightarrow> 'd ravl option" where
  "ravl_clear r = do {
     (h, _) \<leftarrow> ravl_foreach_node (ravl_nodes r) (ravl_root r) None () True;
     Some (r\<lparr>ravl_nodes := h, ravl_root := None\<rparr>)
   }"

definition ravl_delete_cb ::
  "'d ravl \<Rightarrow> ('d \<Rightarrow> 's \<Rightarrow> 's option) option \<Rightarrow> 's \<Rightarrow> ('d ravl_node heap \<times> 's) option" where
  "ravl_delete_cb r cb arg = ravl_foreach_node (ravl_nodes r) (ravl_root r) cb arg True"

definition ravl_delete :: "'d ravl \<Rightarrow> ('d ravl_node heap \<times> unit) option" where
  "ravl_delete r = ravl_delete_cb r None ()"

definition ravl_foreach :: "'d ravl \<Rightarrow> ('d \<Rightarrow> 's \<Rightarrow> 's option) \<Rightarrow> 's \<Rightarrow> 's option" where
  "ravl_foreach r cb arg = do {
     (_, arg') \<leftarrow> ravl_foreach_node (ravl_nodes r) (ravl_root r) (Some cb) arg False;
     Some arg'
   }"

definition ravl_empty :: "'d ravl \<Rightarrow> bool" where
  "ravl_empty r \<longleftrightarrow> ravl_root r = None"

section \<open>Nodes\<close>

definition ravl_new_node ::
  "'d ravl \<Rightarrow> ravl_constr \<Rightarrow> 'd \<Rightarrow> host \<Rightarrow> ref \<times> 'd ravl \<times> host" where
  "ravl_new_node r constr d s =
     (case ba_global_alloc s of
        (None, s') \<Rightarrow> (None, r, s')
      | (Some a, s') \<Rightarrow>
          (Some a,
           r\<lparr>ravl_nodes := (ravl_nodes r)(a \<mapsto>
               \<lparr>rn_parent = None, rn_left = None, rn_right = None, rn_rank = 0,
                rn_pointer_based = (constr = ravl_node_insert_constructor), rn_data = d\<rparr>)\<rparr>,
           s'))"

definition ravl_slot_opposite :: "ravl_slot_type \<Rightarrow> ravl_slot_type option" where
  "ravl_slot_opposite t = do {
     assert_that (t \<noteq> RAVL_ROOT);
     Some (if t = RAVL_LEFT then RAVL_RIGHT else RAVL_LEFT)
   }"

definition ravl_node_slot_type :: "'d ravl_node heap \<Rightarrow> ptr \<Rightarrow> ravl_slot_type option" where
  "ravl_node_slot_type h n = do {
     nd \<leftarrow> h n;
     if rn_parent nd = None then Some RAVL_ROOT
     else do {
       pd \<leftarrow> deref h (rn_parent nd);
       Some (if slots pd RAVL_LEFT = Some n then RAVL_LEFT else RAVL_RIGHT)
     }
   }"

definition ravl_node_sibling :: "'d ravl_node heap \<Rightarrow> ptr \<Rightarrow> ref option" where
  "ravl_node_sibling h n = do {
     t \<leftarrow> ravl_node_slot_type h n;
     if t = RAVL_ROOT then Some None
     else do {
       nd \<leftarrow> h n;
       pd \<leftarrow> deref h (rn_parent nd);
       Some (slots pd (if t = RAVL_LEFT then RAVL_RIGHT else RAVL_LEFT))
     }
   }"

text \<open>
  \<open>ravl_node_ref\<close> returns the location that holds a node pointer: the root of the tree
  or a slot of the parent.
\<close>

datatype node_loc = Root_Loc | Slot_Loc ptr ravl_slot_type

definition load_loc :: "'d ravl \<Rightarrow> node_loc \<Rightarrow> ref option" where
  "load_loc r l =
     (case l of
        Root_Loc \<Rightarrow> Some (ravl_root r)
      | Slot_Loc a t \<Rightarrow> do { n \<leftarrow> ravl_nodes r a; Some (slots n t) })"

definition store_loc :: "node_loc \<Rightarrow> ref \<Rightarrow> 'd ravl \<Rightarrow> 'd ravl option" where
  "store_loc l v r =
     (case l of
        Root_Loc \<Rightarrow> Some (r\<lparr>ravl_root := v\<rparr>)
      | Slot_Loc a t \<Rightarrow> upd_node (set_slot t v) a r)"

definition ravl_node_ref :: "'d ravl \<Rightarrow> ptr \<Rightarrow> node_loc option" where
  "ravl_node_ref r n = do {
     t \<leftarrow> ravl_node_slot_type (ravl_nodes r) n;
     if t = RAVL_ROOT then Some Root_Loc
     else do {
       nd \<leftarrow> ravl_nodes r n;
       p \<leftarrow> rn_parent nd;
       Some (Slot_Loc p t)
     }
   }"

definition ravl_rotate :: "'d ravl \<Rightarrow> ptr \<Rightarrow> 'd ravl option" where
  "ravl_rotate r n = do {
     nd \<leftarrow> ravl_nodes r n;
     assert_that (rn_parent nd \<noteq> None);
     p \<leftarrow> rn_parent nd;
     pref \<leftarrow> ravl_node_ref r p;
     t \<leftarrow> ravl_node_slot_type (ravl_nodes r) n;
     t_opposite \<leftarrow> ravl_slot_opposite t;
     pd \<leftarrow> ravl_nodes r p;
     r1 \<leftarrow> upd_node (\<lambda>x. x\<lparr>rn_parent := rn_parent pd\<rparr>) n r;
     r2 \<leftarrow> upd_node (\<lambda>x. x\<lparr>rn_parent := Some n\<rparr>) p r1;
     r3 \<leftarrow> store_loc pref (Some n) r2;
     nd3 \<leftarrow> ravl_nodes r3 n;
     r4 \<leftarrow> upd_node (set_slot t (slots nd3 t_opposite)) p r3;
     r5 \<leftarrow> (case slots nd3 t_opposite of
              None \<Rightarrow> Some r4
            | Some c \<Rightarrow> upd_node (\<lambda>x. x\<lparr>rn_parent := Some p\<rparr>) c r4);
     upd_node (set_slot t_opposite (Some p)) n r5
   }"

section \<open>Ranks and balancing\<close>

definition ravl_node_rank :: "'d ravl_node heap \<Rightarrow> ref \<Rightarrow> int option" where
  "ravl_node_rank h n =
     (case n of None \<Rightarrow> Some (-1) | Some a \<Rightarrow> do { nd \<leftarrow> h a; Some (rn_rank nd) })"

definition ravl_node_rank_difference_parent ::
  "'d ravl_node heap \<Rightarrow> ref \<Rightarrow> ref \<Rightarrow> int option" where
  "ravl_node_rank_difference_parent h p n = do {
     rp \<leftarrow> ravl_node_rank h p;
     rn \<leftarrow> ravl_node_rank h n;
     let rv = rp - rn;
     assert_that (rv \<le> rp + 1);
     Some rv
   }"

definition ravl_node_rank_difference :: "'d ravl_node heap \<Rightarrow> ptr \<Rightarrow> int option" where
  "ravl_node_rank_difference h n = do {
     nd \<leftarrow> h n;
     ravl_node_rank_difference_parent h (rn_parent nd) (Some n)
   }"

definition ravl_node_is_i_j :: "'d ravl_node heap \<Rightarrow> ptr \<Rightarrow> int \<Rightarrow> int \<Rightarrow> bool option" where
  "ravl_node_is_i_j h n i j = do {
     nd \<leftarrow> h n;
     dl \<leftarrow> ravl_node_rank_difference_parent h (Some n) (slots nd RAVL_LEFT);
     if dl = i then do {
       dr \<leftarrow> ravl_node_rank_difference_parent h (Some n) (slots nd RAVL_RIGHT);
       Some (dr = j)
     } else Some False
   }"

definition ravl_node_is :: "'d ravl_node heap \<Rightarrow> ptr \<Rightarrow> int \<Rightarrow> int \<Rightarrow> bool option" where
  "ravl_node_is h n i j = do {
     b \<leftarrow> ravl_node_is_i_j h n i j;
     if b then Some True else ravl_node_is_i_j h n j i
   }"

definition ravl_node_promote :: "ptr \<Rightarrow> 'd ravl \<Rightarrow> 'd ravl option" where
  "ravl_node_promote n r = upd_node (\<lambda>x. x\<lparr>rn_rank := rn_rank x + 1\<rparr>) n r"

definition ravl_node_demote :: "ptr \<Rightarrow> 'd ravl \<Rightarrow> 'd ravl option" where
  "ravl_node_demote n r = do {
     nd \<leftarrow> ravl_nodes r n;
     assert_that (rn_rank nd > 0);
     upd_node (\<lambda>x. x\<lparr>rn_rank := rn_rank x - 1\<rparr>) n r
   }"

text \<open>The promotion loop of \<open>ravl_balance\<close>.\<close>

partial_function (option) balance_walk :: "'d ravl \<Rightarrow> ptr \<Rightarrow> ('d ravl \<times> ptr) option" where
  "balance_walk r n = do {
     nd \<leftarrow> ravl_nodes r n;
     (case rn_parent nd of
        None \<Rightarrow> Some (r, n)
      | Some p \<Rightarrow> do {
          b \<leftarrow> ravl_node_is (ravl_nodes r) p 0 1;
          if b then do {
            r' \<leftarrow> ravl_node_promote p r;
            balance_walk r' p
          } else Some (r, n)
        })
   }"

text \<open>
  The part of \<open>ravl_balance\<close> after the loop: either the rank rule holds or \<open>n\<close> is a
  0-child whose sibling is an i-child with i > 1.
\<close>

definition balance_finish :: "'d ravl \<Rightarrow> ptr \<Rightarrow> 'd ravl option" where
  "balance_finish r n = do {
     s \<leftarrow> ravl_node_sibling (ravl_nodes r) n;
     nd \<leftarrow> ravl_nodes r n;
     dn \<leftarrow> ravl_node_rank_difference (ravl_nodes r) n;
     go \<leftarrow> (if dn = 0 then do {
               ds \<leftarrow> ravl_node_rank_difference_parent (ravl_nodes r) (rn_parent nd) s;
               Some (ds > 1)
             } else Some False);
     if \<not> go then Some r
     else do {
       y \<leftarrow> rn_parent nd;
       tn \<leftarrow> ravl_node_slot_type (ravl_nodes r) n;
       t \<leftarrow> ravl_slot_opposite tn;
       (case slots nd t of
          None \<Rightarrow> do {
            r1 \<leftarrow> ravl_rotate r n;
            ravl_node_demote y r1
          }
        | Some z \<Rightarrow> do {
            dz \<leftarrow> ravl_node_rank_difference (ravl_nodes r) z;
            if dz = 2 then do {
              r1 \<leftarrow> ravl_rotate r n;
              ravl_node_demote y r1
            } else if dz = 1 then do {
              r1 \<leftarrow> ravl_rotate r z;
              r2 \<leftarrow> ravl_rotate r1 z;
              r3 \<leftarrow> ravl_node_promote z r2;
              r4 \<leftarrow> ravl_node_demote n r3;
              ravl_node_demote y r4
            } else Some r
          })
     }
   }"

definition ravl_balance :: "'d ravl \<Rightarrow> ptr \<Rightarrow> 'd ravl option" where
  "ravl_balance r0 n0 = do {
     (r, n) \<leftarrow> balance_walk r0 n0;
     balance_finish r n
   }"

section \<open>Insertion\<close>

definition ravl_data :: "'d ravl_node \<Rightarrow> 'd" where
  "ravl_data n = rn_data n"

text \<open>
  The descent of \<open>ravl_emplace\<close>: \<open>Inl ()\<close> is the jump to \<^verbatim>\<open>error_duplicate\<close>,
  \<open>Inr (dst, dstp)\<close> the last node visited and the empty slot found.
\<close>

partial_function (option) emplace_walk ::
  "'d ravl \<Rightarrow> ptr \<Rightarrow> ref \<Rightarrow> node_loc \<Rightarrow> (unit + ref \<times> node_loc) option" where
  "emplace_walk r n dst dstp = do {
     cur \<leftarrow> load_loc r dstp;
     (case cur of
        None \<Rightarrow> Some (Inr (dst, dstp))
      | Some d \<Rightarrow> do {
          nd \<leftarrow> ravl_nodes r n;
          dd \<leftarrow> ravl_nodes r d;
          let cmp_result = ravl_compare r (ravl_data nd) (ravl_data dd);
          if cmp_result = 0 then Some (Inl ())
          else emplace_walk r n (Some d)
                 (Slot_Loc d (if cmp_result > 0 then RAVL_RIGHT else RAVL_LEFT))
        })
   }"

definition ravl_emplace ::
  "'d ravl \<Rightarrow> ravl_constr \<Rightarrow> 'd \<Rightarrow> host \<Rightarrow> (int \<times> 'd ravl \<times> host) option" where
  "ravl_emplace r constr d s =
     (case ravl_new_node r constr d s of
        (None, r', s') \<Rightarrow> Some (-1, r', s')
      | (Some n, r', s') \<Rightarrow> do {
          w \<leftarrow> emplace_walk r' n None Root_Loc;
          (case w of
             Inl _ \<Rightarrow> Some (-1, r'\<lparr>ravl_nodes := (ravl_nodes r')(n := None)\<rparr>, s')
           | Inr (dst, dstp) \<Rightarrow> do {
               r1 \<leftarrow> upd_node (\<lambda>x. x\<lparr>rn_parent := dst\<rparr>) n r';
               r2 \<leftarrow> store_loc dstp (Some n) r1;
               r3 \<leftarrow> ravl_balance r2 n;
               Some (0, r3, s')
             })
        })"

definition ravl_insert :: "'d ravl \<Rightarrow> 'd \<Rightarrow> host \<Rightarrow> (int \<times> 'd ravl \<times> host) option" where
  "ravl_insert r d s = ravl_emplace r ravl_node_insert_constructor d s"

definition ravl_emplace_copy :: "'d ravl \<Rightarrow> 'd \<Rightarrow> host \<Rightarrow> (int \<times> 'd ravl \<times> host) option" where
  "ravl_emplace_copy r d s = ravl_emplace r ravl_node_copy_constructor d s"

section \<open>Neighbours\<close>

partial_function (option) ravl_node_type_most ::
  "'d ravl_node heap \<Rightarrow> ptr \<Rightarrow> ravl_slot_type \<Rightarrow> ptr option" where
  "ravl_node_type_most h n t = do {
     nd \<leftarrow> h n;
     (case slots nd t of None \<Rightarrow> Some n | Some c \<Rightarrow> ravl_node_type_most h c t)
   }"

text \<open>The climb of \<open>ravl_node_cessor\<close> to the first parent on the \<open>t\<close> path.\<close>

partial_function (option) cessor_walk ::
  "'d ravl_node heap \<Rightarrow> ptr \<Rightarrow> ravl_slot_type \<Rightarrow> ref option" where
  "cessor_walk h n t = do {
     nd \<leftarrow> h n;
     (case rn_parent nd of
        None \<Rightarrow> Some None
      | Some p \<Rightarrow> do {
          pd \<leftarrow> h p;
          if slots pd t = Some n then cessor_walk h p t else Some (Some p)
        })
   }"

definition ravl_node_cessor ::
  "'d ravl_node heap \<Rightarrow> ptr \<Rightarrow> ravl_slot_type \<Rightarrow> ref option" where
  "ravl_node_cessor h n t = do {
     nd \<leftarrow> h n;
     (case slots nd t of
        Some c \<Rightarrow> do {
          t' \<leftarrow> ravl_slot_opposite t;
          m \<leftarrow> ravl_node_type_most h c t';
          Some (Some m)
        }
      | None \<Rightarrow> cessor_walk h n t)
   }"

definition ravl_node_successor :: "'d ravl_node heap \<Rightarrow> ptr \<Rightarrow> ref option" where
  "ravl_node_successor h n = ravl_node_cessor h n RAVL_RIGHT"

definition ravl_node_predecessor :: "'d ravl_node heap \<Rightarrow> ptr \<Rightarrow> ref option" where
  "ravl_node_predecessor h n = ravl_node_cessor h n RAVL_LEFT"

section \<open>Search and removal\<close>

text \<open>The result is the pair of the return value and the new value of \<^verbatim>\<open>*ret\<close>.\<close>

definition ravl_predicate_holds ::
  "'d ravl_node heap \<Rightarrow> int \<Rightarrow> ref \<Rightarrow> ptr \<Rightarrow> ravl_predicate \<Rightarrow> (bool \<times> ref) option" where
  "ravl_predicate_holds h result ret n flags =
     (if flags AND RAVL_PREDICATE_EQUAL \<noteq> 0 \<and> result = 0 then Some (True, Some n)
      else if flags AND RAVL_PREDICATE_GREATER \<noteq> 0 \<and> result < 0 then Some (False, Some n)
      else if flags AND RAVL_PREDICATE_GREATER \<noteq> 0 \<and> result = 0
        then do { m \<leftarrow> ravl_node_successor h n; Some (True, m) }
      else if flags AND RAVL_PREDICATE_LESS \<noteq> 0 \<and> result > 0 then Some (False, Some n)
      else if flags AND RAVL_PREDICATE_LESS \<noteq> 0 \<and> result = 0
        then do { m \<leftarrow> ravl_node_predecessor h n; Some (True, m) }
      else Some (False, ret))"

partial_function (option) find_walk ::
  "'d ravl \<Rightarrow> 'd \<Rightarrow> ravl_predicate \<Rightarrow> ref \<Rightarrow> ref \<Rightarrow> ref option" where
  "find_walk r d flags ret n =
     (case n of
        None \<Rightarrow> Some ret
      | Some a \<Rightarrow> do {
          nd \<leftarrow> ravl_nodes r a;
          let result = ravl_compare r d (ravl_data nd);
          (holds, ret') \<leftarrow> ravl_predicate_holds (ravl_nodes r) result ret a flags;
          if holds then Some ret'
          else find_walk r d flags ret' (slots nd (if result > 0 then RAVL_RIGHT else RAVL_LEFT))
        })"

definition ravl_find :: "'d ravl \<Rightarrow> 'd \<Rightarrow> ravl_predicate \<Rightarrow> ref option" where
  "ravl_find r d flags = find_walk r d flags None (ravl_root r)"

partial_function (option) ravl_remove :: "'d ravl \<Rightarrow> ptr \<Rightarrow> 'd ravl option" where
  "ravl_remove r n = do {
     nd \<leftarrow> ravl_nodes r n;
     if slots nd RAVL_LEFT \<noteq> None \<and> slots nd RAVL_RIGHT \<noteq> None then do {
       s' \<leftarrow> ravl_node_successor (ravl_nodes r) n;
       s \<leftarrow> s';
       sd \<leftarrow> ravl_nodes r s;
       r1 \<leftarrow> upd_node (\<lambda>x. x\<lparr>rn_data := rn_data sd\<rparr>) n r;
       ravl_remove r1 s
     } else do {
       let c = (if slots nd RAVL_LEFT \<noteq> None then slots nd RAVL_LEFT else slots nd RAVL_RIGHT);
       r1 \<leftarrow> (case c of None \<Rightarrow> Some r
              | Some x \<Rightarrow> upd_node (\<lambda>y. y\<lparr>rn_parent := rn_parent nd\<rparr>) x r);
       l \<leftarrow> ravl_node_ref r1 n;
       r2 \<leftarrow> store_loc l c r1;
       Some (r2\<lparr>ravl_nodes := (ravl_nodes r2)(n := None)\<rparr>)
     }
   }"

definition ravl_first :: "'d ravl \<Rightarrow> ref option" where
  "ravl_first r =
     (case ravl_root r of
        None \<Rightarrow> Some None
      | Some a \<Rightarrow> do { m \<leftarrow> ravl_node_type_most (ravl_nodes r) a RAVL_LEFT; Some (Some m) })"

definition ravl_last :: "'d ravl \<Rightarrow> ref option" where
  "ravl_last r =
     (case ravl_root r of
        None \<Rightarrow> Some None
      | Some a \<Rightarrow> do { m \<leftarrow> ravl_node_type_most (ravl_nodes r) a RAVL_RIGHT; Some (Some m) })"

end
