(* ===== verification/Ravl_Tree.thy ===== *)
theory Ravl_Tree
  imports Ravl
begin

text \<open>
  Algebraic trees as the abstraction of the node heaps of \<open>Ravl\<close>. \<open>ravl_rep r t\<close> says
  that the heap of \<open>r\<close> holds exactly the nodes of \<open>t\<close>, with consistent parent
  pointers. A position inside a tree is a context (a list of frames, innermost first)
  and a subtree. The refinement lemmas give, for each operation, the tree that the heap
  represents afterwards, and what the operation does to the in-order list of entries and
  to the rank rule.
\<close>

section \<open>Trees, contexts and their representation\<close>

datatype 'd rtree =
    RLeaf
  | RNode "'d rtree" ptr int bool 'd "'d rtree"

fun root_of :: "'d rtree \<Rightarrow> ref" where
  "root_of RLeaf = None"
| "root_of (RNode l a k b d r) = Some a"

fun inorder :: "'d rtree \<Rightarrow> (ptr \<times> 'd) list" where
  "inorder RLeaf = []"
| "inorder (RNode l a k b d r) = inorder l @ (a, d) # inorder r"

fun addrs :: "'d rtree \<Rightarrow> ptr set" where
  "addrs RLeaf = {}"
| "addrs (RNode l a k b d r) = insert a (addrs l \<union> addrs r)"

fun dtree :: "'d rtree \<Rightarrow> bool" where
  "dtree RLeaf = True"
| "dtree (RNode l a k b d r) =
     (a \<notin> addrs l \<and> a \<notin> addrs r \<and> addrs l \<inter> addrs r = {} \<and> dtree l \<and> dtree r)"

fun rep :: "'d ravl_node heap \<Rightarrow> ref \<Rightarrow> 'd rtree \<Rightarrow> bool" where
  "rep h p RLeaf = True"
| "rep h p (RNode l a k b d r) =
     (h a = Some \<lparr>rn_parent = p, rn_left = root_of l, rn_right = root_of r, rn_rank = k,
                  rn_pointer_based = b, rn_data = d\<rparr>
      \<and> rep h (Some a) l \<and> rep h (Some a) r)"

datatype 'd frame =
    LFrame ptr int bool 'd "'d rtree"
  | RFrame "'d rtree" ptr int bool 'd

type_synonym 'd ctxt = "'d frame list"

fun plug :: "'d ctxt \<Rightarrow> 'd rtree \<Rightarrow> 'd rtree" where
  "plug [] t = t"
| "plug (LFrame a k b d r # c) t = plug c (RNode t a k b d r)"
| "plug (RFrame l a k b d # c) t = plug c (RNode l a k b d t)"

fun top_of :: "'d ctxt \<Rightarrow> ref" where
  "top_of [] = None"
| "top_of (LFrame a k b d r # c) = Some a"
| "top_of (RFrame l a k b d # c) = Some a"

fun lefts :: "'d ctxt \<Rightarrow> (ptr \<times> 'd) list" where
  "lefts [] = []"
| "lefts (LFrame a k b d r # c) = lefts c"
| "lefts (RFrame l a k b d # c) = lefts c @ inorder l @ [(a, d)]"

fun rights :: "'d ctxt \<Rightarrow> (ptr \<times> 'd) list" where
  "rights [] = []"
| "rights (LFrame a k b d r # c) = (a, d) # inorder r @ rights c"
| "rights (RFrame l a k b d # c) = rights c"

fun repc :: "'d ravl_node heap \<Rightarrow> 'd ctxt \<Rightarrow> ref \<Rightarrow> bool" where
  "repc h [] x = True"
| "repc h (LFrame a k b d r # c) x =
     (h a = Some \<lparr>rn_parent = top_of c, rn_left = x, rn_right = root_of r, rn_rank = k,
                  rn_pointer_based = b, rn_data = d\<rparr>
      \<and> rep h (Some a) r \<and> repc h c (Some a))"
| "repc h (RFrame l a k b d # c) x =
     (h a = Some \<lparr>rn_parent = top_of c, rn_left = root_of l, rn_right = x, rn_rank = k,
                  rn_pointer_based = b, rn_data = d\<rparr>
      \<and> rep h (Some a) l \<and> repc h c (Some a))"

fun caddrs :: "'d ctxt \<Rightarrow> ptr set" where
  "caddrs [] = {}"
| "caddrs (LFrame a k b d r # c) = insert a (addrs r \<union> caddrs c)"
| "caddrs (RFrame l a k b d # c) = insert a (addrs l \<union> caddrs c)"

fun dctxt :: "'d ctxt \<Rightarrow> bool" where
  "dctxt [] = True"
| "dctxt (LFrame a k b d r # c) =
     (a \<notin> addrs r \<and> a \<notin> caddrs c \<and> addrs r \<inter> caddrs c = {} \<and> dtree r \<and> dctxt c)"
| "dctxt (RFrame l a k b d # c) =
     (a \<notin> addrs l \<and> a \<notin> caddrs c \<and> addrs l \<inter> caddrs c = {} \<and> dtree l \<and> dctxt c)"

definition ravl_rep :: "'d ravl \<Rightarrow> 'd rtree \<Rightarrow> bool" where
  "ravl_rep r t \<longleftrightarrow>
     ravl_root r = root_of t \<and> rep (ravl_nodes r) None t \<and> dtree t \<and> dom (ravl_nodes r) = addrs t"

lemma set_inorder: "fst ` set (inorder t) = addrs t"
  by (induction t) auto

lemma dtree_distinct: "dtree t \<longleftrightarrow> distinct (map fst (inorder t))"
  by (induction t) (auto simp: set_inorder)

lemma addrs_plug [simp]: "addrs (plug c t) = addrs t \<union> caddrs c"
  by (induction c t rule: plug.induct) auto

lemma dtree_plug [simp]: "dtree (plug c t) \<longleftrightarrow> dtree t \<and> dctxt c \<and> addrs t \<inter> caddrs c = {}"
  by (induction c t rule: plug.induct) auto

lemma inorder_plug [simp]: "inorder (plug c t) = lefts c @ inorder t @ rights c"
  by (induction c t rule: plug.induct) auto

lemma root_of_plug_cong: "root_of x = root_of y \<Longrightarrow> root_of (plug c x) = root_of (plug c y)"
  by (induction c x arbitrary: y rule: plug.induct) auto

lemma root_of_plug_Cons: "c \<noteq> [] \<Longrightarrow> root_of (plug c x) = root_of (plug c y)"
  by (induction c x arbitrary: y rule: plug.induct) (auto intro: root_of_plug_cong)

lemma rep_plug: "rep h None (plug c t) \<longleftrightarrow> repc h c (root_of t) \<and> rep h (top_of c) t"
  by (induction c t rule: plug.induct) auto

lemma rep_frame [simp]: "a \<notin> addrs t \<Longrightarrow> rep (h(a := v)) p t = rep h p t"
  by (induction t arbitrary: p) auto

lemma repc_frame [simp]: "a \<notin> caddrs c \<Longrightarrow> repc (h(a := v)) c x = repc h c x"
  by (induction c arbitrary: x rule: lefts.induct) auto

lemma rep_cong: "(\<And>a. a \<in> addrs t \<Longrightarrow> h a = h' a) \<Longrightarrow> rep h p t = rep h' p t"
  by (induction t arbitrary: p) auto

lemma rep_addrs_dom: "rep h p t \<Longrightarrow> addrs t \<subseteq> dom h"
  by (induction t arbitrary: p) (simp, fastforce)

lemma root_of_in_addrs: "root_of t = Some a \<Longrightarrow> a \<in> addrs t"
  by (cases t) auto

lemma root_of_None [simp]: "root_of t = None \<longleftrightarrow> t = RLeaf"
  by (cases t) auto

lemma top_of_in_caddrs: "top_of c = Some a \<Longrightarrow> a \<in> caddrs c"
  by (cases c rule: top_of.cases) auto

lemma split_at_addr:
  assumes "a \<in> addrs t"
  obtains c l k b d r where "t = plug c (RNode l a k b d r)"
proof -
  have "\<exists>c' l k b d r. plug c t = plug c' (RNode l a k b d r)" for c
    using assms
  proof (induction t arbitrary: c)
    case (RNode l x k b d r)
    consider "a = x" | "a \<in> addrs l" | "a \<in> addrs r" using RNode.prems by auto
    then show ?case
    proof cases
      case 1 then show ?thesis by blast
    next
      case 2 then show ?thesis using RNode.IH(1) [of "LFrame x k b d r # c"] by simp
    next
      case 3 then show ?thesis using RNode.IH(2) [of "RFrame l x k b d # c"] by simp
    qed
  qed simp
  from this [of "[]"] that show thesis by auto
qed

text \<open>A node of a represented tree, read at its position.\<close>

lemma rep_plug_node:
  assumes "rep h None (plug c (RNode l a k b d r))"
  shows "h a = Some \<lparr>rn_parent = top_of c, rn_left = root_of l, rn_right = root_of r, rn_rank = k,
                     rn_pointer_based = b, rn_data = d\<rparr>"
  using assms by (simp add: rep_plug)

section \<open>Reading positions\<close>

fun ctxt_slot :: "'d ctxt \<Rightarrow> ravl_slot_type" where
  "ctxt_slot [] = RAVL_ROOT"
| "ctxt_slot (LFrame a k b d r # c) = RAVL_LEFT"
| "ctxt_slot (RFrame l a k b d # c) = RAVL_RIGHT"

definition ctxt_loc :: "'d ctxt \<Rightarrow> node_loc" where
  "ctxt_loc c = (case top_of c of None \<Rightarrow> Root_Loc | Some a \<Rightarrow> Slot_Loc a (ctxt_slot c))"

lemma slot_type_plug:
  assumes "repc h c (Some a)" "h a = Some nd" "rn_parent nd = top_of c"
    and "a \<notin> caddrs c"
  shows "ravl_node_slot_type h a = Some (ctxt_slot c)"
  using assms root_of_in_addrs
  by (cases c rule: top_of.cases) (fastforce simp: ravl_node_slot_type_def slots_def)+


definition same_params :: "'d ravl \<Rightarrow> 'd ravl \<Rightarrow> bool" where
  "same_params r r' \<longleftrightarrow>
     ravl_compare r' = ravl_compare r \<and> ravl_data_size r' = ravl_data_size r"

lemma same_params_simps [simp]:
  "same_params r r"
  "same_params r (r'\<lparr>ravl_root := x\<rparr>) = same_params r r'"
  "same_params r (r'\<lparr>ravl_nodes := h\<rparr>) = same_params r r'"
  by (auto simp: same_params_def)

lemma same_params_trans: "same_params r r' \<Longrightarrow> same_params r' r'' \<Longrightarrow> same_params r r''"
  by (simp add: same_params_def)

section \<open>Writing positions\<close>

text \<open>The effect of storing a child pointer at a context, and of changing the parent of a tree.\<close>

definition ctxt_store :: "'d ctxt \<Rightarrow> ref \<Rightarrow> 'd ravl_node heap \<Rightarrow> 'd ravl_node heap" where
  "ctxt_store c y h =
     (case top_of c of None \<Rightarrow> h
      | Some q \<Rightarrow> h(q := map_option (set_slot (ctxt_slot c) y) (h q)))"

definition reparent :: "'d rtree \<Rightarrow> ref \<Rightarrow> 'd ravl_node heap \<Rightarrow> 'd ravl_node heap" where
  "reparent t p h =
     (case root_of t of None \<Rightarrow> h
      | Some a \<Rightarrow> h(a := map_option (\<lambda>x. x\<lparr>rn_parent := p\<rparr>) (h a)))"

lemma ctxt_store_other [simp]: "a \<notin> caddrs c \<Longrightarrow> ctxt_store c y h a = h a"
  by (auto simp: ctxt_store_def top_of_in_caddrs split: option.split)

lemma ctxt_store_Nil [simp]: "ctxt_store [] y h = h"
  by (simp add: ctxt_store_def)

lemma rep_ctxt_store [simp]:
  "addrs t \<inter> caddrs c = {} \<Longrightarrow> rep (ctxt_store c y h) p t = rep h p t"
  by (rule rep_cong) (auto intro!: ctxt_store_other)

lemma repc_ctxt_store: "repc h c x \<Longrightarrow> dctxt c \<Longrightarrow> repc (ctxt_store c y h) c y"
  by (cases c rule: top_of.cases) (auto simp: ctxt_store_def set_slot_def)

lemma dom_ctxt_store [simp]: "dom (ctxt_store c y h) = dom h"
  by (auto simp: ctxt_store_def split: option.splits if_splits)

lemma store_ctxt_loc:
  "repc (ravl_nodes r) c x \<Longrightarrow>
   store_loc (ctxt_loc c) y r =
     Some (r\<lparr>ravl_root := (if c = [] then y else ravl_root r),
             ravl_nodes := ctxt_store c y (ravl_nodes r)\<rparr>)"
  by (cases c rule: top_of.cases) (auto simp: ctxt_loc_def store_loc_def upd_node_def ctxt_store_def)

lemma reparent_other [simp]: "a \<notin> addrs t \<Longrightarrow> reparent t p h a = h a"
  by (auto simp: reparent_def root_of_in_addrs split: option.split)

lemma rep_reparent_other [simp]:
  "addrs t \<inter> addrs s = {} \<Longrightarrow> rep (reparent s q h) p t = rep h p t"
  by (rule rep_cong) (auto intro!: reparent_other)

lemma repc_cong: "(\<And>a. a \<in> caddrs c \<Longrightarrow> h a = h' a) \<Longrightarrow> repc h c x = repc h' c x"
  by (induction c arbitrary: x rule: lefts.induct) (auto cong: rep_cong)

lemma repc_reparent [simp]:
  "addrs s \<inter> caddrs c = {} \<Longrightarrow> repc (reparent s q h) c x = repc h c x"
  by (rule repc_cong) (auto intro!: reparent_other)

lemma rep_reparent: "rep h p t \<Longrightarrow> dtree t \<Longrightarrow> rep (reparent t q h) q t"
  by (cases t) (auto simp: reparent_def)

lemma dom_reparent [simp]: "dom (reparent t q h) = dom h"
  by (auto simp: reparent_def split: option.splits if_splits)

lemma upd_reparent:
  "rep (ravl_nodes r) p t \<Longrightarrow>
   (case root_of t of None \<Rightarrow> Some r | Some a \<Rightarrow> upd_node (\<lambda>x. x\<lparr>rn_parent := q\<rparr>) a r) =
     Some (r\<lparr>ravl_nodes := reparent t q (ravl_nodes r)\<rparr>)"
  by (cases t) (auto simp: reparent_def upd_node_def)

lemma node_ref_plug:
  assumes "repc (ravl_nodes r) c (Some a)" "ravl_nodes r a = Some nd" "rn_parent nd = top_of c"
    and "a \<notin> caddrs c"
  shows "ravl_node_ref r a = Some (ctxt_loc c)"
  using assms slot_type_plug [OF assms]
  by (cases c rule: top_of.cases) (auto simp: ravl_node_ref_def ctxt_loc_def)

lemma ctxt_store_upd [simp]:
  "a \<notin> caddrs c \<Longrightarrow> ctxt_store c y (h(a := v)) = (ctxt_store c y h)(a := v)"
  by (auto simp: ctxt_store_def fun_upd_twist dest!: top_of_in_caddrs split: option.split)

lemma reparent_upd [simp]:
  "a \<notin> addrs t \<Longrightarrow> reparent t q (h(a := v)) = (reparent t q h)(a := v)"
  by (auto simp: reparent_def fun_upd_twist dest!: root_of_in_addrs split: option.split)

section \<open>Rotation\<close>

definition opp :: "ravl_slot_type \<Rightarrow> ravl_slot_type" where
  "opp t = (if t = RAVL_LEFT then RAVL_RIGHT else RAVL_LEFT)"

lemma rotate_eval:
  assumes "ravl_nodes r n = Some nd" "rn_parent nd = Some p" "ravl_nodes r p = Some pd"
    and "ravl_node_ref r p = Some (ctxt_loc c)"
    and "ravl_node_slot_type (ravl_nodes r) n = Some t" "t \<noteq> RAVL_ROOT"
    and "repc (ravl_nodes r) c x" "n \<notin> caddrs c" "p \<notin> caddrs c" "n \<noteq> p"
    and "slots nd (opp t) = root_of B" "rep (ravl_nodes r) (Some n) B"
    and "n \<notin> addrs B" "p \<notin> addrs B" "addrs B \<inter> caddrs c = {}"
  shows "ravl_rotate r n = Some (r\<lparr>ravl_root := (if c = [] then Some n else ravl_root r),
     ravl_nodes := (reparent B (Some p) (ctxt_store c (Some n) (ravl_nodes r)))
       (p \<mapsto> set_slot t (root_of B) (pd\<lparr>rn_parent := Some n\<rparr>),
        n \<mapsto> set_slot (opp t) (Some p) (nd\<lparr>rn_parent := rn_parent pd\<rparr>))\<rparr>)"
proof -
  let ?h = "ravl_nodes r"
  let ?h2 = "?h(n \<mapsto> nd\<lparr>rn_parent := rn_parent pd\<rparr>, p \<mapsto> pd\<lparr>rn_parent := Some n\<rparr>)"
  let ?root = "if c = [] then Some n else ravl_root r"
  have st: "store_loc (ctxt_loc c) (Some n) (r\<lparr>ravl_nodes := ?h2\<rparr>) =
      Some (r\<lparr>ravl_root := ?root, ravl_nodes := ctxt_store c (Some n) ?h2\<rparr>)"
    using assms by (subst store_ctxt_loc [where x = x]) auto
  have sl: "slots (nd\<lparr>rn_parent := q\<rparr>) (opp t) = root_of B" for q
    using assms by (auto simp: slots_def opp_def split: ravl_slot_type.splits)
  show ?thesis
    using assms st sl
    by (cases B) (simp_all add: ravl_rotate_def upd_node_def ravl_slot_opposite_def opp_def
          reparent_def fun_upd_twist split del: if_split)
qed

lemma ravl_rep_plug:
  "ravl_rep r (plug c t) \<longleftrightarrow>
     ravl_root r = root_of (plug c t) \<and> repc (ravl_nodes r) c (root_of t) \<and>
     rep (ravl_nodes r) (top_of c) t \<and> dtree t \<and> dctxt c \<and> addrs t \<inter> caddrs c = {} \<and>
     dom (ravl_nodes r) = addrs t \<union> caddrs c"
  by (auto simp: ravl_rep_def rep_plug)

lemma rotate_left_child:
  assumes rep: "ravl_rep r (plug c (RNode (RNode A n kn bn dn B) p kp bp dp C))"
  shows "\<exists>r'. ravl_rotate r n = Some r' \<and> same_params r r' \<and>
              ravl_rep r' (plug c (RNode A n kn bn dn (RNode B p kp bp dp C)))"
proof -
  note R = rep [unfolded ravl_rep_plug, simplified]
  have ref: "ravl_node_ref r p = Some (ctxt_loc c)"
    using R by (intro node_ref_plug) auto
  have slot: "ravl_node_slot_type (ravl_nodes r) n = Some RAVL_LEFT"
    using R by (simp add: ravl_node_slot_type_def slots_def)
  have rot: "ravl_rotate r n = Some (r\<lparr>ravl_root := (if c = [] then Some n else ravl_root r),
     ravl_nodes := (reparent B (Some p) (ctxt_store c (Some n) (ravl_nodes r)))
       (p \<mapsto> \<lparr>rn_parent = Some n, rn_left = root_of B, rn_right = root_of C, rn_rank = kp,
             rn_pointer_based = bp, rn_data = dp\<rparr>,
        n \<mapsto> \<lparr>rn_parent = top_of c, rn_left = root_of A, rn_right = Some p, rn_rank = kn,
             rn_pointer_based = bn, rn_data = dn\<rparr>)\<rparr>)"
    using R ref slot
    by (subst rotate_eval [where t = RAVL_LEFT and B = B and x = "Some p"])
       (auto simp: slots_def opp_def set_slot_def)
  show ?thesis
    unfolding rot using R
    by (simp add: ravl_rep_plug repc_ctxt_store [where x = "Some p"] rep_reparent [where p = "Some n"]
          Int_Un_distrib Int_Un_distrib2 Int_commute root_of_plug_Cons insert_commute Un_ac)
qed

lemma rotate_right_child:
  assumes rep: "ravl_rep r (plug c (RNode C p kp bp dp (RNode B n kn bn dn A)))"
  shows "\<exists>r'. ravl_rotate r n = Some r' \<and> same_params r r' \<and>
              ravl_rep r' (plug c (RNode (RNode C p kp bp dp B) n kn bn dn A))"
proof -
  note R = rep [unfolded ravl_rep_plug, simplified]
  have ref: "ravl_node_ref r p = Some (ctxt_loc c)"
    using R by (intro node_ref_plug) auto
  have slot: "ravl_node_slot_type (ravl_nodes r) n = Some RAVL_RIGHT"
    using R root_of_in_addrs [of C n] by (auto simp: ravl_node_slot_type_def slots_def)
  have rot: "ravl_rotate r n = Some (r\<lparr>ravl_root := (if c = [] then Some n else ravl_root r),
     ravl_nodes := (reparent B (Some p) (ctxt_store c (Some n) (ravl_nodes r)))
       (p \<mapsto> \<lparr>rn_parent = Some n, rn_left = root_of C, rn_right = root_of B, rn_rank = kp,
             rn_pointer_based = bp, rn_data = dp\<rparr>,
        n \<mapsto> \<lparr>rn_parent = top_of c, rn_left = Some p, rn_right = root_of A, rn_rank = kn,
             rn_pointer_based = bn, rn_data = dn\<rparr>)\<rparr>)"
    using R ref slot
    by (subst rotate_eval [where t = RAVL_RIGHT and B = B and x = "Some p"])
       (auto simp: slots_def opp_def set_slot_def)
  show ?thesis
    unfolding rot using R
    by (simp add: ravl_rep_plug repc_ctxt_store [where x = "Some p"] rep_reparent [where p = "Some n"]
          Int_Un_distrib Int_Un_distrib2 Int_commute root_of_plug_Cons insert_commute Un_ac)
qed

section \<open>The rank rule\<close>

fun rank_of :: "'d rtree \<Rightarrow> int" where
  "rank_of RLeaf = -1"
| "rank_of (RNode l a k b d r) = k"

text \<open>Every rank difference is positive; for a context, when the hole has rank \<open>x\<close>.\<close>

fun rank_rule :: "'d rtree \<Rightarrow> bool" where
  "rank_rule RLeaf = True"
| "rank_rule (RNode l a k b d r) =
     (rank_of l < k \<and> rank_of r < k \<and> rank_rule l \<and> rank_rule r)"

fun crule :: "'d ctxt \<Rightarrow> int \<Rightarrow> bool" where
  "crule [] x = True"
| "crule (LFrame a k b d r # c) x = (x < k \<and> rank_of r < k \<and> rank_rule r \<and> crule c k)"
| "crule (RFrame l a k b d # c) x = (x < k \<and> rank_of l < k \<and> rank_rule l \<and> crule c k)"

lemma rank_rule_plug: "rank_rule (plug c t) \<longleftrightarrow> rank_rule t \<and> crule c (rank_of t)"
  by (induction c t rule: plug.induct) auto

lemma rank_of_ge: "rank_rule t \<Longrightarrow> -1 \<le> rank_of t"
  by (induction t) auto

lemma crule_mono: "crule c x \<Longrightarrow> y \<le> x \<Longrightarrow> crule c y"
  by (cases c rule: top_of.cases) auto

lemma node_rank_rep: "rep h p t \<Longrightarrow> ravl_node_rank h (root_of t) = Some (rank_of t)"
  by (cases t) (auto simp: ravl_node_rank_def)

lemma node_rank_Some: "h a = Some nd \<Longrightarrow> ravl_node_rank h (Some a) = Some (rn_rank nd)"
  by (simp add: ravl_node_rank_def)

lemma rank_difference_parent_rep:
  assumes "ravl_node_rank h p = Some kp" "rep h q t" "rank_rule t"
  shows "ravl_node_rank_difference_parent h p (root_of t) = Some (kp - rank_of t)"
  using assms rank_of_ge [of t] node_rank_rep [of h q t]
  by (simp add: ravl_node_rank_difference_parent_def)

lemma node_is_rep:
  assumes "rep h q (RNode l a k b d r)" "rank_rule l" "rank_rule r"
  shows "ravl_node_is h a i j =
    Some (k - rank_of l = i \<and> k - rank_of r = j \<or> k - rank_of l = j \<and> k - rank_of r = i)"
proof -
  have "ravl_node_rank_difference_parent h (Some a) (root_of l) = Some (k - rank_of l)"
    "ravl_node_rank_difference_parent h (Some a) (root_of r) = Some (k - rank_of r)"
    using assms by (auto intro!: rank_difference_parent_rep simp: node_rank_Some)
  then show ?thesis
    using assms by (auto simp: ravl_node_is_def ravl_node_is_i_j_def slots_def)
qed

text \<open>Updating the rank or the data of a node in place.\<close>

lemma upd_node_rep:
  assumes "ravl_rep r (plug c (RNode lt a k b d rt))"
    and "\<And>p x y. f \<lparr>rn_parent = p, rn_left = x, rn_right = y, rn_rank = k, rn_pointer_based = b,
                     rn_data = d\<rparr> =
                  \<lparr>rn_parent = p, rn_left = x, rn_right = y, rn_rank = k', rn_pointer_based = b,
                     rn_data = d'\<rparr>"
  shows "\<exists>r'. upd_node f a r = Some r' \<and> same_params r r' \<and>
              ravl_rep r' (plug c (RNode lt a k' b d' rt))"
  using assms by (auto simp: ravl_rep_plug upd_node_def intro!: root_of_plug_cong)

lemma promote_rep:
  assumes "ravl_rep r (plug c (RNode lt a k b d rt))"
  shows "\<exists>r'. ravl_node_promote a r = Some r' \<and> same_params r r' \<and>
              ravl_rep r' (plug c (RNode lt a (k + 1) b d rt))"
  unfolding ravl_node_promote_def by (rule upd_node_rep [OF assms]) simp

lemma demote_rep:
  assumes "ravl_rep r (plug c (RNode lt a k b d rt))" "0 < k"
  shows "\<exists>r'. ravl_node_demote a r = Some r' \<and> same_params r r' \<and>
              ravl_rep r' (plug c (RNode lt a (k - 1) b d rt))"
proof -
  have "ravl_node_demote a r = upd_node (\<lambda>x. x\<lparr>rn_rank := rn_rank x - 1\<rparr>) a r"
    using assms by (auto simp: ravl_node_demote_def ravl_rep_def dest!: rep_plug_node)
  then show ?thesis using upd_node_rep [OF assms(1)] by simp
qed

section \<open>Balancing after an insertion\<close>

text \<open>
  The shape of the node at which the promotion loop stands: the new leaf, or a node that
  has just been promoted and is a 1,2-node.
\<close>

fun promoted :: "'d rtree \<Rightarrow> bool" where
  "promoted RLeaf = False"
| "promoted (RNode l a k b d r) =
     (k = 0 \<and> rank_of l = -1 \<and> rank_of r = -1 \<or>
      1 \<le> k \<and> (rank_of l = k - 1 \<and> rank_of r = k - 2 \<or> rank_of l = k - 2 \<and> rank_of r = k - 1))"

fun is_0_1 :: "'d ctxt \<Rightarrow> 'd rtree \<Rightarrow> bool" where
  "is_0_1 [] t = False"
| "is_0_1 (LFrame a k b d r # c) t =
     (k = rank_of t \<and> k = rank_of r + 1 \<or> k = rank_of t + 1 \<and> k = rank_of r)"
| "is_0_1 (RFrame l a k b d # c) t =
     (k = rank_of t \<and> k = rank_of l + 1 \<or> k = rank_of t + 1 \<and> k = rank_of l)"

definition bal_state :: "'d ravl \<Rightarrow> 'd ctxt \<Rightarrow> 'd rtree \<Rightarrow> bool" where
  "bal_state r c t \<longleftrightarrow> ravl_rep r (plug c t) \<and> rank_rule t \<and> crule c (rank_of t - 1) \<and> promoted t"

lemma parent_is_0_1:
  assumes "bal_state r c t" "top_of c = Some p"
  shows "ravl_node_is (ravl_nodes r) p 0 1 = Some (is_0_1 c t)"
proof (cases c rule: top_of.cases)
  case 1
  then show ?thesis using assms by simp
next
  case (2 a k b d r' c')
  then have "rep (ravl_nodes r) (top_of c') (RNode t a k b d r')" "rank_rule t" "rank_rule r'"
    using assms by (auto simp: bal_state_def ravl_rep_plug)
  from node_is_rep [OF this, of 0 1] show ?thesis using assms 2 by auto
next
  case (3 l a k b d c')
  then have "rep (ravl_nodes r) (top_of c') (RNode l a k b d t)" "rank_rule l" "rank_rule t"
    using assms by (auto simp: bal_state_def ravl_rep_plug)
  from node_is_rep [OF this, of 0 1] show ?thesis using assms 3 by auto
qed

lemma promote_step:
  assumes "bal_state r c t" "is_0_1 c t" "top_of c = Some p"
  shows "\<exists>r' t'. ravl_node_promote p r = Some r' \<and> same_params r r' \<and> bal_state r' (tl c) t' \<and>
                 root_of t' = Some p \<and> inorder (plug (tl c) t') = inorder (plug c t)"
proof (cases c rule: top_of.cases)
  case 1
  then show ?thesis using assms by simp
next
  case (2 a k b d s c')
  have "ravl_rep r (plug c' (RNode t a k b d s))" using assms 2 by (simp add: bal_state_def)
  from promote_rep [OF this] obtain r' where "ravl_node_promote a r = Some r'" "same_params r r'"
    "ravl_rep r' (plug c' (RNode t a (k + 1) b d s))" by blast
  moreover have "0 \<le> rank_of t" using assms by (cases t) (auto simp: bal_state_def)
  ultimately show ?thesis
    using assms 2 by (intro exI [of _ r'] exI [of _ "RNode t a (k + 1) b d s"])
      (auto simp: bal_state_def)
next
  case (3 s a k b d c')
  have "ravl_rep r (plug c' (RNode s a k b d t))" using assms 3 by (simp add: bal_state_def)
  from promote_rep [OF this] obtain r' where "ravl_node_promote a r = Some r'" "same_params r r'"
    "ravl_rep r' (plug c' (RNode s a (k + 1) b d t))" by blast
  moreover have "0 \<le> rank_of t" using assms by (cases t) (auto simp: bal_state_def)
  ultimately show ?thesis
    using assms 3 by (intro exI [of _ r'] exI [of _ "RNode s a (k + 1) b d t"])
      (auto simp: bal_state_def)
qed

lemma balance_walk_rep:
  assumes "bal_state r c t" "root_of t = Some a"
  shows "\<exists>r' a' c' t'. balance_walk r a = Some (r', a') \<and> same_params r r' \<and> bal_state r' c' t' \<and>
           root_of t' = Some a' \<and> \<not> is_0_1 c' t' \<and> inorder (plug c' t') = inorder (plug c t)"
  using assms
proof (induction c arbitrary: r t a)
  case Nil
  have "ravl_nodes r a \<noteq> None" "\<And>nd. ravl_nodes r a = Some nd \<Longrightarrow> rn_parent nd = None"
    using Nil by (cases t; auto simp: bal_state_def ravl_rep_def)+
  then have "balance_walk r a = Some (r, a)"
    by (subst balance_walk.simps) (auto split: option.split)
  then show ?case using Nil by (intro exI [of _ r] exI [of _ a] exI [of _ "[]"] exI [of _ t]) simp
next
  case (Cons f c)
  obtain p where p: "top_of (f # c) = Some p" by (cases f) auto
  obtain nd where nd: "ravl_nodes r a = Some nd" "rn_parent nd = Some p"
    using Cons.prems p by (cases t) (auto simp: bal_state_def ravl_rep_plug)
  have is01: "ravl_node_is (ravl_nodes r) p 0 1 = Some (is_0_1 (f # c) t)"
    by (rule parent_is_0_1 [OF Cons.prems(1) p])
  show ?case
  proof (cases "is_0_1 (f # c) t")
    case True
    from promote_step [OF Cons.prems(1) True p] obtain r1 t1 where 1:
      "ravl_node_promote p r = Some r1" "same_params r r1" "bal_state r1 c t1" "root_of t1 = Some p"
      "inorder (plug c t1) = inorder (plug (f # c) t)"
      by auto
    have "balance_walk r a = balance_walk r1 p"
      by (subst balance_walk.simps) (simp add: nd is01 True 1)
    then show ?thesis using Cons.IH [OF 1(3,4)] 1 by (metis same_params_trans)
  next
    case False
    then have "balance_walk r a = Some (r, a)"
      by (subst balance_walk.simps) (simp add: nd is01 False)
    then show ?thesis using Cons.prems False same_params_simps(1) by blast
  qed
qed

lemma rank_difference_rep:
  assumes "ravl_nodes r a = Some nd" "rn_parent nd = Some p" "ravl_nodes r p = Some pd" "-1 \<le> rn_rank nd"
  shows "ravl_node_rank_difference (ravl_nodes r) a = Some (rn_rank pd - rn_rank nd)"
  using assms by (simp add: ravl_node_rank_difference_def ravl_node_rank_difference_parent_def
      ravl_node_rank_def)

text \<open>The single rotation with the demotion of the old parent.\<close>

lemma single_rotation_left:
  assumes "ravl_rep r (plug c (RNode (RNode A n k bn dn B) y k by dy C))" "0 < k"
  shows "\<exists>r'. (do { r1 \<leftarrow> ravl_rotate r n; ravl_node_demote y r1 }) = Some r' \<and> same_params r r' \<and>
              ravl_rep r' (plug c (RNode A n k bn dn (RNode B y (k - 1) by dy C)))"
proof -
  obtain r1 where 1: "ravl_rotate r n = Some r1" "same_params r r1"
    "ravl_rep r1 (plug (RFrame A n k bn dn # c) (RNode B y k by dy C))"
    using rotate_left_child [OF assms(1)] by auto
  from demote_rep [OF 1(3) assms(2)] 1 show ?thesis
    by (auto intro: same_params_trans)
qed

lemma single_rotation_right:
  assumes "ravl_rep r (plug c (RNode C y k by dy (RNode B n k bn dn A)))" "0 < k"
  shows "\<exists>r'. (do { r1 \<leftarrow> ravl_rotate r n; ravl_node_demote y r1 }) = Some r' \<and> same_params r r' \<and>
              ravl_rep r' (plug c (RNode (RNode C y (k - 1) by dy B) n k bn dn A))"
proof -
  obtain r1 where 1: "ravl_rotate r n = Some r1" "same_params r r1"
    "ravl_rep r1 (plug (LFrame n k bn dn A # c) (RNode C y k by dy B))"
    using rotate_right_child [OF assms(1)] by auto
  from demote_rep [OF 1(3) assms(2)] 1 show ?thesis
    by (auto intro: same_params_trans)
qed

text \<open>The double rotation with its promotion and demotions.\<close>

lemma double_rotation_left:
  assumes "ravl_rep r (plug c (RNode (RNode A n k bn dn (RNode Z1 z kz bz dz Z2)) y k by dy C))"
    and "0 < k"
  shows "\<exists>r'. (do { r1 \<leftarrow> ravl_rotate r z; r2 \<leftarrow> ravl_rotate r1 z; r3 \<leftarrow> ravl_node_promote z r2;
                    r4 \<leftarrow> ravl_node_demote n r3; ravl_node_demote y r4 }) = Some r' \<and>
              same_params r r' \<and>
              ravl_rep r' (plug c (RNode (RNode A n (k - 1) bn dn Z1) z (kz + 1) bz dz
                                         (RNode Z2 y (k - 1) by dy C)))"
proof -
  have "ravl_rep r (plug (LFrame y k by dy C # c) (RNode A n k bn dn (RNode Z1 z kz bz dz Z2)))"
    using assms by simp
  from rotate_right_child [OF this] obtain r1 where 1: "ravl_rotate r z = Some r1" "same_params r r1"
    "ravl_rep r1 (plug c (RNode (RNode (RNode A n k bn dn Z1) z kz bz dz Z2) y k by dy C))" by auto
  from rotate_left_child [OF 1(3)] obtain r2 where 2: "ravl_rotate r1 z = Some r2" "same_params r1 r2"
    "ravl_rep r2 (plug c (RNode (RNode A n k bn dn Z1) z kz bz dz (RNode Z2 y k by dy C)))" by auto
  from promote_rep [OF 2(3)] obtain r3 where 3: "ravl_node_promote z r2 = Some r3" "same_params r2 r3"
    "ravl_rep r3 (plug (LFrame z (kz + 1) bz dz (RNode Z2 y k by dy C) # c) (RNode A n k bn dn Z1))"
    by auto
  from demote_rep [OF 3(3) assms(2)] obtain r4 where 4:
    "ravl_node_demote n r3 = Some r4" "same_params r3 r4"
    "ravl_rep r4 (plug (RFrame (RNode A n (k - 1) bn dn Z1) z (kz + 1) bz dz # c) (RNode Z2 y k by dy C))"
    by auto
  from demote_rep [OF 4(3) assms(2)] 1 2 3 4 show ?thesis
    by (auto simp: same_params_def)
qed

lemma double_rotation_right:
  assumes "ravl_rep r (plug c (RNode C y k by dy (RNode (RNode Z2 z kz bz dz Z1) n k bn dn A)))"
    and "0 < k"
  shows "\<exists>r'. (do { r1 \<leftarrow> ravl_rotate r z; r2 \<leftarrow> ravl_rotate r1 z; r3 \<leftarrow> ravl_node_promote z r2;
                    r4 \<leftarrow> ravl_node_demote n r3; ravl_node_demote y r4 }) = Some r' \<and>
              same_params r r' \<and>
              ravl_rep r' (plug c (RNode (RNode C y (k - 1) by dy Z2) z (kz + 1) bz dz
                                         (RNode Z1 n (k - 1) bn dn A)))"
proof -
  have "ravl_rep r (plug (RFrame C y k by dy # c) (RNode (RNode Z2 z kz bz dz Z1) n k bn dn A))"
    using assms by simp
  from rotate_left_child [OF this] obtain r1 where 1: "ravl_rotate r z = Some r1" "same_params r r1"
    "ravl_rep r1 (plug c (RNode C y k by dy (RNode Z2 z kz bz dz (RNode Z1 n k bn dn A))))" by auto
  from rotate_right_child [OF 1(3)] obtain r2 where 2: "ravl_rotate r1 z = Some r2" "same_params r1 r2"
    "ravl_rep r2 (plug c (RNode (RNode C y k by dy Z2) z kz bz dz (RNode Z1 n k bn dn A)))" by auto
  from promote_rep [OF 2(3)] obtain r3 where 3: "ravl_node_promote z r2 = Some r3" "same_params r2 r3"
    "ravl_rep r3 (plug (RFrame (RNode C y k by dy Z2) z (kz + 1) bz dz # c) (RNode Z1 n k bn dn A))"
    by auto
  from demote_rep [OF 3(3) assms(2)] obtain r4 where 4:
    "ravl_node_demote n r3 = Some r4" "same_params r3 r4"
    "ravl_rep r4 (plug (LFrame z (kz + 1) bz dz (RNode Z1 n (k - 1) bn dn A) # c) (RNode C y k by dy Z2))"
    by auto
  from demote_rep [OF 4(3) assms(2)] 1 2 3 4 show ?thesis
    by (auto simp: same_params_def)
qed

lemma sibling_rep_left:
  assumes "ravl_rep r (plug c (RNode (RNode A n kn bn dn B) y ky by dy C))"
  shows "ravl_node_sibling (ravl_nodes r) n = Some (root_of C)"
    and "ravl_node_slot_type (ravl_nodes r) n = Some RAVL_LEFT"
  using assms by (simp_all add: ravl_rep_plug ravl_node_sibling_def ravl_node_slot_type_def slots_def)

lemma sibling_rep_right:
  assumes "ravl_rep r (plug c (RNode C y ky by dy (RNode B n kn bn dn A)))"
  shows "ravl_node_sibling (ravl_nodes r) n = Some (root_of C)"
    and "ravl_node_slot_type (ravl_nodes r) n = Some RAVL_RIGHT"
proof -
  have "root_of C \<noteq> Some n" using assms root_of_in_addrs [of C n] by (auto simp: ravl_rep_plug)
  then show "ravl_node_sibling (ravl_nodes r) n = Some (root_of C)"
    "ravl_node_slot_type (ravl_nodes r) n = Some RAVL_RIGHT"
    using assms by (simp_all add: ravl_rep_plug ravl_node_sibling_def ravl_node_slot_type_def slots_def)
qed

text \<open>
  What \<open>balance_finish\<close> computes at a node with parent \<open>y\<close> of rank \<open>ky\<close>, whose
  sibling is \<open>C\<close> and whose inner child is \<open>B\<close>.
\<close>

definition finish_choice :: "'d ravl \<Rightarrow> ptr \<Rightarrow> ptr \<Rightarrow> int \<Rightarrow> int \<Rightarrow> 'd rtree \<Rightarrow> 'd rtree \<Rightarrow> 'd ravl option" where
  "finish_choice r n y ky kn B C =
     (if ky = kn \<and> 1 < ky - rank_of C then
        (if B = RLeaf \<or> kn - rank_of B = 2 then
           do { r1 \<leftarrow> ravl_rotate r n; ravl_node_demote y r1 }
         else if kn - rank_of B = 1 then
           do { z \<leftarrow> root_of B; r1 \<leftarrow> ravl_rotate r z; r2 \<leftarrow> ravl_rotate r1 z;
                r3 \<leftarrow> ravl_node_promote z r2; r4 \<leftarrow> ravl_node_demote n r3; ravl_node_demote y r4 }
         else Some r)
      else Some r)"

lemma finish_eval:
  assumes nd: "ravl_nodes r n = Some nd" "rn_parent nd = Some y" "rn_rank nd = kn" "-1 \<le> kn"
    and yd: "ravl_nodes r y = Some yd" "rn_rank yd = ky"
    and slot: "ravl_node_sibling (ravl_nodes r) n = Some (root_of C)"
      "ravl_node_slot_type (ravl_nodes r) n = Some t" "t \<noteq> RAVL_ROOT" "slots nd (opp t) = root_of B"
    and sub: "rep (ravl_nodes r) (Some n) B" "rep (ravl_nodes r) q C" "rank_rule B" "rank_rule C"
  shows "balance_finish r n = finish_choice r n y ky kn B C"
proof -
  have dn: "ravl_node_rank_difference (ravl_nodes r) n = Some (ky - kn)"
    using nd yd by (simp add: rank_difference_rep)
  have ds: "ravl_node_rank_difference_parent (ravl_nodes r) (Some y) (root_of C) = Some (ky - rank_of C)"
    using yd sub by (intro rank_difference_parent_rep) (auto simp: node_rank_Some)
  have dz: "ravl_node_rank_difference (ravl_nodes r) z = Some (kn - rank_of B)" if "root_of B = Some z" for z
    using that sub nd rank_of_ge [OF sub(3)] by (cases B) (auto simp: rank_difference_rep)
  show ?thesis
    using dz slot
    by (cases B) (auto simp: balance_finish_def finish_choice_def nd dn ds ravl_slot_opposite_def opp_def)
qed

lemma finish_left:
  assumes rep: "ravl_rep r (plug c (RNode (RNode A n kn bn dn B) y ky by dy C))"
    and "rank_rule B" "rank_rule C" "rank_of B < kn"
  shows "balance_finish r n = finish_choice r n y ky kn B C"
  by (rule finish_eval [where t = RAVL_LEFT and q = "Some y" and
        nd = "\<lparr>rn_parent = Some y, rn_left = root_of A, rn_right = root_of B, rn_rank = kn,
               rn_pointer_based = bn, rn_data = dn\<rparr>" and
        yd = "\<lparr>rn_parent = top_of c, rn_left = Some n, rn_right = root_of C, rn_rank = ky,
               rn_pointer_based = by, rn_data = dy\<rparr>"])
     (use assms sibling_rep_left [OF rep] rank_of_ge [OF assms(2)] in
       \<open>simp_all add: ravl_rep_plug slots_def opp_def\<close>)

lemma finish_right:
  assumes rep: "ravl_rep r (plug c (RNode C y ky by dy (RNode B n kn bn dn A)))"
    and "rank_rule B" "rank_rule C" "rank_of B < kn"
  shows "balance_finish r n = finish_choice r n y ky kn B C"
  by (rule finish_eval [where t = RAVL_RIGHT and q = "Some y" and
        nd = "\<lparr>rn_parent = Some y, rn_left = root_of B, rn_right = root_of A, rn_rank = kn,
               rn_pointer_based = bn, rn_data = dn\<rparr>" and
        yd = "\<lparr>rn_parent = top_of c, rn_left = root_of C, rn_right = Some n, rn_rank = ky,
               rn_pointer_based = by, rn_data = dy\<rparr>"])
     (use assms sibling_rep_right [OF rep] rank_of_ge [OF assms(2)] in
       \<open>simp_all add: ravl_rep_plug slots_def opp_def\<close>)

lemma finish_choice_left:
  assumes rep: "ravl_rep r (plug c (RNode (RNode A n kn bn dn B) y ky by dy C))"
    and "promoted (RNode A n kn bn dn B)" "-1 \<le> rank_of C" "kn \<le> ky" "rank_of C < ky"
    and "\<not> is_0_1 (LFrame y ky by dy C # c) (RNode A n kn bn dn B)"
  obtains (settled) "finish_choice r n y ky kn B C = Some r" "kn < ky"
  | (single) r' where "finish_choice r n y ky kn B C = Some r'" "same_params r r'"
      "ravl_rep r' (plug c (RNode A n kn bn dn (RNode B y (kn - 1) by dy C)))"
      "ky = kn" "rank_of A = kn - 1" "rank_of B = kn - 2" "rank_of C < kn - 1"
  | (double) r' Z1 z kz bz dz Z2 where "finish_choice r n y ky kn B C = Some r'" "same_params r r'"
      "B = RNode Z1 z kz bz dz Z2"
      "ravl_rep r' (plug c (RNode (RNode A n (kn - 1) bn dn Z1) z (kz + 1) bz dz
                                  (RNode Z2 y (kn - 1) by dy C)))"
      "ky = kn" "rank_of A = kn - 2" "kz = kn - 1" "rank_of C < kn - 1"
proof (cases "kn < ky")
  case True
  then show thesis by (intro settled) (simp_all add: finish_choice_def)
next
  case False
  then have eq: "ky = kn" using assms by simp
  have gap: "rank_of C < kn - 1" using assms eq by auto
  have pos: "0 < kn" using gap assms by simp
  show thesis
  proof (cases "rank_of B = kn - 2")
    case True
    obtain r' where "finish_choice r n y ky kn B C = Some r'" "same_params r r'"
      "ravl_rep r' (plug c (RNode A n kn bn dn (RNode B y (kn - 1) by dy C)))"
      using single_rotation_left [OF rep [unfolded eq] pos] True gap eq by (auto simp: finish_choice_def)
    then show thesis using single True gap eq assms(2) pos by auto
  next
    case False
    then have ranks: "rank_of B = kn - 1" "rank_of A = kn - 2" using assms(2) pos by auto
    then obtain Z1 z kz bz dz Z2 where B: "B = RNode Z1 z kz bz dz Z2" using pos by (cases B) auto
    obtain r' where "finish_choice r n y ky kn B C = Some r'" "same_params r r'"
      "ravl_rep r' (plug c (RNode (RNode A n (kn - 1) bn dn Z1) z (kz + 1) bz dz
                                  (RNode Z2 y (kn - 1) by dy C)))"
      using double_rotation_left [OF rep [unfolded eq B] pos] ranks gap eq B by (auto simp: finish_choice_def)
    then show thesis using double ranks gap eq B by auto
  qed
qed

lemma finish_choice_right:
  assumes rep: "ravl_rep r (plug c (RNode C y ky by dy (RNode B n kn bn dn A)))"
    and "promoted (RNode B n kn bn dn A)" "-1 \<le> rank_of C" "kn \<le> ky" "rank_of C < ky"
    and "\<not> is_0_1 (RFrame C y ky by dy # c) (RNode B n kn bn dn A)"
  obtains (settled) "finish_choice r n y ky kn B C = Some r" "kn < ky"
  | (single) r' where "finish_choice r n y ky kn B C = Some r'" "same_params r r'"
      "ravl_rep r' (plug c (RNode (RNode C y (kn - 1) by dy B) n kn bn dn A))"
      "ky = kn" "rank_of A = kn - 1" "rank_of B = kn - 2" "rank_of C < kn - 1"
  | (double) r' Z1 z kz bz dz Z2 where "finish_choice r n y ky kn B C = Some r'" "same_params r r'"
      "B = RNode Z2 z kz bz dz Z1"
      "ravl_rep r' (plug c (RNode (RNode C y (kn - 1) by dy Z2) z (kz + 1) bz dz
                                  (RNode Z1 n (kn - 1) bn dn A)))"
      "ky = kn" "rank_of A = kn - 2" "kz = kn - 1" "rank_of C < kn - 1"
proof (cases "kn < ky")
  case True
  then show thesis by (intro settled) (simp_all add: finish_choice_def)
next
  case False
  then have eq: "ky = kn" using assms by simp
  have gap: "rank_of C < kn - 1" using assms eq by auto
  have pos: "0 < kn" using gap assms by simp
  show thesis
  proof (cases "rank_of B = kn - 2")
    case True
    obtain r' where "finish_choice r n y ky kn B C = Some r'" "same_params r r'"
      "ravl_rep r' (plug c (RNode (RNode C y (kn - 1) by dy B) n kn bn dn A))"
      using single_rotation_right [OF rep [unfolded eq] pos] True gap eq by (auto simp: finish_choice_def)
    then show thesis using single True gap eq assms(2) pos by auto
  next
    case False
    then have ranks: "rank_of B = kn - 1" "rank_of A = kn - 2" using assms(2) pos by auto
    then obtain Z1 z kz bz dz Z2 where B: "B = RNode Z2 z kz bz dz Z1" using pos by (cases B) auto
    obtain r' where "finish_choice r n y ky kn B C = Some r'" "same_params r r'"
      "ravl_rep r' (plug c (RNode (RNode C y (kn - 1) by dy Z2) z (kz + 1) bz dz
                                  (RNode Z1 n (kn - 1) bn dn A)))"
      using double_rotation_right [OF rep [unfolded eq B] pos] ranks gap eq B by (auto simp: finish_choice_def)
    then show thesis using double ranks gap eq B by auto
  qed
qed

text \<open>The outcome of balancing: the entries in their order, under the rank rule.\<close>

definition balanced_as :: "'d ravl \<Rightarrow> 'd ravl \<Rightarrow> (ptr \<times> 'd) list \<Rightarrow> bool" where
  "balanced_as r r' es \<longleftrightarrow>
     same_params r r' \<and> (\<exists>t. ravl_rep r' t \<and> rank_rule t \<and> inorder t = es)"

lemma balanced_asI:
  "same_params r r' \<Longrightarrow> ravl_rep r' t \<Longrightarrow> rank_rule t \<Longrightarrow> inorder t = es \<Longrightarrow> balanced_as r r' es"
  by (auto simp: balanced_as_def)

lemma balance_finish_LFrame:
  assumes "bal_state r (LFrame y ky by dy C # c) (RNode A n kn bn dn B)"
    "\<not> is_0_1 (LFrame y ky by dy C # c) (RNode A n kn bn dn B)"
  shows "\<exists>r'. balance_finish r n = Some r' \<and>
              balanced_as r r' (inorder (plug (LFrame y ky by dy C # c) (RNode A n kn bn dn B)))"
proof -
  have rep: "ravl_rep r (plug c (RNode (RNode A n kn bn dn B) y ky by dy C))"
    and rules: "rank_rule A" "rank_rule B" "rank_rule C" "rank_of A < kn" "rank_of B < kn"
    "kn \<le> ky" "rank_of C < ky" "crule c ky" "promoted (RNode A n kn bn dn B)"
    using assms by (auto simp: bal_state_def)
  have fin: "balance_finish r n = finish_choice r n y ky kn B C"
    by (rule finish_left [OF rep]) (use rules in auto)
  from rep rules(9) rank_of_ge [OF rules(3)] rules(6,7) assms(2) show ?thesis
  proof (cases rule: finish_choice_left)
    case settled
    then show ?thesis using rep rules unfolding fin
      by (intro exI [of _ r]) (auto intro!: balanced_asI simp: rank_rule_plug)
  next
    case (single r')
    then show ?thesis using rules unfolding fin
      by (intro exI [of _ r']) (auto intro!: balanced_asI simp: rank_rule_plug)
  next
    case (double r' Z1 z kz bz dz Z2)
    then show ?thesis using rules unfolding fin
      by (intro exI [of _ r']) (auto intro!: balanced_asI simp: rank_rule_plug)
  qed
qed

lemma balance_finish_RFrame:
  assumes "bal_state r (RFrame C y ky by dy # c) (RNode B n kn bn dn A)"
    "\<not> is_0_1 (RFrame C y ky by dy # c) (RNode B n kn bn dn A)"
  shows "\<exists>r'. balance_finish r n = Some r' \<and>
              balanced_as r r' (inorder (plug (RFrame C y ky by dy # c) (RNode B n kn bn dn A)))"
proof -
  have rep: "ravl_rep r (plug c (RNode C y ky by dy (RNode B n kn bn dn A)))"
    and rules: "rank_rule A" "rank_rule B" "rank_rule C" "rank_of A < kn" "rank_of B < kn"
    "kn \<le> ky" "rank_of C < ky" "crule c ky" "promoted (RNode B n kn bn dn A)"
    using assms by (auto simp: bal_state_def)
  have fin: "balance_finish r n = finish_choice r n y ky kn B C"
    by (rule finish_right [OF rep]) (use rules in auto)
  from rep rules(9) rank_of_ge [OF rules(3)] rules(6,7) assms(2) show ?thesis
  proof (cases rule: finish_choice_right)
    case settled
    then show ?thesis using rep rules unfolding fin
      by (intro exI [of _ r]) (auto intro!: balanced_asI simp: rank_rule_plug)
  next
    case (single r')
    then show ?thesis using rules unfolding fin
      by (intro exI [of _ r']) (auto intro!: balanced_asI simp: rank_rule_plug)
  next
    case (double r' Z1 z kz bz dz Z2)
    then show ?thesis using rules unfolding fin
      by (intro exI [of _ r']) (auto intro!: balanced_asI simp: rank_rule_plug)
  qed
qed

lemma balance_finish_root:
  assumes "bal_state r [] (RNode A n kn bn dn B)"
  shows "balance_finish r n = Some r" "balanced_as r r (inorder (RNode A n kn bn dn B))"
proof -
  show "balance_finish r n = Some r"
    using assms
    by (auto simp: bal_state_def ravl_rep_def balance_finish_def ravl_node_sibling_def
        ravl_node_slot_type_def ravl_node_rank_difference_def ravl_node_rank_difference_parent_def
        ravl_node_rank_def)
  show "balanced_as r r (inorder (RNode A n kn bn dn B))"
    using assms by (intro balanced_asI [of _ _ "RNode A n kn bn dn B"]) (auto simp: bal_state_def)
qed

lemma ravl_balance_rep:
  assumes "bal_state r c t" "root_of t = Some n"
  shows "\<exists>r'. ravl_balance r n = Some r' \<and> balanced_as r r' (inorder (plug c t))"
proof -
  obtain r1 n1 c1 t1 where W: "balance_walk r n = Some (r1, n1)" "same_params r r1" "bal_state r1 c1 t1"
    "root_of t1 = Some n1" "\<not> is_0_1 c1 t1" "inorder (plug c1 t1) = inorder (plug c t)"
    using balance_walk_rep [OF assms] by blast
  obtain A kn bn dn B where t1: "t1 = RNode A n1 kn bn dn B" using W(4) by (cases t1) auto
  have "\<exists>r'. balance_finish r1 n1 = Some r' \<and> balanced_as r1 r' (inorder (plug c1 t1))"
  proof (cases c1 rule: top_of.cases)
    case 1
    then show ?thesis using W t1 balance_finish_root by fastforce
  next
    case (2 y ky b dy C c)
    then show ?thesis using balance_finish_LFrame [OF W(3) [unfolded 2 t1] W(5) [unfolded 2 t1]] t1 by simp
  next
    case (3 C y ky b dy c)
    then show ?thesis using balance_finish_RFrame [OF W(3) [unfolded 3 t1] W(5) [unfolded 3 t1]] t1 by simp
  qed
  then show ?thesis using W by (auto simp: ravl_balance_def balanced_as_def intro: same_params_trans)
qed

section \<open>Insertion\<close>

text \<open>The context of the empty slot at which the descent of \<open>ravl_emplace\<close> ends.\<close>

fun descend :: "('d \<Rightarrow> 'd \<Rightarrow> int) \<Rightarrow> 'd \<Rightarrow> 'd ctxt \<Rightarrow> 'd rtree \<Rightarrow> 'd ctxt option" where
  "descend cmp x c RLeaf = Some c"
| "descend cmp x c (RNode l a k b d r) =
     (if cmp x d = 0 then None
      else if cmp x d > 0 then descend cmp x (RFrame l a k b d # c) r
      else descend cmp x (LFrame a k b d r # c) l)"

lemma descend_plug: "descend cmp x c t = Some c' \<Longrightarrow> plug c' RLeaf = plug c t"
  by (induction cmp x c t rule: descend.induct) (auto split: if_splits)

lemma load_ctxt_loc:
  "repc (ravl_nodes r) c (root_of t) \<Longrightarrow> (c = [] \<Longrightarrow> ravl_root r = root_of t) \<Longrightarrow>
   load_loc r (ctxt_loc c) = Some (root_of t)"
  by (cases c rule: top_of.cases) (auto simp: ctxt_loc_def load_loc_def slots_def)

lemma emplace_walk_rep:
  assumes "repc (ravl_nodes r) c (root_of t)" "rep (ravl_nodes r) (top_of c) t"
    and "c = [] \<Longrightarrow> ravl_root r = root_of t"
    and n: "ravl_nodes r n = Some nd" "rn_data nd = x"
  shows "emplace_walk r n (top_of c) (ctxt_loc c) =
    Some (case descend (ravl_compare r) x c t of None \<Rightarrow> Inl () | Some c' \<Rightarrow> Inr (top_of c', ctxt_loc c'))"
  using assms(1-3)
proof (induction t arbitrary: c)
  case RLeaf
  then show ?case
    using load_ctxt_loc [OF RLeaf.prems(1,3)] by (subst emplace_walk.simps) simp
next
  case (RNode l a k b d rt)
  have load: "load_loc r (ctxt_loc c) = Some (Some a)"
    using load_ctxt_loc [OF RNode.prems(1,3)] by simp
  have left: "Slot_Loc a RAVL_LEFT = ctxt_loc (LFrame a k b d rt # c)"
    and right: "Slot_Loc a RAVL_RIGHT = ctxt_loc (RFrame l a k b d # c)"
    by (simp_all add: ctxt_loc_def)
  show ?case
    using load n RNode.prems RNode.IH(1) [of "LFrame a k b d rt # c"] RNode.IH(2) [of "RFrame l a k b d # c"]
    by (subst emplace_walk.simps) (simp add: ravl_data_def left right Let_def)
qed

lemma new_leaf_rep:
  fixes b d
  assumes rep: "ravl_rep r (plug c RLeaf)" and fresh: "n \<notin> dom (ravl_nodes r)"
  defines "nd \<equiv> \<lparr>rn_parent = None, rn_left = None, rn_right = None, rn_rank = 0,
                  rn_pointer_based = b, rn_data = d\<rparr>"
  shows "\<exists>r1 r2. upd_node (\<lambda>x. x\<lparr>rn_parent := top_of c\<rparr>) n (r\<lparr>ravl_nodes := (ravl_nodes r)(n \<mapsto> nd)\<rparr>) = Some r1
           \<and> store_loc (ctxt_loc c) (Some n) r1 = Some r2 \<and> same_params r r2
           \<and> ravl_rep r2 (plug c (RNode RLeaf n 0 b d RLeaf))"
proof -
  note R = rep [unfolded ravl_rep_plug, simplified]
  have n: "n \<notin> caddrs c" using R fresh by auto
  let ?nd = "nd\<lparr>rn_parent := top_of c\<rparr>"
  let ?r1 = "r\<lparr>ravl_nodes := (ravl_nodes r)(n \<mapsto> ?nd)\<rparr>"
  let ?r2 = "r\<lparr>ravl_root := (if c = [] then Some n else ravl_root r),
               ravl_nodes := (ctxt_store c (Some n) (ravl_nodes r))(n \<mapsto> ?nd)\<rparr>"
  have 1: "upd_node (\<lambda>x. x\<lparr>rn_parent := top_of c\<rparr>) n (r\<lparr>ravl_nodes := (ravl_nodes r)(n \<mapsto> nd)\<rparr>) = Some ?r1"
    by (simp add: upd_node_def)
  have 2: "store_loc (ctxt_loc c) (Some n) ?r1 = Some ?r2"
    using R n by (subst store_ctxt_loc [where x = None]) auto
  have "ravl_rep ?r2 (plug c (RNode RLeaf n 0 b d RLeaf))"
    using R n by (auto simp: ravl_rep_plug nd_def repc_ctxt_store [where x = None] root_of_plug_Cons)
  then show ?thesis using 1 2 by auto
qed

lemma emplace_rep:
  assumes rep: "ravl_rep r t" "rank_rule t" and fresh: "next_id s \<notin> addrs t"
    and alloc: "ba_global_alloc s = (Some (next_id s), s')"
  shows "case descend (ravl_compare r) d [] t of
      None \<Rightarrow> ravl_emplace r constr d s = Some (-1, r, s')
    | Some c \<Rightarrow> \<exists>r'. ravl_emplace r constr d s = Some (0, r', s') \<and>
                     balanced_as r r' (lefts c @ (next_id s, d) # rights c)"
proof -
  let ?n = "next_id s"
  let ?b = "constr = ravl_node_insert_constructor"
  let ?nd = "\<lparr>rn_parent = None, rn_left = None, rn_right = None, rn_rank = 0,
               rn_pointer_based = ?b, rn_data = d\<rparr>"
  let ?r = "r\<lparr>ravl_nodes := (ravl_nodes r)(?n \<mapsto> ?nd)\<rparr>"
  have n: "?n \<notin> dom (ravl_nodes r)" using rep fresh by (simp add: ravl_rep_def)
  have new: "ravl_new_node r constr d s = (Some ?n, ?r, s')"
    by (simp add: ravl_new_node_def alloc)
  have walk: "emplace_walk ?r ?n None Root_Loc =
      Some (case descend (ravl_compare r) d [] t of None \<Rightarrow> Inl () | Some c \<Rightarrow> Inr (top_of c, ctxt_loc c))"
    using emplace_walk_rep [of ?r "[]" t ?n ?nd d] rep fresh
    by (simp add: ravl_rep_def ctxt_loc_def)
  show ?thesis
  proof (cases "descend (ravl_compare r) d [] t")
    case None
    have "(ravl_nodes r)(?n := None) = ravl_nodes r" using n by (intro ext) auto
    then show ?thesis using None by (simp add: ravl_emplace_def new walk)
  next
    case (Some c)
    have plug: "plug c RLeaf = t" using descend_plug [OF Some] by simp
    obtain r1 r2 where r2: "upd_node (\<lambda>x. x\<lparr>rn_parent := top_of c\<rparr>) ?n ?r = Some r1"
      "store_loc (ctxt_loc c) (Some ?n) r1 = Some r2" "same_params r r2"
      "ravl_rep r2 (plug c (RNode RLeaf ?n 0 ?b d RLeaf))"
      using new_leaf_rep [of r c ?n ?b d] rep n plug by auto
    have "crule c (-1)" using rep(2) by (simp add: plug [symmetric] rank_rule_plug)
    then have "bal_state r2 c (RNode RLeaf ?n 0 ?b d RLeaf)" using r2 by (simp add: bal_state_def)
    from ravl_balance_rep [OF this] obtain r3 where "ravl_balance r2 ?n = Some r3"
      "balanced_as r2 r3 (lefts c @ (?n, d) # rights c)" by auto
    then show ?thesis using Some r2
      by (auto simp: ravl_emplace_def new walk balanced_as_def intro: same_params_trans)
  qed
qed

end
