(* ===== verification/Ravl_Index.thy ===== *)
theory Ravl_Index
  imports Ravl_Tree
begin

text \<open>
  The relaxed AVL tree seen by its clients: a sorted list of entries, each an address of
  a node with the data stored there. \<open>ravl_index key r es\<close> combines the representation,
  the rank rule, the order of the keys and the meaning of the comparison function. The
  lemmas give the effect of every public function of \<^verbatim>\<open>ravl.h\<close> on the list; the locale
  \<open>ordered_index\<close> collects the laws on which the coarse allocator relies.
\<close>

section \<open>Neighbours in the tree\<close>

definition head_ref :: "(ptr \<times> 'd) list \<Rightarrow> ref" where
  "head_ref es = (case es of [] \<Rightarrow> None | e # _ \<Rightarrow> Some (fst e))"

definition last_ref :: "(ptr \<times> 'd) list \<Rightarrow> ref" where
  "last_ref es = head_ref (rev es)"

lemma head_ref_simps [simp]:
  "head_ref [] = None" "head_ref (e # es) = Some (fst e)"
  "xs \<noteq> [] \<Longrightarrow> head_ref (xs @ ys) = head_ref xs"
  by (auto simp: head_ref_def split: list.split)

lemma head_ref_append_Cons [simp]: "head_ref (xs @ y # ys) = Some (fst (hd (xs @ [y])))"
  by (cases xs) auto

lemma last_ref_simps [simp]:
  "last_ref [] = None" "last_ref (es @ [e]) = Some (fst e)"
  "ys \<noteq> [] \<Longrightarrow> last_ref (xs @ ys) = last_ref ys"
  by (simp_all add: last_ref_def)

lemma inorder_Nil [simp]: "inorder t = [] \<longleftrightarrow> t = RLeaf"
  by (cases t) auto

lemma slots_simps [simp]:
  "slots n RAVL_LEFT = rn_left n" "slots n RAVL_RIGHT = rn_right n"
  by (simp_all add: slots_def)

lemma head_ref_Some: "xs \<noteq> [] \<Longrightarrow> \<exists>a. head_ref xs = Some a"
  by (cases xs) auto

lemma last_ref_Some: "xs \<noteq> [] \<Longrightarrow> \<exists>a. last_ref xs = Some a"
  by (cases xs rule: rev_cases) auto

lemma type_most_left_node:
  "rep h p (RNode l a k b d r) \<Longrightarrow>
   ravl_node_type_most h a RAVL_LEFT = head_ref (inorder (RNode l a k b d r))"
proof (induction l arbitrary: p a k b d r)
  case RLeaf
  then show ?case by (subst ravl_node_type_most.simps) simp
next
  case (RNode l' a' k' b' d' r')
  then show ?case
    by (subst ravl_node_type_most.simps) (simp add: RNode.IH(1) [of "Some a" a' k' b' d' r'])
qed

lemma type_most_left:
  "rep h p t \<Longrightarrow> root_of t = Some a \<Longrightarrow> ravl_node_type_most h a RAVL_LEFT = head_ref (inorder t)"
  by (cases t) (auto dest: type_most_left_node simp del: rep.simps inorder.simps)

lemma type_most_right_node:
  "rep h p (RNode l a k b d r) \<Longrightarrow>
   ravl_node_type_most h a RAVL_RIGHT = last_ref (inorder (RNode l a k b d r))"
proof (induction r arbitrary: p a k b d l)
  case RLeaf
  then show ?case by (subst ravl_node_type_most.simps) simp
next
  case (RNode l' a' k' b' d' r')
  then show ?case
    by (subst ravl_node_type_most.simps)
       (simp add: RNode.IH(2) [of "Some a" l' a' k' b' d'] last_ref_def)
qed

lemma type_most_right:
  "rep h p t \<Longrightarrow> root_of t = Some a \<Longrightarrow> ravl_node_type_most h a RAVL_RIGHT = last_ref (inorder t)"
  by (cases t) (auto dest: type_most_right_node simp del: rep.simps inorder.simps)

lemma cessor_walk_right:
  assumes "repc h c (Some a)" "h a = Some nd" "rn_parent nd = top_of c" "a \<notin> caddrs c" "dctxt c"
  shows "cessor_walk h a RAVL_RIGHT = Some (head_ref (rights c))"
  using assms
proof (induction c arbitrary: a nd rule: lefts.induct)
  case 1
  then show ?case by (subst cessor_walk.simps) simp
next
  case (2 p k b d r c)
  then have "root_of r \<noteq> Some a" using root_of_in_addrs by fastforce
  then show ?case using 2 by (subst cessor_walk.simps) simp
next
  case (3 l p k b d c)
  then show ?case by (subst cessor_walk.simps) simp
qed

lemma cessor_walk_left:
  assumes "repc h c (Some a)" "h a = Some nd" "rn_parent nd = top_of c" "a \<notin> caddrs c" "dctxt c"
  shows "cessor_walk h a RAVL_LEFT = Some (last_ref (lefts c))"
  using assms
proof (induction c arbitrary: a nd rule: lefts.induct)
  case 1
  then show ?case by (subst cessor_walk.simps) simp
next
  case (2 p k b d r c)
  then show ?case by (subst cessor_walk.simps) simp
next
  case (3 l p k b d c)
  then have "root_of l \<noteq> Some a" using root_of_in_addrs by fastforce
  then show ?case using 3 by (subst cessor_walk.simps) simp
qed

lemma successor_plug:
  assumes "rep h None (plug c (RNode l a k b d r))" "dtree (plug c (RNode l a k b d r))"
  shows "ravl_node_successor h a = Some (head_ref (inorder r @ rights c))"
proof (cases "root_of r")
  case None
  then show ?thesis using assms cessor_walk_right [of h c a]
    by (auto simp: ravl_node_successor_def ravl_node_cessor_def rep_plug)
next
  case (Some x)
  then have "inorder r \<noteq> []" by (cases r) auto
  moreover have "ravl_node_type_most h x RAVL_LEFT = head_ref (inorder r)"
    using assms Some by (intro type_most_left [where p = "Some a"]) (auto simp: rep_plug)
  ultimately show ?thesis using assms Some head_ref_Some [of "inorder r"]
    by (auto simp: ravl_node_successor_def ravl_node_cessor_def rep_plug ravl_slot_opposite_def)
qed

lemma predecessor_plug:
  assumes "rep h None (plug c (RNode l a k b d r))" "dtree (plug c (RNode l a k b d r))"
  shows "ravl_node_predecessor h a = Some (last_ref (lefts c @ inorder l))"
proof (cases "root_of l")
  case None
  then show ?thesis using assms cessor_walk_left [of h c a]
    by (auto simp: ravl_node_predecessor_def ravl_node_cessor_def rep_plug)
next
  case (Some x)
  then have "inorder l \<noteq> []" by (cases l) auto
  moreover have "ravl_node_type_most h x RAVL_RIGHT = last_ref (inorder l)"
    using assms Some by (intro type_most_right [where p = "Some a"]) (auto simp: rep_plug)
  ultimately show ?thesis using assms Some last_ref_Some [of "inorder l"]
    by (auto simp: ravl_node_predecessor_def ravl_node_cessor_def rep_plug ravl_slot_opposite_def)
qed

section \<open>Search\<close>

definition cmp_by :: "('d \<Rightarrow> 'k::linorder) \<Rightarrow> ('d \<Rightarrow> 'd \<Rightarrow> int) \<Rightarrow> bool" where
  "cmp_by key cmp \<longleftrightarrow>
     (\<forall>x y. (cmp x y < 0 \<longleftrightarrow> key x < key y) \<and> (cmp x y = 0 \<longleftrightarrow> key x = key y))"

lemma cmp_byD:
  assumes "cmp_by key cmp"
  shows "cmp x y < 0 \<longleftrightarrow> key x < key y" "cmp x y = 0 \<longleftrightarrow> key x = key y" "cmp x y > 0 \<longleftrightarrow> key x > key y"
proof -
  show *: "cmp x y < 0 \<longleftrightarrow> key x < key y" "cmp x y = 0 \<longleftrightarrow> key x = key y"
    using assms by (auto simp: cmp_by_def)
  have "cmp x y > 0 \<longleftrightarrow> \<not> cmp x y < 0 \<and> cmp x y \<noteq> 0" by auto
  then show "cmp x y > 0 \<longleftrightarrow> key x > key y" using * by auto
qed

definition sorted_keys :: "('d \<Rightarrow> 'k::linorder) \<Rightarrow> (ptr \<times> 'd) list \<Rightarrow> bool" where
  "sorted_keys key es \<longleftrightarrow> sorted_wrt (<) (map (\<lambda>e. key (snd e)) es)"

definition first_such :: "(ptr \<times> 'd \<Rightarrow> bool) \<Rightarrow> (ptr \<times> 'd) list \<Rightarrow> ref" where
  "first_such P es = map_option fst (List.find P es)"

definition last_such :: "(ptr \<times> 'd \<Rightarrow> bool) \<Rightarrow> (ptr \<times> 'd) list \<Rightarrow> ref" where
  "last_such P es = first_such P (rev es)"

lemma find_append: "List.find P (xs @ ys) = (case List.find P xs of None \<Rightarrow> List.find P ys | Some x \<Rightarrow> Some x)"
  by (induction xs) auto

lemma first_such_skip [simp]: "\<forall>e\<in>set xs. \<not> P e \<Longrightarrow> first_such P (xs @ ys) = first_such P ys"
  by (induction xs) (auto simp: first_such_def)

lemma first_such_Cons [simp]: "first_such P (e # es) = (if P e then Some (fst e) else first_such P es)"
  by (simp add: first_such_def)

lemma first_such_Nil [simp]: "first_such P [] = None"
  by (simp add: first_such_def)

lemma first_such_head: "\<forall>e\<in>set es. P e \<Longrightarrow> first_such P es = head_ref es"
  by (cases es) auto

lemma last_such_last: "\<forall>e\<in>set es. P e \<Longrightarrow> last_such P es = last_ref es"
  by (simp add: last_such_def last_ref_def first_such_head)

lemma sorted_keys_append:
  "sorted_keys key (xs @ ys) \<longleftrightarrow>
     sorted_keys key xs \<and> sorted_keys key ys \<and> (\<forall>x\<in>set xs. \<forall>y\<in>set ys. key (snd x) < key (snd y))"
  by (auto simp: sorted_keys_def sorted_wrt_append)

lemma sorted_keys_Cons:
  "sorted_keys key (x # ys) \<longleftrightarrow> sorted_keys key ys \<and> (\<forall>y\<in>set ys. key (snd x) < key (snd y))"
  by (auto simp: sorted_keys_def)

lemma sorted_keys_Nil [simp]: "sorted_keys key []"
  by (simp add: sorted_keys_def)

lemma find_walk_greater:
  assumes "cmp_by key (ravl_compare r)" "rep (ravl_nodes r) None (plug c t)" "dtree (plug c t)"
    and "sorted_keys key (inorder (plug c t))" "\<forall>e\<in>set (rights c). key x < key (snd e)"
    and flags: "flags AND 1 \<noteq> 0 \<longleftrightarrow> eq" "flags AND 2 \<noteq> 0" "flags AND 4 = 0"
  shows "find_walk r x flags (head_ref (rights c)) (root_of t) =
    Some (first_such (\<lambda>e. key x < key (snd e) \<or> eq \<and> key (snd e) = key x) (inorder t @ rights c))"
  using assms(2-5)
proof (induction t arbitrary: c)
  case RLeaf
  then show ?case by (subst find_walk.simps) (simp add: first_such_head)
next
  case (RNode l a k b d rt)
  note cmp = cmp_byD [OF assms(1), of x d]
  note node = rep_plug_node [OF RNode.prems(1)]
  note sorted = RNode.prems(3) [simplified, unfolded sorted_keys_append sorted_keys_Cons]
  have near: "\<forall>e\<in>set (inorder l). key (snd e) < key d" "\<forall>e\<in>set (rights c). key d < key (snd e)"
    "\<forall>e\<in>set (inorder rt). key d < key (snd e)"
    using sorted by (simp_all add: ball_Un)
  consider (eq) "key x = key d" | (less) "key x < key d" | (greater) "key d < key x" by fastforce
  then show ?case
  proof cases
    case eq
    let ?P = "\<lambda>e. key x < key (snd e) \<or> eq \<and> key (snd e) = key x"
    have "first_such ?P (inorder rt @ rights c) = head_ref (inorder rt @ rights c)"
      using near eq by (intro first_such_head) auto
    moreover have "first_such ?P (inorder l @ (a, d) # inorder rt @ rights c) =
        first_such ?P ((a, d) # inorder rt @ rights c)"
      using near eq by (intro first_such_skip) force
    ultimately show ?thesis
      using node cmp eq flags successor_plug [OF RNode.prems(1,2)]
      by (subst find_walk.simps) (cases "flags AND 1 = 0"; simp add: ravl_data_def ravl_predicate_holds_def)
  next
    case less
    then have "\<forall>e\<in>set (rights (LFrame a k b d rt # c)). key x < key (snd e)"
      using near less by (simp add: ball_Un) (meson less_trans)
    then have "find_walk r x flags (Some a) (root_of l) =
      Some (first_such (\<lambda>e. key x < key (snd e) \<or> eq \<and> key (snd e) = key x)
        (inorder l @ (a, d) # inorder rt @ rights c))"
      using RNode.IH(1) [of "LFrame a k b d rt # c"] RNode.prems by simp
    then show ?thesis
      using node cmp flags less
      by (subst find_walk.simps) (simp add: ravl_data_def ravl_predicate_holds_def)
  next
    case greater
    have skip: "\<forall>e\<in>set (inorder l @ [(a, d)]). \<not> (key x < key (snd e) \<or> eq \<and> key (snd e) = key x)"
      using near greater by force
    show ?thesis
      using node cmp greater flags RNode.IH(2) [of "RFrame l a k b d # c"] RNode.prems
        first_such_skip [OF skip, of "inorder rt @ rights c"]
      by (subst find_walk.simps) (simp add: ravl_data_def ravl_predicate_holds_def)
  qed
qed

lemma last_such_skip [simp]: "\<forall>e\<in>set ys. \<not> P e \<Longrightarrow> last_such P (xs @ ys) = last_such P xs"
  by (simp add: last_such_def)

lemma last_such_snoc [simp]: "last_such P (es @ [e]) = (if P e then Some (fst e) else last_such P es)"
  by (simp add: last_such_def)

lemma last_such_snoc2 [simp]:
  "last_such P (xs @ ys @ [e]) = (if P e then Some (fst e) else last_such P (xs @ ys))"
  using last_such_snoc [of P "xs @ ys" e] by simp

lemma find_walk_less:
  assumes "cmp_by key (ravl_compare r)" "rep (ravl_nodes r) None (plug c t)" "dtree (plug c t)"
    and "sorted_keys key (inorder (plug c t))" "\<forall>e\<in>set (lefts c). key (snd e) < key x"
    and flags: "flags AND 1 \<noteq> 0 \<longleftrightarrow> eq" "flags AND 2 = 0" "flags AND 4 \<noteq> 0"
  shows "find_walk r x flags (last_ref (lefts c)) (root_of t) =
    Some (last_such (\<lambda>e. key (snd e) < key x \<or> eq \<and> key (snd e) = key x) (lefts c @ inorder t))"
  using assms(2-5)
proof (induction t arbitrary: c)
  case RLeaf
  then show ?case by (subst find_walk.simps) (simp add: last_such_last)
next
  case (RNode l a k b d rt)
  note cmp = cmp_byD [OF assms(1), of x d]
  note node = rep_plug_node [OF RNode.prems(1)]
  note sorted = RNode.prems(3) [simplified, unfolded sorted_keys_append sorted_keys_Cons]
  have near: "\<forall>e\<in>set (inorder l). key (snd e) < key d" "\<forall>e\<in>set (lefts c). key (snd e) < key d"
    "\<forall>e\<in>set (inorder rt). key d < key (snd e)"
    using sorted by (simp_all add: ball_Un)
  let ?P = "\<lambda>e. key (snd e) < key x \<or> eq \<and> key (snd e) = key x"
  consider (eq) "key x = key d" | (less) "key x < key d" | (greater) "key d < key x" by fastforce
  then show ?case
  proof cases
    case eq
    have "last_such ?P (lefts c @ inorder l) = last_ref (lefts c @ inorder l)"
      using near eq by (intro last_such_last) auto
    moreover have "\<forall>e\<in>set (inorder rt). \<not> ?P e" using near eq by force
    then have "last_such ?P ((lefts c @ inorder l @ [(a, d)]) @ inorder rt) =
        last_such ?P (lefts c @ inorder l @ [(a, d)])"
      by (rule last_such_skip)
    ultimately show ?thesis
      using node cmp eq flags predecessor_plug [OF RNode.prems(1,2)]
      by (subst find_walk.simps) (cases "flags AND 1 = 0"; simp add: ravl_data_def ravl_predicate_holds_def)
  next
    case less
    have "\<forall>e\<in>set ((a, d) # inorder rt). \<not> ?P e" using near less by force
    then have "last_such ?P (lefts c @ inorder l @ (a, d) # inorder rt) = last_such ?P (lefts c @ inorder l)"
      using last_such_skip [of "(a, d) # inorder rt" ?P "lefts c @ inorder l"] by simp
    then show ?thesis
      using node cmp less flags RNode.IH(1) [of "LFrame a k b d rt # c"] RNode.prems
      by (subst find_walk.simps) (simp add: ravl_data_def ravl_predicate_holds_def)
  next
    case greater
    then have "\<forall>e\<in>set (lefts (RFrame l a k b d # c)). key (snd e) < key x"
      using near greater by (simp add: ball_Un) (meson less_trans)
    then have "find_walk r x flags (Some a) (root_of rt) =
        Some (last_such ?P (lefts c @ inorder l @ (a, d) # inorder rt))"
      using RNode.IH(2) [of "RFrame l a k b d # c"] RNode.prems by simp
    then show ?thesis
      using node cmp flags greater
      by (subst find_walk.simps) (simp add: ravl_data_def ravl_predicate_holds_def)
  qed
qed

lemma find_walk_equal:
  assumes "cmp_by key (ravl_compare r)" "rep (ravl_nodes r) p t" "sorted_keys key (inorder t)"
  shows "find_walk r x RAVL_PREDICATE_EQUAL None (root_of t) =
    Some (first_such (\<lambda>e. key (snd e) = key x) (inorder t))"
  using assms(2,3)
proof (induction t arbitrary: p)
  case RLeaf
  then show ?case by (subst find_walk.simps) simp
next
  case (RNode l a k b d rt)
  note cmp = cmp_byD [OF assms(1), of x d]
  note sorted = RNode.prems(2) [simplified, unfolded sorted_keys_append sorted_keys_Cons]
  have near: "\<forall>e\<in>set (inorder l). key (snd e) < key d" "\<forall>e\<in>set (inorder rt). key d < key (snd e)"
    using sorted by simp_all
  let ?P = "\<lambda>e. key (snd e) = key x"
  consider (eq) "key x = key d" | (less) "key x < key d" | (greater) "key d < key x" by fastforce
  then show ?case
  proof cases
    case eq
    then have "\<forall>e\<in>set (inorder l). \<not> ?P e" using near by force
    then show ?thesis
      using cmp eq RNode.prems by (subst find_walk.simps) (simp add: ravl_data_def ravl_predicate_holds_def)
  next
    case less
    then have "\<forall>e\<in>set ((a, d) # inorder rt). \<not> ?P e" using near by force
    then have "List.find ?P ((a, d) # inorder rt) = None" unfolding find_None_iff by auto
    then have "first_such ?P (inorder l @ (a, d) # inorder rt) = first_such ?P (inorder l)"
      by (auto simp: first_such_def find_append split: option.split)
    then show ?thesis
      using cmp less RNode.prems RNode.IH(1) [of "Some a"] sorted
      by (subst find_walk.simps) (simp add: ravl_data_def ravl_predicate_holds_def)
  next
    case greater
    then have "\<forall>e\<in>set (inorder l @ [(a, d)]). \<not> ?P e" using near by force
    then have "first_such ?P ((inorder l @ [(a, d)]) @ inorder rt) = first_such ?P (inorder rt)"
      by (rule first_such_skip)
    then show ?thesis
      using cmp greater RNode.prems RNode.IH(2) [of "Some a"] sorted
      by (subst find_walk.simps) (simp add: ravl_data_def ravl_predicate_holds_def)
  qed
qed

section \<open>Removal\<close>

lemma splice_rep:
  assumes rep: "ravl_rep r (plug c (RNode l a k b d rt))" and one: "l = RLeaf \<or> rt = RLeaf"
  defines "x \<equiv> (if l = RLeaf then rt else l)"
  shows "\<exists>r'. ravl_remove r a = Some r' \<and> same_params r r' \<and> ravl_rep r' (plug c x)"
proof -
  note R = rep [unfolded ravl_rep_plug, simplified]
  have x: "rep (ravl_nodes r) (Some a) x" "addrs x = addrs l \<union> addrs rt" "dtree x" "a \<notin> addrs x"
    "addrs x \<inter> caddrs c = {}" "a \<notin> caddrs c"
    using R one by (auto simp: x_def)
  let ?h = "reparent x (top_of c) (ravl_nodes r)"
  have ref: "ravl_node_ref (r\<lparr>ravl_nodes := ?h\<rparr>) a = Some (ctxt_loc c)"
    using R x by (intro node_ref_plug) auto
  have store: "store_loc (ctxt_loc c) (root_of x) (r\<lparr>ravl_nodes := ?h\<rparr>) =
      Some (r\<lparr>ravl_root := (if c = [] then root_of x else ravl_root r),
              ravl_nodes := ctxt_store c (root_of x) ?h\<rparr>)"
    using R x by (subst store_ctxt_loc [where x = "Some a"]) auto
  let ?r = "r\<lparr>ravl_root := (if c = [] then root_of x else ravl_root r),
              ravl_nodes := (ctxt_store c (root_of x) ?h)(a := None)\<rparr>"
  have child: "(if root_of l \<noteq> None then root_of l else root_of rt) = root_of x"
    "\<not> (root_of l \<noteq> None \<and> root_of rt \<noteq> None)"
    using one by (auto simp: x_def)
  have node: "ravl_nodes r a = Some \<lparr>rn_parent = top_of c, rn_left = root_of l, rn_right = root_of rt,
      rn_rank = k, rn_pointer_based = b, rn_data = d\<rparr>"
    using R by simp
  have remove: "ravl_remove r a = Some ?r"
    using child(2) ref store upd_reparent [OF x(1), of "top_of c"]
    by (subst ravl_remove.simps)
       (simp only: node bind.bind_lunit slots_simps ravl_node.simps child(1) Let_def if_not_P option.case, simp)
  have dom: "dom (ravl_nodes ?r) = addrs x \<union> caddrs c" using R x by auto
  have "repc (ctxt_store c (root_of x) ?h) c (root_of x)"
    using R x by (intro repc_ctxt_store [where x = "Some a"]) auto
  moreover have "rep (ctxt_store c (root_of x) ?h) (top_of c) x"
    using x by (simp add: rep_reparent [where p = "Some a"])
  ultimately have "ravl_rep ?r (plug c x)"
    using R x dom by (simp add: ravl_rep_plug root_of_plug_Cons)
  then show ?thesis using remove by auto
qed

lemma plug_append: "plug (c' @ c) t = plug c (plug c' t)"
  by (induction c' t rule: plug.induct) simp_all

lemma lefts_append: "lefts (c' @ c) = lefts c @ lefts c'"
  by (induction c' rule: lefts.induct) auto

lemma rights_append: "rights (c' @ c) = rights c' @ rights c"
  by (induction c' rule: rights.induct) auto

lemma leftmost_split:
  assumes "t \<noteq> RLeaf"
  obtains c s k b d rs where "t = plug c (RNode RLeaf s k b d rs)" "lefts c = []"
proof -
  have "\<exists>c' s k b d rs. plug c t = plug c' (RNode RLeaf s k b d rs) \<and> lefts c' = []"
    if "lefts c = []" for c
    using assms that
  proof (induction t arbitrary: c)
    case (RNode l a k b d r)
    then show ?case
      by (cases l) (force, use RNode.IH(1) [of "LFrame a k b d r # c"] in auto)
  qed simp
  from this [of "[]"] that show thesis by auto
qed

definition removed_at :: "ptr \<Rightarrow> (ptr \<times> 'd) list \<Rightarrow> (ptr \<times> 'd) list \<Rightarrow> (ptr \<times> 'd) list \<Rightarrow> bool" where
  "removed_at a xs ys es \<longleftrightarrow>
     es = xs @ ys \<or> (\<exists>s d ys'. ys = (s, d) # ys' \<and> es = xs @ (a, d) # ys')"

lemma removed_at_snd: "removed_at a xs ys es \<Longrightarrow> map snd es = map snd (xs @ ys)"
  by (auto simp: removed_at_def)

lemma removed_at_fst: "removed_at a xs ys es \<Longrightarrow> fst ` set es \<subseteq> insert a (fst ` set (xs @ ys))"
  by (auto simp: removed_at_def)

lemma remove_rep:
  assumes rep: "ravl_rep r (plug c (RNode l a k b d rt))" and rule: "rank_rule (plug c (RNode l a k b d rt))"
  shows "\<exists>r' t'. ravl_remove r a = Some r' \<and> same_params r r' \<and> ravl_rep r' t' \<and> rank_rule t' \<and>
           removed_at a (lefts c @ inorder l) (inorder rt @ rights c) (inorder t')"
proof (cases "l = RLeaf \<or> rt = RLeaf")
  case True
  let ?x = "if l = RLeaf then rt else l"
  have "rank_rule (plug c ?x)"
    using rule True by (auto simp: rank_rule_plug intro: crule_mono)
  moreover have "inorder (plug c ?x) = (lefts c @ inorder l) @ inorder rt @ rights c"
    using True by auto
  ultimately show ?thesis
    using splice_rep [OF rep True] unfolding removed_at_def by blast
next
  case False
  then obtain c' s ks bs ds rs where rt: "rt = plug c' (RNode RLeaf s ks bs ds rs)" and c': "lefts c' = []"
    using leftmost_split by blast
  let ?c = "c' @ RFrame l a k b d # c" and ?c2 = "c' @ RFrame l a k b ds # c"
  have rt_io: "inorder rt = (s, ds) # inorder rs @ rights c'" using rt c' by simp
  have n: "ravl_nodes r a = Some \<lparr>rn_parent = top_of c, rn_left = root_of l, rn_right = root_of rt,
      rn_rank = k, rn_pointer_based = b, rn_data = d\<rparr>"
    using rep by (auto simp: ravl_rep_def dest: rep_plug_node)
  have succ: "ravl_node_successor (ravl_nodes r) a = Some (Some s)"
    using rep by (subst successor_plug) (auto simp: ravl_rep_def rt_io)
  have rep': "ravl_rep r (plug ?c (RNode RLeaf s ks bs ds rs))"
    using rep rt by (simp add: plug_append)
  have sd: "\<exists>sd. ravl_nodes r s = Some sd \<and> rn_data sd = ds"
    using rep' by (auto simp: ravl_rep_def dest: rep_plug_node)
  obtain r1 where r1: "upd_node (\<lambda>x. x\<lparr>rn_data := ds\<rparr>) a r = Some r1" "same_params r r1"
    "ravl_rep r1 (plug c (RNode l a k b ds rt))"
    using upd_node_rep [OF rep, of "\<lambda>x. x\<lparr>rn_data := ds\<rparr>" k ds] by auto
  have "ravl_rep r1 (plug ?c2 (RNode RLeaf s ks bs ds rs))"
    using r1(3) rt by (simp add: plug_append)
  from splice_rep [OF this] obtain r' where r': "ravl_remove r1 s = Some r'" "same_params r1 r'"
    "ravl_rep r' (plug ?c2 rs)" by auto
  have remove: "ravl_remove r a = Some r'"
    using n succ sd r1 r' False by (subst ravl_remove.simps) auto
  have "rank_rule (plug c (RNode l a k b ds rt))" using rule by (simp add: rank_rule_plug)
  then have "rank_rule (plug ?c2 (RNode RLeaf s ks bs ds rs))"
    using rt by (simp add: plug_append)
  then have "rank_rule (plug ?c2 rs)"
    unfolding rank_rule_plug by (auto intro: crule_mono)
  moreover have "inorder (plug ?c2 rs) = (lefts c @ inorder l) @ (a, ds) # inorder rs @ rights c' @ rights c"
    using c' by (simp add: lefts_append rights_append)
  ultimately show ?thesis
    using remove r1 r' rt_io unfolding removed_at_def
    by (intro exI [of _ r'] exI [of _ "plug ?c2 rs"]) (auto intro: same_params_trans)
qed

section \<open>Traversal\<close>

fun fold_cb :: "('d \<Rightarrow> 's \<Rightarrow> 's option) \<Rightarrow> 'd list \<Rightarrow> 's \<Rightarrow> 's option" where
  "fold_cb f [] s = Some s"
| "fold_cb f (x # xs) s = do { s' \<leftarrow> f x s; fold_cb f xs s' }"

lemma fold_cb_append: "fold_cb f (xs @ ys) s = do { s' \<leftarrow> fold_cb f xs s; fold_cb f ys s' }"
  by (induction xs arbitrary: s) (auto split: Option.bind_split)

lemma foreach_keep:
  "rep h p t \<Longrightarrow> ravl_foreach_node h (root_of t) (Some f) s False =
     map_option (Pair h) (fold_cb f (map snd (inorder t)) s)"
proof (induction t arbitrary: p s)
  case RLeaf
  then show ?case by (subst ravl_foreach_node.simps) simp
next
  case (RNode l a k b d r)
  then show ?case
    by (subst ravl_foreach_node.simps)
       (auto simp: fold_cb_append RNode.IH [of "Some a"] split: Option.bind_split)
qed

lemma foreach_free:
  "rep h p t \<Longrightarrow> dtree t \<Longrightarrow> ravl_foreach_node h (root_of t) None s True = Some (h |` (- addrs t), s)"
proof (induction t arbitrary: h p s)
  case RLeaf
  then show ?case by (subst ravl_foreach_node.simps) (simp add: restrict_map_def)
next
  case (RNode l a k b d r)
  have "rep (h |` (- addrs l)) (Some a) r = rep h (Some a) r"
    using RNode.prems by (intro rep_cong) (auto simp: restrict_map_def)
  then show ?case
    using RNode.prems RNode.IH(1) [of h "Some a" s] RNode.IH(2) [of "h |` (- addrs l)" "Some a" s]
    by (subst ravl_foreach_node.simps) (auto simp: restrict_map_def fun_eq_iff)
qed

section \<open>The interface of an ordered index\<close>

text \<open>
  \<open>idx r es\<close>: the structure \<open>r\<close> holds the entries \<open>es\<close> in increasing order of their
  keys. An insertion may fail for lack of host memory; it then leaves the structure as
  it was. Removing a node may move the data of its successor into it.
\<close>

definition fresh_in :: "host \<Rightarrow> (ptr \<times> 'd) list \<Rightarrow> bool" where
  "fresh_in s es \<longleftrightarrow> (\<forall>e\<in>set es. fst e < next_id s)"

locale ordered_index =
  fixes idx :: "'t \<Rightarrow> (ptr \<times> 'd) list \<Rightarrow> bool"
    and key :: "'d \<Rightarrow> 'k::linorder"
    and data_at :: "'t \<Rightarrow> ptr \<Rightarrow> 'd option"
    and find :: "'t \<Rightarrow> 'd \<Rightarrow> ravl_predicate \<Rightarrow> ref option"
    and succ :: "'t \<Rightarrow> ptr \<Rightarrow> ref option"
    and pred :: "'t \<Rightarrow> ptr \<Rightarrow> ref option"
    and ins :: "'t \<Rightarrow> 'd \<Rightarrow> host \<Rightarrow> (int \<times> 't \<times> host) option"
    and rm :: "'t \<Rightarrow> ptr \<Rightarrow> 't option"
  assumes idx_sorted: "idx r es \<Longrightarrow> sorted_keys key es"
    and idx_distinct: "idx r es \<Longrightarrow> distinct (map fst es)"
    and idx_data: "idx r es \<Longrightarrow> data_at r a = map_of es a"
    and idx_find_equal: "idx r es \<Longrightarrow>
      find r x RAVL_PREDICATE_EQUAL = Some (first_such (\<lambda>e. key (snd e) = key x) es)"
    and idx_find_ge: "idx r es \<Longrightarrow>
      find r x RAVL_PREDICATE_GREATER_EQUAL = Some (first_such (\<lambda>e. key x \<le> key (snd e)) es)"
    and idx_find_le: "idx r es \<Longrightarrow>
      find r x RAVL_PREDICATE_LESS_EQUAL = Some (last_such (\<lambda>e. key (snd e) \<le> key x) es)"
    and idx_succ: "idx r (xs @ (a, d) # ys) \<Longrightarrow> succ r a = Some (head_ref ys)"
    and idx_pred: "idx r (xs @ (a, d) # ys) \<Longrightarrow> pred r a = Some (last_ref xs)"
    and idx_ins_oom: "ba_global_alloc s = (None, s') \<Longrightarrow> ins r d s = Some (-1, r, s')"
    and idx_ins_dup: "idx r es \<Longrightarrow> fresh_in s es \<Longrightarrow> ba_global_alloc s = (Some a, s') \<Longrightarrow>
      \<exists>e\<in>set es. key (snd e) = key d \<Longrightarrow> ins r d s = Some (-1, r, s')"
    and idx_ins: "idx r (xs @ ys) \<Longrightarrow> fresh_in s (xs @ ys) \<Longrightarrow> ba_global_alloc s = (Some a, s') \<Longrightarrow>
      \<forall>e\<in>set xs. key (snd e) < key d \<Longrightarrow> \<forall>e\<in>set ys. key d < key (snd e) \<Longrightarrow>
      \<exists>r'. ins r d s = Some (0, r', s') \<and> idx r' (xs @ (a, d) # ys)"
    and idx_rm: "idx r (xs @ (a, d) # ys) \<Longrightarrow>
      \<exists>r' es. rm r a = Some r' \<and> idx r' es \<and> removed_at a xs ys es"
begin

lemma data_at_mid: "idx r (xs @ (a, d) # ys) \<Longrightarrow> data_at r a = Some d"
  using map_of_is_SomeI [OF idx_distinct, of r "xs @ (a, d) # ys" a d] idx_data by simp

lemma find_equal_mid:
  assumes "idx r (xs @ (a, d) # ys)" "key d = key x"
  shows "find r x RAVL_PREDICATE_EQUAL = Some (Some a)"
proof -
  have "\<forall>e\<in>set xs. key (snd e) \<noteq> key x"
    using idx_sorted [OF assms(1)] assms(2) by (auto simp: sorted_keys_append sorted_keys_Cons)
  then show ?thesis using idx_find_equal [OF assms(1), of x] assms(2) by simp
qed

lemma find_equal_none:
  assumes "idx r es" "\<forall>e\<in>set es. key (snd e) \<noteq> key x"
  shows "find r x RAVL_PREDICATE_EQUAL = Some None"
  using idx_find_equal [OF assms(1), of x] first_such_skip [OF assms(2), of "[]"] by simp

lemma find_equal_cases:
  assumes "idx r es"
  obtains (none) "find r x RAVL_PREDICATE_EQUAL = Some None" "\<forall>e\<in>set es. key (snd e) \<noteq> key x"
  | (some) xs a d ys where "es = xs @ (a, d) # ys" "key d = key x"
      "find r x RAVL_PREDICATE_EQUAL = Some (Some a)"
proof (cases "\<forall>e\<in>set es. key (snd e) \<noteq> key x")
  case True
  then show thesis using find_equal_none [OF assms] none by blast
next
  case False
  then obtain e where "e \<in> set es" "key (snd e) = key x" by blast
  then obtain xs ys where "es = xs @ (fst e, snd e) # ys" using split_list by fastforce
  then show thesis using some find_equal_mid assms \<open>key (snd e) = key x\<close> by blast
qed

lemma find_ge_split:
  assumes "idx r (xs @ ys)" "\<forall>e\<in>set xs. key (snd e) < key x" "\<forall>e\<in>set ys. key x \<le> key (snd e)"
  shows "find r x RAVL_PREDICATE_GREATER_EQUAL = Some (head_ref ys)"
proof -
  have "\<forall>e\<in>set xs. \<not> key x \<le> key (snd e)" using assms(2) by auto
  then show ?thesis using idx_find_ge [OF assms(1), of x] assms(3) by (simp add: first_such_head)
qed

lemma find_le_split:
  assumes "idx r (xs @ ys)" "\<forall>e\<in>set xs. key (snd e) \<le> key x" "\<forall>e\<in>set ys. key x < key (snd e)"
  shows "find r x RAVL_PREDICATE_LESS_EQUAL = Some (last_ref xs)"
proof -
  have "\<forall>e\<in>set ys. \<not> key (snd e) \<le> key x" using assms(3) by auto
  then show ?thesis using idx_find_le [OF assms(1), of x] assms(2) by (simp add: last_such_last)
qed

lemma rm_then_absent:
  assumes "idx r (xs @ (a, d) # ys)"
  shows "\<exists>r'. rm r a = Some r' \<and> find r' d RAVL_PREDICATE_EQUAL = Some None"
proof -
  obtain r' es where r': "rm r a = Some r'" "idx r' es" "removed_at a xs ys es"
    using idx_rm [OF assms] by blast
  have "\<forall>k\<in>set (map snd (xs @ ys)). key k \<noteq> key d"
    using idx_sorted [OF assms] by (auto simp: sorted_keys_append sorted_keys_Cons)
  then have "\<forall>k\<in>set (map snd es). key k \<noteq> key d" by (simp only: removed_at_snd [OF r'(3)])
  then have "\<forall>e\<in>set es. key (snd e) \<noteq> key d" by simp
  then show ?thesis using r' find_equal_none by blast
qed

lemma ins_then_found:
  assumes "idx r (xs @ ys)" "fresh_in s (xs @ ys)" "ba_global_alloc s = (Some a, s')"
    "\<forall>e\<in>set xs. key (snd e) < key d" "\<forall>e\<in>set ys. key d < key (snd e)"
  shows "\<exists>r'. ins r d s = Some (0, r', s') \<and> find r' d RAVL_PREDICATE_EQUAL = Some (Some a) \<and>
              data_at r' a = Some d"
  using idx_ins [OF assms] find_equal_mid data_at_mid by blast

end

section \<open>The tree as an ordered index\<close>

definition ravl_index :: "('d \<Rightarrow> 'k::linorder) \<Rightarrow> 'd ravl \<Rightarrow> (ptr \<times> 'd) list \<Rightarrow> bool" where
  "ravl_index key r es \<longleftrightarrow>
     cmp_by key (ravl_compare r) \<and> sorted_keys key es \<and>
     (\<exists>t. ravl_rep r t \<and> rank_rule t \<and> inorder t = es)"

lemma ravl_indexE:
  assumes "ravl_index key r es"
  obtains t where "cmp_by key (ravl_compare r)" "sorted_keys key es" "ravl_rep r t" "rank_rule t"
    "inorder t = es"
  using assms by (auto simp: ravl_index_def)

lemma plug_at_entry:
  assumes "inorder t = xs @ (a, d) # ys" "dtree t"
  obtains c l k b rt where "t = plug c (RNode l a k b d rt)" "lefts c @ inorder l = xs" "inorder rt @ rights c = ys"
proof -
  have "a \<in> addrs t" using assms(1) set_inorder [of t] by force
  then obtain c l k b d' rt where t: "t = plug c (RNode l a k b d' rt)" by (rule split_at_addr)
  have "distinct (map fst (xs @ (a, d) # ys))" using assms dtree_distinct by metis
  moreover have "(lefts c @ inorder l) @ (a, d') # inorder rt @ rights c = xs @ (a, d) # ys"
    using assms(1) t by simp
  ultimately have "lefts c @ inorder l = xs \<and> d' = d \<and> inorder rt @ rights c = ys"
    by (auto simp: append_eq_append_conv2 append_eq_Cons_conv Cons_eq_append_conv)
  then show thesis using that t by blast
qed

lemma index_distinct: "ravl_index key r es \<Longrightarrow> distinct (map fst es)"
  by (auto elim!: ravl_indexE simp: ravl_rep_def dtree_distinct)

lemma index_foreach:
  assumes "ravl_index key r es"
  shows "ravl_foreach r cb s = fold_cb cb (map snd es) s"
proof -
  obtain t where "ravl_rep r t" "inorder t = es" using assms by (auto simp: ravl_index_def)
  then have "ravl_foreach_node (ravl_nodes r) (ravl_root r) (Some cb) s False =
      map_option (Pair (ravl_nodes r)) (fold_cb cb (map snd es) s)"
    using foreach_keep [of "ravl_nodes r" None t cb s] by (simp add: ravl_rep_def)
  then show ?thesis by (cases "fold_cb cb (map snd es) s") (simp_all add: ravl_foreach_def)
qed

lemma index_delete:
  assumes "ravl_index key r es"
  shows "ravl_delete r = Some (Map.empty, ())"
proof -
  obtain t where t: "ravl_rep r t" using assms by (auto simp: ravl_index_def)
  then have "ravl_nodes r |` (- addrs t) = Map.empty"
    by (auto simp: ravl_rep_def restrict_map_def fun_eq_iff dom_def)
  then show ?thesis
    using foreach_free [of "ravl_nodes r" None t "()"] t by (simp add: ravl_delete_def ravl_delete_cb_def ravl_rep_def)
qed

lemma index_dom: "ravl_index key r es \<Longrightarrow> dom (ravl_nodes r) = fst ` set es"
  by (elim ravl_indexE) (simp add: ravl_rep_def set_inorder [symmetric])

lemma rep_data: "rep h p t \<Longrightarrow> dtree t \<Longrightarrow> a \<in> addrs t \<Longrightarrow> map_option ravl_data (h a) = map_of (inorder t) a"
proof -
  assume rep: "rep h p t" and "dtree t" and "a \<in> addrs t"
  have "(a, d) \<in> set (inorder t) \<Longrightarrow> map_option ravl_data (h a) = Some d" for d
    using rep by (induction t arbitrary: p) (auto simp: ravl_data_def)
  moreover obtain d where "(a, d) \<in> set (inorder t)" using \<open>a \<in> addrs t\<close> set_inorder [of t] by force
  ultimately show ?thesis using \<open>dtree t\<close> by (simp add: dtree_distinct)
qed

lemma index_data: "ravl_index key r es \<Longrightarrow> map_option ravl_data (ravl_nodes r a) = map_of es a"
proof (elim ravl_indexE)
  fix t assume t: "ravl_rep r t" "inorder t = es"
  show ?thesis
  proof (cases "a \<in> addrs t")
    case True
    then show ?thesis using t rep_data by (auto simp: ravl_rep_def)
  next
    case False
    then have "ravl_nodes r a = None" "map_of es a = None"
      using t set_inorder [of t] by (auto simp: ravl_rep_def map_of_eq_None_iff)
    then show ?thesis by simp
  qed
qed

lemma index_find_equal:
  "ravl_index key r es \<Longrightarrow>
   ravl_find r x RAVL_PREDICATE_EQUAL = Some (first_such (\<lambda>e. key (snd e) = key x) es)"
  by (elim ravl_indexE) (auto simp: ravl_find_def ravl_rep_def find_walk_equal)

lemma index_find_ge:
  "ravl_index key r es \<Longrightarrow>
   ravl_find r x RAVL_PREDICATE_GREATER_EQUAL = Some (first_such (\<lambda>e. key x \<le> key (snd e)) es)"
  using find_walk_greater [of key r "[]" _ x RAVL_PREDICATE_GREATER_EQUAL True]
  by (elim ravl_indexE) (auto simp: ravl_find_def ravl_rep_def le_less eq_commute [of "key x"])

lemma index_find_greater:
  "ravl_index key r es \<Longrightarrow>
   ravl_find r x RAVL_PREDICATE_GREATER = Some (first_such (\<lambda>e. key x < key (snd e)) es)"
  using find_walk_greater [of key r "[]" _ x RAVL_PREDICATE_GREATER False]
  by (elim ravl_indexE) (auto simp: ravl_find_def ravl_rep_def)

lemma index_find_le:
  "ravl_index key r es \<Longrightarrow>
   ravl_find r x RAVL_PREDICATE_LESS_EQUAL = Some (last_such (\<lambda>e. key (snd e) \<le> key x) es)"
  using find_walk_less [of key r "[]" _ x RAVL_PREDICATE_LESS_EQUAL True]
  by (elim ravl_indexE) (auto simp: ravl_find_def ravl_rep_def le_less)

lemma index_find_less:
  "ravl_index key r es \<Longrightarrow>
   ravl_find r x RAVL_PREDICATE_LESS = Some (last_such (\<lambda>e. key (snd e) < key x) es)"
  using find_walk_less [of key r "[]" _ x RAVL_PREDICATE_LESS False]
  by (elim ravl_indexE) (auto simp: ravl_find_def ravl_rep_def)

lemma index_succ: "ravl_index key r (xs @ (a, d) # ys) \<Longrightarrow> ravl_node_successor (ravl_nodes r) a = Some (head_ref ys)"
  by (elim ravl_indexE plug_at_entry) (auto simp: ravl_rep_def successor_plug)

lemma index_pred: "ravl_index key r (xs @ (a, d) # ys) \<Longrightarrow> ravl_node_predecessor (ravl_nodes r) a = Some (last_ref xs)"
  by (elim ravl_indexE plug_at_entry) (auto simp: ravl_rep_def predecessor_plug)

lemma index_rm:
  assumes "ravl_index key r (xs @ (a, d) # ys)"
  shows "\<exists>r' es. ravl_remove r a = Some r' \<and> ravl_index key r' es \<and> removed_at a xs ys es"
proof -
  obtain t where t: "cmp_by key (ravl_compare r)" "sorted_keys key (xs @ (a, d) # ys)" "ravl_rep r t"
    "rank_rule t" "inorder t = xs @ (a, d) # ys"
    using assms by (rule ravl_indexE)
  then obtain c l k b rt where p: "t = plug c (RNode l a k b d rt)" "lefts c @ inorder l = xs"
    "inorder rt @ rights c = ys"
    using plug_at_entry by (metis ravl_rep_def)
  obtain r' t' where r': "ravl_remove r a = Some r'" "same_params r r'" "ravl_rep r' t'" "rank_rule t'"
    "removed_at a xs ys (inorder t')"
    using remove_rep t(3,4) p by metis
  have "sorted_keys key (xs @ ys)" using t(2) by (auto simp: sorted_keys_append sorted_keys_Cons)
  then have "sorted_keys key (inorder t')"
    using arg_cong [OF removed_at_snd [OF r'(5)], of "map key"] by (simp add: sorted_keys_def comp_def)
  then show ?thesis using r' t(1) by (auto simp: ravl_index_def same_params_def)
qed

lemma descend_cases:
  assumes "cmp_by key cmp" "sorted_keys key (inorder (plug c t))"
    and "\<forall>e\<in>set (lefts c). key (snd e) < key x" "\<forall>e\<in>set (rights c). key x < key (snd e)"
  shows "case descend cmp x c t of
      None \<Rightarrow> \<exists>e\<in>set (inorder t). key (snd e) = key x
    | Some c' \<Rightarrow> (\<forall>e\<in>set (lefts c'). key (snd e) < key x) \<and> (\<forall>e\<in>set (rights c'). key x < key (snd e))"
  using assms(2-)
proof (induction t arbitrary: c)
  case RLeaf
  then show ?case by simp
next
  case (RNode l a k b d rt)
  note cmp = cmp_byD [OF assms(1), of x d]
  have near: "\<forall>e\<in>set (inorder l). key (snd e) < key d" "\<forall>e\<in>set (inorder rt). key d < key (snd e)"
    using RNode.prems(1) by (simp_all add: sorted_keys_append sorted_keys_Cons)
  consider (eq) "key x = key d" | (less) "key x < key d" | (greater) "key d < key x" by fastforce
  then show ?case
  proof cases
    case eq
    then show ?thesis using cmp by simp
  next
    case less
    then have "\<forall>e\<in>set (rights (LFrame a k b d rt # c)). key x < key (snd e)"
      using near RNode.prems(3) by (simp add: ball_Un) (meson less_trans)
    then show ?thesis
      using RNode.IH(1) [of "LFrame a k b d rt # c"] RNode.prems cmp less by (auto split: option.splits)
  next
    case greater
    then have "\<forall>e\<in>set (lefts (RFrame l a k b d # c)). key (snd e) < key x"
      using near RNode.prems(2) by (simp add: ball_Un) (meson less_trans)
    then show ?thesis
      using RNode.IH(2) [of "RFrame l a k b d # c"] RNode.prems cmp greater by (auto split: option.splits)
  qed
qed

lemma index_ins_oom: "ba_global_alloc s = (None, s') \<Longrightarrow> ravl_emplace r constr d s = Some (-1, r, s')"
  by (simp add: ravl_emplace_def ravl_new_node_def)

lemma ba_global_alloc_Some:
  "ba_global_alloc s = (Some a, s') \<Longrightarrow> a = next_id s \<and> next_id s' = Suc (next_id s)"
  by (cases rule: ba_global_alloc_cases [of s]) auto

lemma fresh_in_addrs: "fresh_in s (inorder t) \<Longrightarrow> next_id s \<notin> addrs t"
  by (auto simp: fresh_in_def set_inorder [symmetric])

lemma index_ins_dup:
  assumes "ravl_index key r es" "fresh_in s es" "ba_global_alloc s = (Some a, s')"
    "\<exists>e\<in>set es. key (snd e) = key d"
  shows "ravl_emplace r constr d s = Some (-1, r, s')"
proof -
  obtain t where t: "cmp_by key (ravl_compare r)" "sorted_keys key es" "ravl_rep r t" "rank_rule t"
    "inorder t = es" using assms(1) by (rule ravl_indexE)
  have "next_id s \<notin> addrs t" using assms(2) t(5) fresh_in_addrs by blast
  moreover have "ba_global_alloc s = (Some (next_id s), s')" using assms(3) ba_global_alloc_Some by metis
  moreover have "descend (ravl_compare r) d [] t = None"
  proof (cases "descend (ravl_compare r) d [] t")
    case (Some c)
    then have "lefts c @ rights c = es" using descend_plug t(5) inorder_plug [of c RLeaf] by fastforce
    then show ?thesis
      using descend_cases [of key "ravl_compare r" "[]" t d] t Some assms(4) by fastforce
  qed
  ultimately show ?thesis using emplace_rep [OF t(3,4), where d = d and constr = constr and s = s and s' = s'] by simp
qed

lemma sorted_split_unique:
  assumes "xs @ ys = us @ vs" "\<forall>e\<in>set xs. P e" "\<forall>e\<in>set us. P e" "\<forall>e\<in>set ys. \<not> P e" "\<forall>e\<in>set vs. \<not> P e"
  shows "xs = us \<and> ys = vs"
proof -
  have "takeWhile P ys = []" "takeWhile P vs = []"
    using assms by (cases ys; cases vs; simp)+
  then have "takeWhile P (xs @ ys) = xs" "takeWhile P (us @ vs) = us"
    using assms(2,3) by simp_all
  then show ?thesis using assms(1) by auto
qed

lemma index_ins:
  assumes "ravl_index key r (xs @ ys)" "fresh_in s (xs @ ys)" "ba_global_alloc s = (Some a, s')"
    and lt: "\<forall>e\<in>set xs. key (snd e) < key d" and gt: "\<forall>e\<in>set ys. key d < key (snd e)"
  shows "\<exists>r'. ravl_emplace r constr d s = Some (0, r', s') \<and> ravl_index key r' (xs @ (a, d) # ys)"
proof -
  obtain t where t: "cmp_by key (ravl_compare r)" "sorted_keys key (xs @ ys)" "ravl_rep r t" "rank_rule t"
    "inorder t = xs @ ys" using assms(1) by (rule ravl_indexE)
  have a: "a = next_id s" using assms(3) ba_global_alloc_Some by blast
  have fresh: "next_id s \<notin> addrs t" using assms(2) t(5) fresh_in_addrs by metis
  note pos = descend_cases [of key "ravl_compare r" "[]" t d]
  have ne: "\<forall>e\<in>set (xs @ ys). key (snd e) \<noteq> key d"
    using lt gt by (simp add: ball_Un) (metis less_irrefl)
  then obtain c where c: "descend (ravl_compare r) d [] t = Some c"
    using pos t by (cases "descend (ravl_compare r) d [] t") auto
  have side: "\<forall>e\<in>set (lefts c). key (snd e) < key d" "\<forall>e\<in>set (rights c). key d < key (snd e)"
    using pos t c by auto
  have "lefts c @ rights c = xs @ ys" using descend_plug [OF c] t(5) inorder_plug [of c RLeaf] by simp
  moreover have "\<forall>e\<in>set ys. \<not> key (snd e) < key d" "\<forall>e\<in>set (rights c). \<not> key (snd e) < key d"
    using gt side by (meson less_asym)+
  ultimately have split: "lefts c = xs" "rights c = ys"
    using sorted_split_unique [of "lefts c" "rights c" xs ys "\<lambda>e. key (snd e) < key d"] lt side
    by blast+
  obtain r' where r': "ravl_emplace r constr d s = Some (0, r', s')" "balanced_as r r' (xs @ (a, d) # ys)"
    using emplace_rep [OF t(3,4) fresh, where d = d and constr = constr and s' = s'] assms(3) a c split by auto
  have "sorted_keys key (xs @ (a, d) # ys)"
    using t(2) lt gt by (simp add: sorted_keys_append sorted_keys_Cons)
  then show ?thesis using r' t(1) by (auto simp: ravl_index_def balanced_as_def same_params_def)
qed

interpretation ravl_ix: ordered_index "ravl_index key" key "\<lambda>r a. map_option ravl_data (ravl_nodes r a)"
    ravl_find "\<lambda>r. ravl_node_successor (ravl_nodes r)" "\<lambda>r. ravl_node_predecessor (ravl_nodes r)"
    ravl_emplace_copy ravl_remove for key :: "'d \<Rightarrow> 'k::linorder"
proof unfold_locales
  show "ravl_index key r es \<Longrightarrow> sorted_keys key es" for r es by (simp add: ravl_index_def)
  show "\<exists>r' es. ravl_remove r a = Some r' \<and> ravl_index key r' es \<and> removed_at a xs ys es"
    if "ravl_index key r (xs @ (a, d) # ys)" for r xs a d ys using that by (rule index_rm)
qed (simp_all add: index_distinct index_data index_find_equal index_find_ge index_find_le index_succ
      index_pred ravl_emplace_copy_def index_ins_oom index_ins_dup index_ins)

section \<open>Properties of the tree\<close>

text \<open>A tree of three nodes, at which the properties below are evaluated.\<close>

definition three_nodes :: "int ravl" where
  "three_nodes =
     \<lparr>ravl_root = Some 2, ravl_compare = (\<lambda>x y. x - y), ravl_data_size = 8,
      ravl_nodes = [2 \<mapsto> \<lparr>rn_parent = None, rn_left = Some 1, rn_right = Some 3, rn_rank = 1,
                         rn_pointer_based = False, rn_data = 20\<rparr>,
                    1 \<mapsto> \<lparr>rn_parent = Some 2, rn_left = None, rn_right = None, rn_rank = 0,
                         rn_pointer_based = False, rn_data = 10\<rparr>,
                    3 \<mapsto> \<lparr>rn_parent = Some 2, rn_left = None, rn_right = None, rn_rank = 0,
                         rn_pointer_based = False, rn_data = 30\<rparr>]\<rparr>"

lemma three_nodes_index: "ravl_index id three_nodes [(1, 10), (2, 20), (3, 30)]"
  unfolding ravl_index_def
  by (intro conjI exI [of _ "RNode (RNode RLeaf 1 0 False 10 RLeaf) 2 1 False 20 (RNode RLeaf 3 0 False 30 RLeaf)"])
     (auto simp: three_nodes_def cmp_by_def sorted_keys_def ravl_rep_def)

text \<open>
  C9. Inserting a key that is not present, when the host has memory, returns 0 and yields
  a tree that holds exactly one more entry, at its place in the order. The result obeys
  the rank rule again (part of \<open>ravl_index\<close>), so \<open>ravl_balance\<close> restores the invariant,
  and no pointer of the walk, of the rotations or of the promotions dangles.
\<close>

theorem ravl_emplace_inserts:
  assumes "ravl_index key r (xs @ ys)" "fresh_in s (xs @ ys)" "ba_global_alloc s = (Some a, s')"
    and "\<forall>e\<in>set xs. key (snd e) < key d" "\<forall>e\<in>set ys. key d < key (snd e)"
  shows "\<exists>r'. ravl_emplace r constr d s = Some (0, r', s') \<and> ravl_index key r' (xs @ (a, d) # ys)"
  using assms by (rule index_ins)

theorem ravl_emplace_inserts_witness:
  "\<exists>r'. ravl_emplace three_nodes ravl_node_copy_constructor 15 \<lparr>next_id = 7, oom = [], lock_fail = []\<rparr> =
          Some (0, r', \<lparr>next_id = 8, oom = [], lock_fail = []\<rparr>) \<and>
        ravl_index id r' [(1, 10), (7, 15), (2, 20), (3, 30)]"
  using ravl_emplace_inserts [of id three_nodes "[(1, 10)]" "[(2, 20), (3, 30)]"
      "\<lparr>next_id = 7, oom = [], lock_fail = []\<rparr>" 7 "\<lparr>next_id = 8, oom = [], lock_fail = []\<rparr>" 15
      ravl_node_copy_constructor] three_nodes_index
  by (simp add: fresh_in_def ba_global_alloc_def)

text \<open>
  C15. An insertion that is refused, because the key is present or because the host is out
  of memory, returns -1 and leaves the tree as it was; the node allocated for a duplicate
  is released.
\<close>

theorem ravl_emplace_refuses:
  assumes "ravl_index key r es" "fresh_in s es" "ba_global_alloc s = (al, s')"
    and "al = None \<or> (\<exists>e\<in>set es. key (snd e) = key d)"
  shows "ravl_emplace r constr d s = Some (-1, r, s')"
proof (cases al)
  case None
  then show ?thesis using assms(3) by (simp add: index_ins_oom)
next
  case (Some a)
  then show ?thesis using index_ins_dup [OF assms(1,2)] assms(3,4) by simp
qed

theorem ravl_emplace_refuses_witness:
  "ravl_emplace three_nodes ravl_node_insert_constructor 20 \<lparr>next_id = 7, oom = [], lock_fail = []\<rparr> =
     Some (-1, three_nodes, \<lparr>next_id = 8, oom = [], lock_fail = []\<rparr>)"
  using ravl_emplace_refuses [of id three_nodes "[(1, 10), (2, 20), (3, 30)]"
      "\<lparr>next_id = 7, oom = [], lock_fail = []\<rparr>" "Some 7" "\<lparr>next_id = 8, oom = [], lock_fail = []\<rparr>" 20
      ravl_node_insert_constructor] three_nodes_index
  by (simp add: fresh_in_def ba_global_alloc_def)

text \<open>
  C10. Removing a node succeeds and deletes its entry. The other entries keep their order
  and the addresses of their nodes, with one exception: when the node has two children
  the data of its successor moves into it and the successor's node is released.
\<close>

theorem ravl_remove_removes:
  assumes "ravl_index key r (xs @ (a, d) # ys)"
  shows "\<exists>r' es. ravl_remove r a = Some r' \<and> ravl_index key r' es \<and> map snd es = map snd (xs @ ys) \<and>
           (es = xs @ ys \<or> (\<exists>s e ys'. ys = (s, e) # ys' \<and> es = xs @ (a, e) # ys'))"
proof -
  obtain r' es where "ravl_remove r a = Some r'" "ravl_index key r' es" "removed_at a xs ys es"
    using index_rm [OF assms] by blast
  then show ?thesis
    using removed_at_snd [of a xs ys es]
    by (intro exI [of _ r'] exI [of _ es]) (simp add: removed_at_def)
qed

theorem ravl_remove_removes_witness:
  "\<exists>r' es. ravl_remove three_nodes 2 = Some r' \<and> ravl_index id r' es \<and> map snd es = [10, 30] \<and>
     (es = [(1, 10), (3, 30)] \<or> es = [(1, 10), (2, 30)])"
  using ravl_remove_removes [of id three_nodes "[(1, 10)]" 2 20 "[(3, 30)]"] three_nodes_index by auto

text \<open>
  C11. The five searches return the node of the key, the first node above (or not below)
  it, and the last node below (or not above) it, in the order of the entries.
\<close>

theorem ravl_find_correct:
  assumes "ravl_index key r es"
  shows "ravl_find r x RAVL_PREDICATE_EQUAL = Some (first_such (\<lambda>e. key (snd e) = key x) es) \<and>
     ravl_find r x RAVL_PREDICATE_GREATER_EQUAL = Some (first_such (\<lambda>e. key x \<le> key (snd e)) es) \<and>
     ravl_find r x RAVL_PREDICATE_GREATER = Some (first_such (\<lambda>e. key x < key (snd e)) es) \<and>
     ravl_find r x RAVL_PREDICATE_LESS_EQUAL = Some (last_such (\<lambda>e. key (snd e) \<le> key x) es) \<and>
     ravl_find r x RAVL_PREDICATE_LESS = Some (last_such (\<lambda>e. key (snd e) < key x) es)"
  using assms
  by (simp add: index_find_equal index_find_ge index_find_greater index_find_le index_find_less)

theorem ravl_find_correct_witness:
  "ravl_find three_nodes 20 RAVL_PREDICATE_EQUAL = Some (Some 2) \<and>
   ravl_find three_nodes 20 RAVL_PREDICATE_GREATER = Some (Some 3) \<and>
   ravl_find three_nodes 20 RAVL_PREDICATE_LESS = Some (Some 1)"
  using ravl_find_correct [OF three_nodes_index, of 20] by (simp add: last_such_def)

text \<open>
  C16. \<open>ravl_clear\<close> releases every node of the tree and leaves it empty: no node leaks
  and none is released twice.
\<close>

theorem ravl_clear_releases_all:
  assumes "ravl_index key r es"
  shows "\<exists>r'. ravl_clear r = Some r' \<and> ravl_nodes r' = Map.empty \<and> ravl_empty r'"
proof -
  obtain t where t: "ravl_rep r t" using assms by (rule ravl_indexE)
  then have "ravl_foreach_node (ravl_nodes r) (ravl_root r) None () True =
      Some (ravl_nodes r |` (- addrs t), ())"
    using foreach_free [of "ravl_nodes r" None t "()"] by (simp add: ravl_rep_def)
  moreover have "ravl_nodes r |` (- addrs t) = Map.empty"
    using t by (auto simp: ravl_rep_def restrict_map_def fun_eq_iff dom_def)
  ultimately show ?thesis by (simp add: ravl_clear_def ravl_empty_def)
qed

theorem ravl_clear_releases_all_witness:
  "\<exists>r'. ravl_clear three_nodes = Some r' \<and> ravl_nodes r' = Map.empty \<and> ravl_empty r'"
  using ravl_clear_releases_all [OF three_nodes_index] .

end
