(* ===== verification/Coarse.thy ===== *)
theory Coarse
  imports Ravl_Index
begin

text \<open>
  The coarse-grain block allocator of \<^verbatim>\<open>src/coarse/coarse.c\<close>. The state holds the two
  trees, the heaps of the blocks, of the list heads and of the list elements, the
  counters, the state of the upstream memory provider with its callbacks, and the host
  allocator. A field of a block that has not been written yet is \<open>None\<close>; reading it
  gives \<open>None\<close>, like every other undefined step.

  This theory holds the definitions; \<open>Coarse_Inv\<close> has the invariant and the lemmas.
\<close>

section \<open>Data\<close>

record block_t =
  b_size :: u64
  b_data :: addr
  b_used :: "bool option"
  b_free_list_ptr :: ref

record ravl_data_t =
  rd_key :: u64
  rd_value :: ref

record free_elem =
  fe_block :: ptr
  fe_next :: ref
  fe_prev :: ref

datatype coarse_strategy_t =
    UMF_COARSE_MEMORY_STRATEGY_FASTEST_BUT_ONE
  | UMF_COARSE_MEMORY_STRATEGY_FASTEST
  | UMF_COARSE_MEMORY_STRATEGY_CHECK_ALL_SIZE

datatype check_free_blocks_t = CHECK_ONLY_THE_FIRST_BLOCK | CHECK_ALL_BLOCKS_OF_SIZE

record 'p coarse_callbacks_t =
  cb_alloc :: "('p \<Rightarrow> u64 \<Rightarrow> u64 \<Rightarrow> umf_result \<times> addr \<times> 'p) option"
  cb_free :: "('p \<Rightarrow> addr \<Rightarrow> u64 \<Rightarrow> umf_result \<times> 'p) option"
  cb_split :: "('p \<Rightarrow> addr \<Rightarrow> u64 \<Rightarrow> u64 \<Rightarrow> umf_result \<times> 'p) option"
  cb_merge :: "('p \<Rightarrow> addr \<Rightarrow> addr \<Rightarrow> u64 \<Rightarrow> umf_result \<times> 'p) option"

record 'p coarse_t =
  c_provider :: 'p
  c_cb :: "'p coarse_callbacks_t"
  c_strategy :: coarse_strategy_t
  c_page_size :: u64
  c_all :: "ravl_data_t ravl"
  c_free :: "ravl_data_t ravl"
  c_used_size :: u64
  c_alloc_size :: u64
  c_blocks :: "block_t heap"
  c_heads :: "ref heap"
  c_elems :: "free_elem heap"
  c_host :: host

record coarse_stats_t =
  st_alloc_size :: u64
  st_used_size :: u64
  st_num_all_blocks :: u64
  st_num_free_blocks :: u64

section \<open>Objects on the heaps\<close>

definition upd_block :: "(block_t \<Rightarrow> block_t) \<Rightarrow> ptr \<Rightarrow> 'p coarse_t \<Rightarrow> 'p coarse_t option" where
  "upd_block f b c = do {
     blk \<leftarrow> c_blocks c b;
     Some (c\<lparr>c_blocks := (c_blocks c)(b \<mapsto> f blk)\<rparr>)
   }"

definition upd_elem :: "(free_elem \<Rightarrow> free_elem) \<Rightarrow> ptr \<Rightarrow> 'p coarse_t \<Rightarrow> 'p coarse_t option" where
  "upd_elem f e c = do {
     el \<leftarrow> c_elems c e;
     Some (c\<lparr>c_elems := (c_elems c)(e \<mapsto> f el)\<rparr>)
   }"

definition set_head :: "ptr \<Rightarrow> ref \<Rightarrow> 'p coarse_t \<Rightarrow> 'p coarse_t option" where
  "set_head h v c = do {
     _ \<leftarrow> c_heads c h;
     Some (c\<lparr>c_heads := (c_heads c)(h \<mapsto> v)\<rparr>)
   }"

section \<open>The trees\<close>

definition coarse_ravl_comp :: "ravl_data_t \<Rightarrow> ravl_data_t \<Rightarrow> int" where
  "coarse_ravl_comp lhs rhs =
     (if rd_key lhs < rd_key rhs then -1 else if rd_key lhs > rd_key rhs then 1 else 0)"

text \<open>The keys alone decide a comparison; a search passes a null value.\<close>

definition key_data :: "u64 \<Rightarrow> ravl_data_t" where
  "key_data k = \<lparr>rd_key = k, rd_value = None\<rparr>"

definition get_node_block :: "ravl_data_t ravl \<Rightarrow> ptr \<Rightarrow> ptr option" where
  "get_node_block r node = do {
     nd \<leftarrow> ravl_nodes r node;
     rd_value (ravl_data nd)
   }"

definition get_node_prev :: "ravl_data_t ravl \<Rightarrow> ptr \<Rightarrow> ref option" where
  "get_node_prev r node = ravl_node_predecessor (ravl_nodes r) node"

definition get_node_next :: "ravl_data_t ravl \<Rightarrow> ptr \<Rightarrow> ref option" where
  "get_node_next r node = ravl_node_successor (ravl_nodes r) node"

text \<open>
  \<open>coarse_ravl_add_new\<close> returns the new block (null when the host is out of memory) and
  the tree node that refers to it.
\<close>

definition coarse_ravl_add_new ::
  "'p coarse_t \<Rightarrow> addr \<Rightarrow> u64 \<Rightarrow> (ref \<times> ref \<times> 'p coarse_t) option" where
  "coarse_ravl_add_new c data sz = do {
     assert_that (data \<noteq> 0);
     assert_that (sz \<noteq> 0);
     (case ba_global_alloc (c_host c) of
        (None, s) \<Rightarrow> Some (None, None, c\<lparr>c_host := s\<rparr>)
      | (Some block, s) \<Rightarrow> do {
          let c1 = c\<lparr>c_host := s, c_blocks := (c_blocks c)(block \<mapsto>
                       \<lparr>b_size = sz, b_data = data, b_used = None, b_free_list_ptr = None\<rparr>)\<rparr>;
          let rdata = \<lparr>rd_key = data, rd_value = Some block\<rparr>;
          old \<leftarrow> ravl_find (c_all c1) (key_data data) RAVL_PREDICATE_EQUAL;
          assert_that (old = None);
          (ret, t, s') \<leftarrow> ravl_emplace_copy (c_all c1) rdata (c_host c1);
          let c2 = c1\<lparr>c_all := t, c_host := s'\<rparr>;
          if ret \<noteq> 0 then Some (None, None, c2\<lparr>c_blocks := (c_blocks c2)(block := None)\<rparr>)
          else do {
            new_node \<leftarrow> ravl_find (c_all c2) rdata RAVL_PREDICATE_EQUAL;
            assert_that (new_node \<noteq> None);
            Some (Some block, new_node, c2)
          }
        })
   }"

definition coarse_ravl_find_node :: "ravl_data_t ravl \<Rightarrow> addr \<Rightarrow> ref option" where
  "coarse_ravl_find_node r p = ravl_find r (key_data p) RAVL_PREDICATE_EQUAL"

definition coarse_ravl_rm :: "'p coarse_t \<Rightarrow> addr \<Rightarrow> (ref \<times> 'p coarse_t) option" where
  "coarse_ravl_rm c p = do {
     node \<leftarrow> ravl_find (c_all c) (key_data p) RAVL_PREDICATE_EQUAL;
     (case node of
        None \<Rightarrow> Some (None, c)
      | Some n \<Rightarrow> do {
          block \<leftarrow> get_node_block (c_all c) n;
          t \<leftarrow> ravl_remove (c_all c) n;
          gone \<leftarrow> ravl_find t (key_data p) RAVL_PREDICATE_EQUAL;
          assert_that (gone = None);
          Some (Some block, c\<lparr>c_all := t\<rparr>)
        })
   }"

section \<open>Lists of free blocks of one size\<close>

definition node_list_add :: "'p coarse_t \<Rightarrow> ptr \<Rightarrow> ptr \<Rightarrow> (ref \<times> 'p coarse_t) option" where
  "node_list_add c head_node block =
     (case ba_global_alloc (c_host c) of
        (None, s) \<Rightarrow> Some (None, c\<lparr>c_host := s\<rparr>)
      | (Some node, s) \<Rightarrow> do {
          let c0 = c\<lparr>c_host := s\<rparr>;
          head \<leftarrow> c_heads c0 head_node;
          c1 \<leftarrow> (case head of None \<Rightarrow> Some c0
                  | Some h \<Rightarrow> upd_elem (\<lambda>x. x\<lparr>fe_prev := Some node\<rparr>) h c0);
          let c2 = c1\<lparr>c_elems := (c_elems c1)(node \<mapsto>
                        \<lparr>fe_block = block, fe_next = head, fe_prev = None\<rparr>)\<rparr>;
          c3 \<leftarrow> set_head head_node (Some node) c2;
          Some (Some node, c3)
        })"

definition node_list_rm :: "'p coarse_t \<Rightarrow> ptr \<Rightarrow> ptr \<Rightarrow> (ptr \<times> 'p coarse_t) option" where
  "node_list_rm c head_node node = do {
     head \<leftarrow> c_heads c head_node;
     assert_that (head \<noteq> None);
     nd \<leftarrow> c_elems c node;
     c1 \<leftarrow> (if Some node = head then do {
              assert_that (fe_prev nd = None);
              set_head head_node (fe_next nd) c
            } else Some c);
     c2 \<leftarrow> (case fe_next nd of None \<Rightarrow> Some c1
             | Some x \<Rightarrow> upd_elem (\<lambda>e. e\<lparr>fe_prev := fe_prev nd\<rparr>) x c1);
     c3 \<leftarrow> (case fe_prev nd of None \<Rightarrow> Some c2
             | Some x \<Rightarrow> upd_elem (\<lambda>e. e\<lparr>fe_next := fe_next nd\<rparr>) x c2);
     c4 \<leftarrow> upd_block (\<lambda>b. b\<lparr>b_free_list_ptr := None\<rparr>) (fe_block nd) c3;
     Some (fe_block nd, c4\<lparr>c_elems := (c_elems c4)(node := None)\<rparr>)
   }"

definition node_list_rm_first :: "'p coarse_t \<Rightarrow> ptr \<Rightarrow> u64 \<Rightarrow> (ref \<times> 'p coarse_t) option" where
  "node_list_rm_first c head_node alignment = do {
     head \<leftarrow> c_heads c head_node;
     node \<leftarrow> head;
     nd \<leftarrow> c_elems c node;
     assert_that (fe_prev nd = None);
     blk \<leftarrow> c_blocks c (fe_block nd);
     if IS_NOT_ALIGNED (b_data blk) alignment then Some (None, c)
     else do {
       c1 \<leftarrow> (case fe_next nd of None \<Rightarrow> Some c
               | Some x \<Rightarrow> upd_elem (\<lambda>e. e\<lparr>fe_prev := None\<rparr>) x c);
       c2 \<leftarrow> set_head head_node (fe_next nd) c1;
       c3 \<leftarrow> upd_block (\<lambda>b. b\<lparr>b_free_list_ptr := None\<rparr>) (fe_block nd) c2;
       Some (Some (fe_block nd), c3\<lparr>c_elems := (c_elems c3)(node := None)\<rparr>)
     }
   }"

text \<open>The search loop of \<open>node_list_rm_with_alignment\<close>.\<close>

partial_function (option) aligned_elem :: "'p coarse_t \<Rightarrow> u64 \<Rightarrow> ref \<Rightarrow> ref option" where
  "aligned_elem c alignment node =
     (case node of
        None \<Rightarrow> Some None
      | Some e \<Rightarrow> do {
          nd \<leftarrow> c_elems c e;
          blk \<leftarrow> c_blocks c (fe_block nd);
          if IS_ALIGNED (b_data blk) alignment then Some (Some e)
          else aligned_elem c alignment (fe_next nd)
        })"

definition node_list_rm_with_alignment ::
  "'p coarse_t \<Rightarrow> ptr \<Rightarrow> u64 \<Rightarrow> (ref \<times> 'p coarse_t) option" where
  "node_list_rm_with_alignment c head_node alignment = do {
     head \<leftarrow> c_heads c head_node;
     h \<leftarrow> head;
     hd \<leftarrow> c_elems c h;
     assert_that (fe_prev hd = None);
     found \<leftarrow> aligned_elem c alignment head;
     (case found of
        None \<Rightarrow> Some (None, c)
      | Some e \<Rightarrow> do {
          (block, c') \<leftarrow> node_list_rm c head_node e;
          Some (Some block, c')
        })
   }"

section \<open>The tree of free blocks\<close>

definition free_blocks_add :: "'p coarse_t \<Rightarrow> ptr \<Rightarrow> (int \<times> 'p coarse_t) option" where
  "free_blocks_add c block = do {
     blk \<leftarrow> c_blocks c block;
     node \<leftarrow> ravl_find (c_free c) (key_data (b_size blk)) RAVL_PREDICATE_EQUAL;
     (hd, c1) \<leftarrow> (case node of
        Some n \<Rightarrow> do {
          head_node \<leftarrow> get_node_block (c_free c) n;
          Some (Some head_node, c)
        }
      | None \<Rightarrow>
          (case ba_global_alloc (c_host c) of
             (None, s) \<Rightarrow> Some (None, c\<lparr>c_host := s\<rparr>)
           | (Some head_node, s) \<Rightarrow> do {
               let c0 = c\<lparr>c_host := s, c_heads := (c_heads c)(head_node \<mapsto> None)\<rparr>;
               (rv, t, s') \<leftarrow> ravl_emplace_copy (c_free c0)
                                \<lparr>rd_key = b_size blk, rd_value = Some head_node\<rparr> (c_host c0);
               let c0' = c0\<lparr>c_free := t, c_host := s'\<rparr>;
               Some (if rv \<noteq> 0 then (None, c0'\<lparr>c_heads := (c_heads c0')(head_node := None)\<rparr>)
                     else (Some head_node, c0'))
             }));
     (case hd of
        None \<Rightarrow> Some (-1, c1)
      | Some head_node \<Rightarrow> do {
          (elem, c2) \<leftarrow> node_list_add c1 head_node block;
          c3 \<leftarrow> upd_block (\<lambda>b. b\<lparr>b_free_list_ptr := elem\<rparr>) block c2;
          (case elem of
             None \<Rightarrow> Some (-1, c3)
           | Some e \<Rightarrow> do {
               el \<leftarrow> c_elems c3 e;
               eb \<leftarrow> c_blocks c3 (fe_block el);
               blk3 \<leftarrow> c_blocks c3 block;
               assert_that (b_size eb = b_size blk3);
               Some (0, c3)
             })
        })
   }"

text \<open>The end that the two removals share: an empty list leaves the tree.\<close>

definition drop_empty_head :: "'p coarse_t \<Rightarrow> ptr \<Rightarrow> ptr \<Rightarrow> 'p coarse_t option" where
  "drop_empty_head c head_node node = do {
     head \<leftarrow> c_heads c head_node;
     if head = None then do {
       let c1 = c\<lparr>c_heads := (c_heads c)(head_node := None)\<rparr>;
       t \<leftarrow> ravl_remove (c_free c1) node;
       Some (c1\<lparr>c_free := t\<rparr>)
     } else Some c
   }"

definition free_blocks_rm_ge ::
  "'p coarse_t \<Rightarrow> u64 \<Rightarrow> u64 \<Rightarrow> check_free_blocks_t \<Rightarrow> (ref \<times> 'p coarse_t) option" where
  "free_blocks_rm_ge c sz alignment check_blocks = do {
     node \<leftarrow> ravl_find (c_free c) (key_data sz) RAVL_PREDICATE_GREATER_EQUAL;
     (case node of
        None \<Rightarrow> Some (None, c)
      | Some n \<Rightarrow> do {
          nd \<leftarrow> ravl_nodes (c_free c) n;
          assert_that (rd_key (ravl_data nd) \<ge> sz);
          head_node \<leftarrow> rd_value (ravl_data nd);
          (block, c1) \<leftarrow> (case check_blocks of
             CHECK_ONLY_THE_FIRST_BLOCK \<Rightarrow> node_list_rm_first c head_node alignment
           | CHECK_ALL_BLOCKS_OF_SIZE \<Rightarrow> node_list_rm_with_alignment c head_node alignment);
          c2 \<leftarrow> drop_empty_head c1 head_node n;
          Some (block, c2)
        })
   }"

definition free_blocks_rm_node :: "'p coarse_t \<Rightarrow> ptr \<Rightarrow> (ptr \<times> 'p coarse_t) option" where
  "free_blocks_rm_node c node = do {
     el \<leftarrow> c_elems c node;
     blk \<leftarrow> c_blocks c (fe_block el);
     found \<leftarrow> ravl_find (c_free c) (key_data (b_size blk)) RAVL_PREDICATE_EQUAL;
     n \<leftarrow> found;
     nd \<leftarrow> ravl_nodes (c_free c) n;
     assert_that (rd_key (ravl_data nd) = b_size blk);
     head_node \<leftarrow> rd_value (ravl_data nd);
     (block, c1) \<leftarrow> node_list_rm c head_node node;
     c2 \<leftarrow> drop_empty_head c1 head_node n;
     Some (block, c2)
   }"

section \<open>Merging\<close>

text \<open>
  The removal of the merged blocks from the lists of free blocks, done for \<open>block1\<close>
  and for \<open>block2\<close>.
\<close>

definition unlink_free :: "'p coarse_t \<Rightarrow> ptr \<Rightarrow> 'p coarse_t option" where
  "unlink_free c block = do {
     blk \<leftarrow> c_blocks c block;
     (case b_free_list_ptr blk of
        None \<Rightarrow> Some c
      | Some e \<Rightarrow> do {
          (_, c1) \<leftarrow> free_blocks_rm_node c e;
          upd_block (\<lambda>b. b\<lparr>b_free_list_ptr := None\<rparr>) block c1
        })
   }"

definition user_block_merge ::
  "'p coarse_t \<Rightarrow> ptr \<Rightarrow> ptr \<Rightarrow> bool \<Rightarrow> (umf_result \<times> ref \<times> 'p coarse_t) option" where
  "user_block_merge c node1 node2 used = do {
     pr \<leftarrow> get_node_prev (c_all c) node2;
     assert_that (pr = Some node1);
     nx \<leftarrow> get_node_next (c_all c) node1;
     assert_that (nx = Some node2);
     block1 \<leftarrow> get_node_block (c_all c) node1;
     block2 \<leftarrow> get_node_block (c_all c) node2;
     blk1 \<leftarrow> c_blocks c block1;
     blk2 \<leftarrow> c_blocks c block2;
     assert_that (b_data blk1 < b_data blk2);
     used1 \<leftarrow> b_used blk1;
     same_used \<leftarrow> (if used1 = used then do { used2 \<leftarrow> b_used blk2; Some (used2 = used) }
                  else Some False);
     let contiguous_data = (b_data blk1 + b_size blk1 = b_data blk2);
     if \<not> same_used \<or> \<not> contiguous_data
     then Some (UMF_RESULT_ERROR_INVALID_ARGUMENT, None, c)
     else do {
       merge_cb \<leftarrow> cb_merge (c_cb c);
       let (umf_result, p) = merge_cb (c_provider c) (b_data blk1) (b_data blk2)
                                      (b_size blk1 + b_size blk2);
       let c0 = c\<lparr>c_provider := p\<rparr>;
       if umf_result \<noteq> UMF_RESULT_SUCCESS then Some (umf_result, None, c0)
       else do {
         c1 \<leftarrow> unlink_free c0 block1;
         c2 \<leftarrow> unlink_free c1 block2;
         b2 \<leftarrow> c_blocks c2 block2;
         c3 \<leftarrow> upd_block (\<lambda>b. b\<lparr>b_size := b_size b + b_size b2\<rparr>) block1 c2;
         (block_rm, c4) \<leftarrow> coarse_ravl_rm c3 (b_data b2);
         assert_that (block_rm = Some block2);
         Some (UMF_RESULT_SUCCESS, Some node1,
               c4\<lparr>c_blocks := (c_blocks c4)(block2 := None)\<rparr>)
       }
     }
   }"

definition free_block_merge_with_prev :: "'p coarse_t \<Rightarrow> ptr \<Rightarrow> (ptr \<times> 'p coarse_t) option" where
  "free_block_merge_with_prev c node = do {
     node_prev \<leftarrow> get_node_prev (c_all c) node;
     (case node_prev of
        None \<Rightarrow> Some (node, c)
      | Some p \<Rightarrow> do {
          (umf_result, merged_node, c1) \<leftarrow> user_block_merge c p node False;
          if umf_result \<noteq> UMF_RESULT_SUCCESS then Some (node, c1)
          else do { m \<leftarrow> merged_node; Some (m, c1) }
        })
   }"

definition free_block_merge_with_next :: "'p coarse_t \<Rightarrow> ptr \<Rightarrow> (ptr \<times> 'p coarse_t) option" where
  "free_block_merge_with_next c node = do {
     node_next \<leftarrow> get_node_next (c_all c) node;
     (case node_next of
        None \<Rightarrow> Some (node, c)
      | Some x \<Rightarrow> do {
          (umf_result, merged_node, c1) \<leftarrow> user_block_merge c node x False;
          if umf_result \<noteq> UMF_RESULT_SUCCESS then Some (node, c1)
          else do { m \<leftarrow> merged_node; Some (m, c1) }
        })
   }"

section \<open>Statistics and the consistency check\<close>

definition ravl_cb_count :: "ravl_data_t \<Rightarrow> u64 \<Rightarrow> u64 option" where
  "ravl_cb_count data n = Some (n + 1)"

partial_function (option) count_elems :: "free_elem heap \<Rightarrow> ref \<Rightarrow> u64 \<Rightarrow> u64 option" where
  "count_elems h free_block n =
     (case free_block of
        None \<Rightarrow> Some n
      | Some e \<Rightarrow> do { el \<leftarrow> h e; count_elems h (fe_next el) (n + 1) })"

definition ravl_cb_count_free :: "'p coarse_t \<Rightarrow> ravl_data_t \<Rightarrow> u64 \<Rightarrow> u64 option" where
  "ravl_cb_count_free c data n = do {
     head_node \<leftarrow> rd_value data;
     head \<leftarrow> c_heads c head_node;
     assert_that (head \<noteq> None);
     count_elems (c_elems c) head n
   }"

definition coarse_get_stats_no_lock :: "'p coarse_t \<Rightarrow> coarse_stats_t option" where
  "coarse_get_stats_no_lock c = do {
     num_all \<leftarrow> ravl_foreach (c_all c) ravl_cb_count 0;
     num_free \<leftarrow> ravl_foreach (c_free c) (ravl_cb_count_free c) 0;
     Some \<lparr>st_alloc_size = c_alloc_size c, st_used_size = c_used_size c,
           st_num_all_blocks = num_all, st_num_free_blocks = num_free\<rparr>
   }"

record debug_cb_args_t =
  dbg_sum_used :: u64
  dbg_sum_blocks_size :: u64
  dbg_num_all_blocks :: u64
  dbg_num_free_blocks :: u64

definition get_block_prev :: "ravl_data_t ravl \<Rightarrow> ptr \<Rightarrow> ref option" where
  "get_block_prev r node = do {
     p \<leftarrow> ravl_node_predecessor (ravl_nodes r) node;
     (case p of None \<Rightarrow> Some None | Some n \<Rightarrow> do { b \<leftarrow> get_node_block r n; Some (Some b) })
   }"

definition get_block_next :: "ravl_data_t ravl \<Rightarrow> ptr \<Rightarrow> ref option" where
  "get_block_next r node = do {
     p \<leftarrow> ravl_node_successor (ravl_nodes r) node;
     (case p of None \<Rightarrow> Some None | Some n \<Rightarrow> do { b \<leftarrow> get_node_block r n; Some (Some b) })
   }"

definition debug_verify_all_blocks_cb ::
  "'p coarse_t \<Rightarrow> ravl_data_t \<Rightarrow> debug_cb_args_t \<Rightarrow> debug_cb_args_t option" where
  "debug_verify_all_blocks_cb c data args = do {
     block \<leftarrow> rd_value data;
     found \<leftarrow> ravl_find (c_all c) data RAVL_PREDICATE_EQUAL;
     node \<leftarrow> found;
     block_next \<leftarrow> get_block_next (c_all c) node;
     block_prev \<leftarrow> get_block_prev (c_all c) node;
     blk \<leftarrow> c_blocks c block;
     used \<leftarrow> b_used blk;
     assert_that (b_data blk \<noteq> 0);
     assert_that (b_size blk > 0);
     _ \<leftarrow> (case block_prev of None \<Rightarrow> Some ()
          | Some p \<Rightarrow> do { pb \<leftarrow> c_blocks c p; assert_that (b_data pb < b_data blk) });
     _ \<leftarrow> (case block_next of None \<Rightarrow> Some ()
          | Some x \<Rightarrow> do {
              nb \<leftarrow> c_blocks c x;
              assert_that (b_data blk < b_data nb);
              assert_that (b_data blk + b_size blk \<le> b_data nb)
            });
     Some \<lparr>dbg_sum_used = (if used then dbg_sum_used args + b_size blk else dbg_sum_used args),
           dbg_sum_blocks_size = dbg_sum_blocks_size args + b_size blk,
           dbg_num_all_blocks = dbg_num_all_blocks args + 1,
           dbg_num_free_blocks = (if used then dbg_num_free_blocks args
                                  else dbg_num_free_blocks args + 1)\<rparr>
   }"

text \<open>\<open>debug_check\<close> of the developer build; it returns or fails an assertion.\<close>

definition debug_check :: "'p coarse_t \<Rightarrow> unit option" where
  "debug_check c = do {
     stats \<leftarrow> coarse_get_stats_no_lock c;
     args \<leftarrow> ravl_foreach (c_all c) (debug_verify_all_blocks_cb c)
               \<lparr>dbg_sum_used = 0, dbg_sum_blocks_size = 0, dbg_num_all_blocks = 0,
                dbg_num_free_blocks = 0\<rparr>;
     assert_that (dbg_num_all_blocks args = st_num_all_blocks stats);
     assert_that (dbg_num_free_blocks args = st_num_free_blocks stats);
     assert_that (dbg_sum_used args = c_used_size c);
     assert_that (dbg_sum_blocks_size args = c_alloc_size c);
     assert_that (c_alloc_size c \<ge> c_used_size c)
   }"

section \<open>Adding, splitting and finding blocks\<close>

definition coarse_add_used_block ::
  "'p coarse_t \<Rightarrow> addr \<Rightarrow> u64 \<Rightarrow> (umf_result \<times> 'p coarse_t) option" where
  "coarse_add_used_block c addr sz = do {
     (new_block, _, c1) \<leftarrow> coarse_ravl_add_new c addr sz;
     (case new_block of
        None \<Rightarrow> Some (UMF_RESULT_ERROR_OUT_OF_HOST_MEMORY, c1)
      | Some b \<Rightarrow> do {
          c2 \<leftarrow> upd_block (\<lambda>x. x\<lparr>b_used := Some True\<rparr>) b c1;
          Some (UMF_RESULT_SUCCESS, c2\<lparr>c_alloc_size := c_alloc_size c2 + sz,
                                        c_used_size := c_used_size c2 + sz\<rparr>)
        })
   }"

definition coarse_add_free_block ::
  "'p coarse_t \<Rightarrow> addr \<Rightarrow> u64 \<Rightarrow> (umf_result \<times> ref \<times> 'p coarse_t) option" where
  "coarse_add_free_block c addr sz = do {
     (new_block, _, c1) \<leftarrow> coarse_ravl_add_new c addr sz;
     (case new_block of
        None \<Rightarrow> Some (UMF_RESULT_ERROR_OUT_OF_HOST_MEMORY, None, c1)
      | Some b \<Rightarrow> do {
          c2 \<leftarrow> upd_block (\<lambda>x. x\<lparr>b_used := Some False\<rparr>) b c1;
          Some (UMF_RESULT_SUCCESS, Some b, c2\<lparr>c_alloc_size := c_alloc_size c2 + sz\<rparr>)
        })
   }"

definition coarse_ravl_cb_rm_all_blocks_node ::
  "ravl_data_t \<Rightarrow> 'p coarse_t \<Rightarrow> 'p coarse_t option" where
  "coarse_ravl_cb_rm_all_blocks_node data c = do {
     block \<leftarrow> rd_value data;
     blk \<leftarrow> c_blocks c block;
     used \<leftarrow> b_used blk;
     c1 \<leftarrow> (if used then do {
              assert_that (c_used_size c \<ge> b_size blk);
              Some (c\<lparr>c_used_size := c_used_size c - b_size blk\<rparr>)
            } else Some c);
     c2 \<leftarrow> (case b_free_list_ptr blk of None \<Rightarrow> Some c1
             | Some e \<Rightarrow> do { (_, c') \<leftarrow> free_blocks_rm_node c1 e; Some c' });
     let c3 = (case cb_free (c_cb c2) of None \<Rightarrow> c2
               | Some f \<Rightarrow> c2\<lparr>c_provider := snd (f (c_provider c2) (b_data blk) (b_size blk))\<rparr>);
     assert_that (c_alloc_size c3 \<ge> b_size blk);
     Some (c3\<lparr>c_alloc_size := c_alloc_size c3 - b_size blk,
              c_blocks := (c_blocks c3)(block := None)\<rparr>)
   }"

definition can_provider_split ::
  "'p coarse_t \<Rightarrow> addr \<Rightarrow> u64 \<Rightarrow> u64 \<Rightarrow> (umf_result \<times> 'p coarse_t) option" where
  "can_provider_split c p totalSize firstSize = do {
     split_cb \<leftarrow> cb_split (c_cb c);
     let (umf_result, pr) = split_cb (c_provider c) p totalSize firstSize;
     Some (umf_result, c\<lparr>c_provider := pr\<rparr>)
   }"

text \<open>The second component of the result is the new value of \<^verbatim>\<open>*current\<close>.\<close>

definition create_aligned_block ::
  "'p coarse_t \<Rightarrow> u64 \<Rightarrow> u64 \<Rightarrow> ptr \<Rightarrow> (umf_result \<times> ptr \<times> 'p coarse_t) option" where
  "create_aligned_block c orig_size alignment cur = do {
     blk \<leftarrow> c_blocks c cur;
     let orig_data = b_data blk;
     let aligned_data = ALIGN_UP orig_data alignment;
     let padding = aligned_data - orig_data;
     if alignment > 0 \<and> padding > 0 then do {
       (umf_result, c1) \<leftarrow> can_provider_split c (b_data blk) (b_size blk) padding;
       if umf_result \<noteq> UMF_RESULT_SUCCESS then Some (umf_result, cur, c1)
       else do {
         (aligned_block, _, c2) \<leftarrow> coarse_ravl_add_new c1 (b_data blk + padding) (b_size blk - padding);
         (case aligned_block of
            None \<Rightarrow> Some (UMF_RESULT_ERROR_OUT_OF_HOST_MEMORY, cur, c2)
          | Some a \<Rightarrow> do {
              c3 \<leftarrow> upd_block (\<lambda>b. b\<lparr>b_used := Some False, b_size := padding\<rparr>) cur c2;
              (rv, c4) \<leftarrow> free_blocks_add c3 cur;
              if rv \<noteq> 0 then Some (UMF_RESULT_ERROR_OUT_OF_HOST_MEMORY, cur, c4)
              else do {
                ablk \<leftarrow> c_blocks c4 a;
                assert_that (b_size ablk \<ge> orig_size);
                Some (UMF_RESULT_SUCCESS, a, c4)
              }
            })
       }
     } else Some (UMF_RESULT_SUCCESS, cur, c)
   }"

definition split_current_block ::
  "'p coarse_t \<Rightarrow> ptr \<Rightarrow> u64 \<Rightarrow> (umf_result \<times> 'p coarse_t) option" where
  "split_current_block c cur sz = do {
     blk \<leftarrow> c_blocks c cur;
     (umf_result, c1) \<leftarrow> can_provider_split c (b_data blk) (b_size blk) sz;
     if umf_result \<noteq> UMF_RESULT_SUCCESS then Some (umf_result, c1)
     else do {
       (new_block, new_node, c2) \<leftarrow> coarse_ravl_add_new c1 (b_data blk + sz) (b_size blk - sz);
       (case new_block of
          None \<Rightarrow> Some (UMF_RESULT_ERROR_OUT_OF_HOST_MEMORY, c2)
        | Some nb \<Rightarrow> do {
            c3 \<leftarrow> upd_block (\<lambda>b. b\<lparr>b_used := Some False\<rparr>) nb c2;
            nn \<leftarrow> new_node;
            b \<leftarrow> get_node_block (c_all c3) nn;
            (rv, c4) \<leftarrow> free_blocks_add c3 b;
            Some (if rv \<noteq> 0 then UMF_RESULT_ERROR_OUT_OF_HOST_MEMORY else UMF_RESULT_SUCCESS, c4)
          })
     }
   }"

definition find_free_block ::
  "'p coarse_t \<Rightarrow> u64 \<Rightarrow> u64 \<Rightarrow> coarse_strategy_t \<Rightarrow> (ref \<times> 'p coarse_t) option" where
  "find_free_block c sz alignment allocation_strategy = do {
     let new_size = sz + alignment;
     (case allocation_strategy of
        UMF_COARSE_MEMORY_STRATEGY_FASTEST \<Rightarrow>
          if new_size < sz then Some (None, c)
          else free_blocks_rm_ge c new_size 0 CHECK_ONLY_THE_FIRST_BLOCK
      | UMF_COARSE_MEMORY_STRATEGY_FASTEST_BUT_ONE \<Rightarrow> do {
          (block, c1) \<leftarrow> free_blocks_rm_ge c sz alignment CHECK_ONLY_THE_FIRST_BLOCK;
          if block \<noteq> None then Some (block, c1)
          else if new_size < sz then Some (None, c1)
          else free_blocks_rm_ge c1 new_size 0 CHECK_ONLY_THE_FIRST_BLOCK
        }
      | UMF_COARSE_MEMORY_STRATEGY_CHECK_ALL_SIZE \<Rightarrow> do {
          (block, c1) \<leftarrow> free_blocks_rm_ge c sz alignment CHECK_ALL_BLOCKS_OF_SIZE;
          if block \<noteq> None then Some (block, c1)
          else if new_size < sz then Some (None, c1)
          else free_blocks_rm_ge c1 new_size 0 CHECK_ONLY_THE_FIRST_BLOCK
        })
   }"

definition free_blocks_re_add :: "'p coarse_t \<Rightarrow> ptr \<Rightarrow> (int \<times> 'p coarse_t) option" where
  "free_blocks_re_add c block = do {
     blk \<leftarrow> c_blocks c block;
     found \<leftarrow> coarse_ravl_find_node (c_all c) (b_data blk);
     node \<leftarrow> found;
     (node1, c1) \<leftarrow> free_block_merge_with_prev c node;
     (node2, c2) \<leftarrow> free_block_merge_with_next c1 node1;
     b \<leftarrow> get_node_block (c_all c2) node2;
     free_blocks_add c2 b
   }"

section \<open>The public functions\<close>

record 'p coarse_params_t =
  cp_provider :: "'p option"
  cp_cb :: "'p coarse_callbacks_t"
  cp_strategy :: coarse_strategy_t
  cp_page_size :: u64

definition coarse_new ::
  "'p coarse_params_t option \<Rightarrow> host \<Rightarrow> (umf_result \<times> 'p coarse_t option \<times> host) option" where
  "coarse_new coarse_params s =
     (case coarse_params of
        None \<Rightarrow> Some (UMF_RESULT_ERROR_INVALID_ARGUMENT, None, s)
      | Some ps \<Rightarrow>
         (case cp_provider ps of
            None \<Rightarrow> Some (UMF_RESULT_ERROR_INVALID_ARGUMENT, None, s)
          | Some provider \<Rightarrow>
              if cp_page_size ps = 0 \<or> cb_split (cp_cb ps) = None \<or> cb_merge (cp_cb ps) = None
              then Some (UMF_RESULT_ERROR_INVALID_ARGUMENT, None, s)
              else
               (case ba_global_alloc s of
                  (None, s1) \<Rightarrow> Some (UMF_RESULT_ERROR_OUT_OF_HOST_MEMORY, None, s1)
                | (Some _, s1) \<Rightarrow>
                   (case ravl_new_sized coarse_ravl_comp 16 s1 of
                      (None, s2) \<Rightarrow> Some (UMF_RESULT_ERROR_OUT_OF_HOST_MEMORY, None, s2)
                    | (Some free_blocks, s2) \<Rightarrow>
                       (case ravl_new_sized coarse_ravl_comp 16 s2 of
                          (None, s3) \<Rightarrow> Some (UMF_RESULT_ERROR_OUT_OF_HOST_MEMORY, None, s3)
                        | (Some all_blocks, s3) \<Rightarrow>
                           (case mutex_init s3 of
                              (False, s4) \<Rightarrow> Some (UMF_RESULT_ERROR_UNKNOWN, None, s4)
                            | (True, s4) \<Rightarrow> do {
                                let c = \<lparr>c_provider = provider, c_cb = cp_cb ps,
                                         c_strategy = cp_strategy ps, c_page_size = cp_page_size ps,
                                         c_all = all_blocks, c_free = free_blocks,
                                         c_used_size = 0, c_alloc_size = 0, c_blocks = Map.empty,
                                         c_heads = Map.empty, c_elems = Map.empty, c_host = s4\<rparr>;
                                debug_check c;
                                Some (UMF_RESULT_SUCCESS, Some c, s4)
                              }))))))"

text \<open>What remains on the heaps after \<open>coarse_delete\<close>; the trees are released too.\<close>

definition coarse_delete :: "'p coarse_t \<Rightarrow> 'p coarse_t option" where
  "coarse_delete c = do {
     c1 \<leftarrow> ravl_foreach (c_all c) coarse_ravl_cb_rm_all_blocks_node c;
     assert_that (c_used_size c1 = 0);
     assert_that (c_alloc_size c1 = 0);
     (all_nodes, _) \<leftarrow> ravl_delete (c_all c1);
     (free_nodes, _) \<leftarrow> ravl_delete (c_free c1);
     Some (c1\<lparr>c_all := (c_all c1)\<lparr>ravl_root := None, ravl_nodes := all_nodes\<rparr>,
              c_free := (c_free c1)\<lparr>ravl_root := None, ravl_nodes := free_nodes\<rparr>\<rparr>)
   }"

text \<open>The alignment that an allocation uses, or \<open>None\<close> when the request is refused.\<close>

definition alloc_alignment :: "u64 \<Rightarrow> u64 \<Rightarrow> u64 option" where
  "alloc_alignment page_size alignment =
     (if alignment = 0 then Some page_size
      else if alignment AND (alignment - 1) \<noteq> 0 \<or>
              (alignment mod page_size \<noteq> 0 \<and> page_size mod alignment \<noteq> 0) then None
      else if IS_NOT_ALIGNED alignment page_size then Some (ALIGN_UP_SAFE alignment page_size)
      else Some alignment)"

text \<open>
  The part of \<open>coarse_alloc\<close> that asks the upstream provider for more memory. \<open>Inl\<close> is a
  jump to \<^verbatim>\<open>err_unlock\<close> with the result code and the value of \<^verbatim>\<open>*resultPtr\<close>, \<open>Inr\<close> the
  new free block.
\<close>

definition alloc_from_provider ::
  "'p coarse_t \<Rightarrow> u64 \<Rightarrow> u64 \<Rightarrow> ((umf_result \<times> addr + ptr) \<times> 'p coarse_t) option" where
  "alloc_from_provider c sz alignment =
     (case cb_alloc (c_cb c) of
        None \<Rightarrow> Some (Inl (UMF_RESULT_ERROR_OUT_OF_HOST_MEMORY, 0), c)
      | Some alloc_cb \<Rightarrow> do {
          let size_aligned = ALIGN_UP_SAFE sz alignment;
          if size_aligned = 0 then Some (Inl (UMF_RESULT_ERROR_INVALID_ARGUMENT, 0), c)
          else do {
            let (umf_result, result, p) = alloc_cb (c_provider c) size_aligned alignment;
            let c1 = c\<lparr>c_provider := p\<rparr>;
            if umf_result \<noteq> UMF_RESULT_SUCCESS then Some (Inl (umf_result, result), c1)
            else do {
              assert_that (IS_ALIGNED result alignment);
              (umf_result, new_free_block, c2) \<leftarrow> coarse_add_free_block c1 result size_aligned;
              if umf_result \<noteq> UMF_RESULT_SUCCESS then
                Some (Inl (umf_result, result),
                      (case cb_free (c_cb c2) of None \<Rightarrow> c2
                       | Some f \<Rightarrow> c2\<lparr>c_provider := snd (f (c_provider c2) result size_aligned)\<rparr>))
              else do {
                b \<leftarrow> new_free_block;
                Some (Inr b, c2)
              }
            }
          }
        })"

text \<open>The use of a block that has been found: alignment, split and accounting.\<close>

definition alloc_use_block ::
  "'p coarse_t \<Rightarrow> u64 \<Rightarrow> u64 \<Rightarrow> ptr \<Rightarrow> addr \<Rightarrow> (umf_result \<times> addr \<times> 'p coarse_t) option" where
  "alloc_use_block c sz alignment cur0 result0 = do {
     blk \<leftarrow> c_blocks c cur0;
     if b_size blk < sz then Some (UMF_RESULT_ERROR_OUT_OF_HOST_MEMORY, result0, c)
     else do {
       let action_split = (b_size blk > sz);
       used \<leftarrow> b_used blk;
       assert_that (\<not> used);
       (umf_result, cur, c1) \<leftarrow> (if alignment > 0 then create_aligned_block c sz alignment cur0
                                  else Some (UMF_RESULT_SUCCESS, cur0, c));
       if umf_result \<noteq> UMF_RESULT_SUCCESS then do {
         (_, c2) \<leftarrow> free_blocks_re_add c1 cur;
         Some (umf_result, result0, c2)
       } else do {
         (umf_result, c2) \<leftarrow> (if action_split then split_current_block c1 cur sz
                              else Some (UMF_RESULT_SUCCESS, c1));
         if umf_result \<noteq> UMF_RESULT_SUCCESS then do {
           (_, c3) \<leftarrow> free_blocks_re_add c2 cur;
           Some (umf_result, result0, c3)
         } else do {
           c3 \<leftarrow> (if action_split then upd_block (\<lambda>b. b\<lparr>b_size := sz\<rparr>) cur c2 else Some c2);
           c4 \<leftarrow> upd_block (\<lambda>b. b\<lparr>b_used := Some True\<rparr>) cur c3;
           cblk \<leftarrow> c_blocks c4 cur;
           Some (UMF_RESULT_SUCCESS, b_data cblk, c4\<lparr>c_used_size := c_used_size c4 + sz\<rparr>)
         }
       }
     }
   }"

text \<open>
  The result is the return code, the value written to \<^verbatim>\<open>*resultPtr\<close> (\<open>None\<close> when it is
  not written) and the new state.
\<close>

definition coarse_alloc ::
  "'p coarse_t \<Rightarrow> u64 \<Rightarrow> u64 \<Rightarrow> (umf_result \<times> addr option \<times> 'p coarse_t) option" where
  "coarse_alloc c sz alignment0 =
     (case alloc_alignment (c_page_size c) alignment0 of
        None \<Rightarrow> Some (UMF_RESULT_ERROR_INVALID_ALIGNMENT, None, c)
      | Some alignment \<Rightarrow>
         (case mutex_lock (c_host c) of
            (False, s) \<Rightarrow> Some (UMF_RESULT_ERROR_UNKNOWN, None, c\<lparr>c_host := s\<rparr>)
          | (True, s) \<Rightarrow> do {
              let c0 = c\<lparr>c_host := s\<rparr>;
              debug_check c0;
              (cur, c1) \<leftarrow> find_free_block c0 sz alignment (c_strategy c0);
              (umf_result, result, c2) \<leftarrow> (case cur of
                 Some b \<Rightarrow> alloc_use_block c1 sz alignment b 0
               | None \<Rightarrow> do {
                   (r, c') \<leftarrow> alloc_from_provider c1 sz alignment;
                   (case r of
                      Inl (rc, res) \<Rightarrow> Some (rc, res, c')
                    | Inr b \<Rightarrow> do {
                        blk \<leftarrow> c_blocks c' b;
                        alloc_use_block c' sz alignment b (b_data blk)
                      })
                 });
              debug_check c2;
              Some (umf_result, Some result, c2)
            }))"

definition coarse_free :: "'p coarse_t \<Rightarrow> addr \<Rightarrow> u64 \<Rightarrow> (umf_result \<times> 'p coarse_t) option" where
  "coarse_free c p bytes =
     (if p = 0 then Some (UMF_RESULT_SUCCESS, c)
      else
       (case mutex_lock (c_host c) of
          (False, s) \<Rightarrow> Some (UMF_RESULT_ERROR_UNKNOWN, c\<lparr>c_host := s\<rparr>)
        | (True, s) \<Rightarrow> do {
            let c0 = c\<lparr>c_host := s\<rparr>;
            debug_check c0;
            found \<leftarrow> coarse_ravl_find_node (c_all c0) p;
            (case found of
               None \<Rightarrow> Some (UMF_RESULT_ERROR_INVALID_ARGUMENT, c0)
             | Some node \<Rightarrow> do {
                 block \<leftarrow> get_node_block (c_all c0) node;
                 blk \<leftarrow> c_blocks c0 block;
                 used \<leftarrow> b_used blk;
                 if \<not> used then Some (UMF_RESULT_ERROR_INVALID_ARGUMENT, c0)
                 else if bytes > 0 \<and> bytes \<noteq> b_size blk then Some (UMF_RESULT_ERROR_INVALID_ARGUMENT, c0)
                 else do {
                   assert_that (c_used_size c0 \<ge> b_size blk);
                   let c1 = c0\<lparr>c_used_size := c_used_size c0 - b_size blk\<rparr>;
                   c2 \<leftarrow> upd_block (\<lambda>b. b\<lparr>b_used := Some False\<rparr>) block c1;
                   (node1, c3) \<leftarrow> free_block_merge_with_prev c2 node;
                   (node2, c4) \<leftarrow> free_block_merge_with_next c3 node1;
                   b \<leftarrow> get_node_block (c_all c4) node2;
                   (rv, c5) \<leftarrow> free_blocks_add c4 b;
                   if rv \<noteq> 0 then Some (UMF_RESULT_ERROR_OUT_OF_HOST_MEMORY, c5)
                   else do {
                     debug_check c5;
                     Some (UMF_RESULT_SUCCESS, c5)
                   }
                 }
               })
          }))"

definition coarse_add_memory_from_provider ::
  "'p coarse_t \<Rightarrow> u64 \<Rightarrow> (umf_result \<times> 'p coarse_t) option" where
  "coarse_add_memory_from_provider c sz =
     (if sz = 0 then Some (UMF_RESULT_ERROR_INVALID_ARGUMENT, c)
      else if cb_alloc (c_cb c) = None then Some (UMF_RESULT_ERROR_NOT_SUPPORTED, c)
      else do {
        (umf_result, result, c1) \<leftarrow> coarse_alloc c sz (c_page_size c);
        if umf_result \<noteq> UMF_RESULT_SUCCESS then Some (umf_result, c1)
        else do {
          p \<leftarrow> result;
          assert_that (p \<noteq> 0);
          coarse_free c1 p sz
        }
      })"

definition coarse_add_memory_fixed ::
  "'p coarse_t \<Rightarrow> addr \<Rightarrow> u64 \<Rightarrow> (umf_result \<times> 'p coarse_t) option" where
  "coarse_add_memory_fixed c addr sz =
     (if addr = 0 \<or> sz = 0 then Some (UMF_RESULT_ERROR_INVALID_ARGUMENT, c)
      else if cb_alloc (c_cb c) \<noteq> None \<or> cb_free (c_cb c) \<noteq> None
      then Some (UMF_RESULT_ERROR_NOT_SUPPORTED, c)
      else
       (case mutex_lock (c_host c) of
          (False, s) \<Rightarrow> Some (UMF_RESULT_ERROR_UNKNOWN, c\<lparr>c_host := s\<rparr>)
        | (True, s) \<Rightarrow> do {
            let c0 = c\<lparr>c_host := s\<rparr>;
            debug_check c0;
            (umf_result, c1) \<leftarrow> coarse_add_used_block c0 addr sz;
            debug_check c1;
            if umf_result \<noteq> UMF_RESULT_SUCCESS then Some (umf_result, c1)
            else coarse_free c1 addr sz
          }))"

definition coarse_merge ::
  "'p coarse_t \<Rightarrow> addr \<Rightarrow> addr \<Rightarrow> u64 \<Rightarrow> (umf_result \<times> 'p coarse_t) option" where
  "coarse_merge c lowPtr highPtr totalSize =
     (if lowPtr = 0 \<or> highPtr = 0 \<or> totalSize = 0 \<or> highPtr \<le> lowPtr \<or> highPtr - lowPtr \<ge> totalSize
      then Some (UMF_RESULT_ERROR_INVALID_ARGUMENT, c)
      else
       (case mutex_lock (c_host c) of
          (False, s) \<Rightarrow> Some (UMF_RESULT_ERROR_UNKNOWN, c\<lparr>c_host := s\<rparr>)
        | (True, s) \<Rightarrow> do {
            let c0 = c\<lparr>c_host := s\<rparr>;
            debug_check c0;
            (umf_result, c1) \<leftarrow> (do {
              found_low \<leftarrow> coarse_ravl_find_node (c_all c0) lowPtr;
              (case found_low of
                 None \<Rightarrow> Some (UMF_RESULT_ERROR_INVALID_ARGUMENT, c0)
               | Some low_node \<Rightarrow> do {
                   low_block \<leftarrow> get_node_block (c_all c0) low_node;
                   lblk \<leftarrow> c_blocks c0 low_block;
                   lused \<leftarrow> b_used lblk;
                   if \<not> lused then Some (UMF_RESULT_ERROR_INVALID_ARGUMENT, c0)
                   else do {
                     found_high \<leftarrow> coarse_ravl_find_node (c_all c0) highPtr;
                     (case found_high of
                        None \<Rightarrow> Some (UMF_RESULT_ERROR_INVALID_ARGUMENT, c0)
                      | Some high_node \<Rightarrow> do {
                          high_block \<leftarrow> get_node_block (c_all c0) high_node;
                          hblk \<leftarrow> c_blocks c0 high_block;
                          hused \<leftarrow> b_used hblk;
                          if \<not> hused then Some (UMF_RESULT_ERROR_INVALID_ARGUMENT, c0)
                          else do {
                            nx \<leftarrow> get_node_next (c_all c0) low_node;
                            if nx \<noteq> Some high_node \<or> highPtr \<noteq> lowPtr + b_size lblk
                            then Some (UMF_RESULT_ERROR_INVALID_ARGUMENT, c0)
                            else do {
                              pr \<leftarrow> get_node_prev (c_all c0) high_node;
                              assert_that (pr = Some low_node);
                              if b_size lblk + b_size hblk \<noteq> totalSize
                              then Some (UMF_RESULT_ERROR_INVALID_ARGUMENT, c0)
                              else do {
                                (umf_result, merged_node, c1) \<leftarrow>
                                   user_block_merge c0 low_node high_node True;
                                if umf_result \<noteq> UMF_RESULT_SUCCESS then Some (umf_result, c1)
                                else do {
                                  assert_that (merged_node = Some low_node);
                                  lblk1 \<leftarrow> c_blocks c1 low_block;
                                  assert_that (b_size lblk1 = totalSize);
                                  Some (UMF_RESULT_SUCCESS, c1)
                                }
                              }
                            }
                          }
                        })
                   }
                 })
            });
            debug_check c1;
            Some (umf_result, c1)
          }))"

definition coarse_split ::
  "'p coarse_t \<Rightarrow> addr \<Rightarrow> u64 \<Rightarrow> u64 \<Rightarrow> (umf_result \<times> 'p coarse_t) option" where
  "coarse_split c p totalSize firstSize =
     (if p = 0 \<or> firstSize \<ge> totalSize \<or> firstSize = 0 \<or> totalSize = 0
      then Some (UMF_RESULT_ERROR_INVALID_ARGUMENT, c)
      else
       (case mutex_lock (c_host c) of
          (False, s) \<Rightarrow> Some (UMF_RESULT_ERROR_UNKNOWN, c\<lparr>c_host := s\<rparr>)
        | (True, s) \<Rightarrow> do {
            let c0 = c\<lparr>c_host := s\<rparr>;
            debug_check c0;
            (umf_result, c1) \<leftarrow> (do {
              found \<leftarrow> coarse_ravl_find_node (c_all c0) p;
              (case found of
                 None \<Rightarrow> Some (UMF_RESULT_ERROR_INVALID_ARGUMENT, c0)
               | Some node \<Rightarrow> do {
                   block \<leftarrow> get_node_block (c_all c0) node;
                   blk \<leftarrow> c_blocks c0 block;
                   if b_size blk \<noteq> totalSize then Some (UMF_RESULT_ERROR_INVALID_ARGUMENT, c0)
                   else do {
                     used \<leftarrow> b_used blk;
                     if \<not> used then Some (UMF_RESULT_ERROR_INVALID_ARGUMENT, c0)
                     else do {
                       (umf_result, c1) \<leftarrow> can_provider_split c0 p totalSize firstSize;
                       if umf_result \<noteq> UMF_RESULT_SUCCESS then Some (umf_result, c1)
                       else do {
                         (new_block, _, c2) \<leftarrow>
                            coarse_ravl_add_new c1 (b_data blk + firstSize) (b_size blk - firstSize);
                         (case new_block of
                            None \<Rightarrow> Some (UMF_RESULT_ERROR_OUT_OF_HOST_MEMORY, c2)
                          | Some nb \<Rightarrow> do {
                              c3 \<leftarrow> upd_block (\<lambda>b. b\<lparr>b_size := firstSize\<rparr>) block c2;
                              c4 \<leftarrow> upd_block (\<lambda>b. b\<lparr>b_used := Some True\<rparr>) nb c3;
                              nblk \<leftarrow> c_blocks c4 nb;
                              assert_that (b_size nblk = totalSize - firstSize);
                              Some (UMF_RESULT_SUCCESS, c4)
                            })
                       }
                     }
                   }
                 })
            });
            debug_check c1;
            Some (umf_result, c1)
          }))"

definition coarse_get_stats :: "'p coarse_t \<Rightarrow> (coarse_stats_t \<times> 'p coarse_t) option" where
  "coarse_get_stats c =
     (case mutex_lock (c_host c) of
        (False, s) \<Rightarrow>
          Some (\<lparr>st_alloc_size = 0, st_used_size = 0, st_num_all_blocks = 0, st_num_free_blocks = 0\<rparr>,
                c\<lparr>c_host := s\<rparr>)
      | (True, s) \<Rightarrow> do {
          let c0 = c\<lparr>c_host := s\<rparr>;
          stats \<leftarrow> coarse_get_stats_no_lock c0;
          Some (stats, c0)
        })"

end
