(* ===== verification/Coarse_Lists.thy ===== *)
theory Coarse_Lists
  imports Coarse
begin

text \<open>
  The doubly linked lists of free blocks of the coarse allocator, and the invariant of
  the free blocks. \<open>free_inv c F\<close> says that exactly the blocks in \<open>F\<close> are linked, each in
  the list of its size, with consistent back pointers; \<open>free_frame\<close> says what an operation
  on the lists leaves unchanged. The lemmas give the lists after an element is unlinked.
\<close>

section \<open>The comparison function\<close>

lemma coarse_comp_by: "cmp_by rd_key coarse_ravl_comp"
  by (auto simp: cmp_by_def coarse_ravl_comp_def)

section \<open>Doubly linked lists\<close>

definition next_or :: "(ptr \<times> ptr) list \<Rightarrow> ref \<Rightarrow> ref" where
  "next_or xs n = (if xs = [] then n else head_ref xs)"

definition prev_or :: "(ptr \<times> ptr) list \<Rightarrow> ref \<Rightarrow> ref" where
  "prev_or xs p = (if xs = [] then p else last_ref xs)"

text \<open>
  \<open>dll h p xs n\<close>: the elements \<open>xs\<close> (addresses with the blocks they carry) form a segment
  whose first element points back to \<open>p\<close> and whose last points forward to \<open>n\<close>.
\<close>

fun dll :: "free_elem heap \<Rightarrow> ref \<Rightarrow> (ptr \<times> ptr) list \<Rightarrow> ref \<Rightarrow> bool" where
  "dll h p [] n = True"
| "dll h p ((e, b) # xs) n =
     (h e = Some \<lparr>fe_block = b, fe_next = next_or xs n, fe_prev = p\<rparr> \<and> dll h (Some e) xs n)"

lemma next_or_simps [simp]:
  "next_or [] n = n" "next_or (x # xs) n = Some (fst x)" "next_or xs None = head_ref xs"
  by (auto simp: next_or_def)

lemma prev_or_simps [simp]:
  "prev_or [] p = p" "prev_or xs None = last_ref xs"
  by (auto simp: prev_or_def)

lemma next_or_append [simp]: "next_or (xs @ ys) n = next_or xs (next_or ys n)"
  by (auto simp: next_or_def)

lemma prev_or_Cons [simp]: "prev_or (x # xs) p = prev_or xs (Some (fst x))"
  by (cases xs rule: rev_cases) (auto simp: prev_or_def last_ref_def)

lemma dll_append: "dll h p (xs @ ys) n \<longleftrightarrow> dll h p xs (next_or ys n) \<and> dll h (prev_or xs p) ys n"
proof (induction xs arbitrary: p)
  case (Cons x xs)
  then show ?case by (cases x) simp
qed simp

lemma dll_frame [simp]: "a \<notin> fst ` set xs \<Longrightarrow> dll (h(a := v)) p xs n = dll h p xs n"
  by (induction xs arbitrary: p) (auto split: prod.splits)

lemma dll_cong: "(\<And>a. a \<in> fst ` set xs \<Longrightarrow> h a = h' a) \<Longrightarrow> dll h p xs n = dll h' p xs n"
  by (induction xs arbitrary: p) (auto split: prod.splits)

lemma dll_dom: "dll h p xs n \<Longrightarrow> fst ` set xs \<subseteq> dom h"
  by (induction h p xs n rule: dll.induct) auto

text \<open>Redirecting the back pointer of the first and the forward pointer of the last element.\<close>

definition set_prev :: "(ptr \<times> ptr) list \<Rightarrow> ref \<Rightarrow> free_elem heap \<Rightarrow> free_elem heap" where
  "set_prev xs p h = (case head_ref xs of None \<Rightarrow> h
     | Some x \<Rightarrow> h(x := map_option (\<lambda>e. e\<lparr>fe_prev := p\<rparr>) (h x)))"

definition set_next :: "(ptr \<times> ptr) list \<Rightarrow> ref \<Rightarrow> free_elem heap \<Rightarrow> free_elem heap" where
  "set_next xs n h = (case last_ref xs of None \<Rightarrow> h
     | Some x \<Rightarrow> h(x := map_option (\<lambda>e. e\<lparr>fe_next := n\<rparr>) (h x)))"

lemma head_ref_in: "head_ref xs = Some x \<Longrightarrow> x \<in> fst ` set xs"
  by (cases xs) auto

lemma last_ref_in: "last_ref xs = Some x \<Longrightarrow> x \<in> fst ` set xs"
  by (cases xs rule: rev_cases) auto

lemma set_prev_other [simp]: "a \<notin> fst ` set xs \<Longrightarrow> set_prev xs p h a = h a"
  by (auto simp: set_prev_def dest: head_ref_in split: option.split)

lemma set_next_other [simp]: "a \<notin> fst ` set xs \<Longrightarrow> set_next xs n h a = h a"
  by (auto simp: set_next_def dest: last_ref_in split: option.split)

lemma dom_set_prev [simp]: "dom (set_prev xs p h) = dom h"
  by (auto simp: set_prev_def split: option.splits if_splits)

lemma dom_set_next [simp]: "dom (set_next xs n h) = dom h"
  by (auto simp: set_next_def split: option.splits if_splits)

lemma dll_set_prev: "dll h p xs n \<Longrightarrow> distinct (map fst xs) \<Longrightarrow> dll (set_prev xs q h) q xs n"
  by (cases xs) (auto simp: set_prev_def)

lemma dll_set_next:
  assumes "dll h p xs n" "distinct (map fst xs)"
  shows "dll (set_next xs m h) p xs m"
proof (cases xs rule: rev_cases)
  case (snoc ys y)
  obtain e b where y: "y = (e, b)" by (cases y)
  have "e \<notin> fst ` set ys" using assms(2) by (simp add: snoc y)
  then show ?thesis
    using assms(1) by (simp add: snoc y set_next_def dll_append)
qed simp

lemma dll_set_prev_other [simp]:
  "fst ` set xs \<inter> fst ` set ys = {} \<Longrightarrow> dll (set_prev ys q h) p xs n = dll h p xs n"
  by (rule dll_cong) (auto intro!: set_prev_other)

lemma dll_set_next_other [simp]:
  "fst ` set xs \<inter> fst ` set ys = {} \<Longrightarrow> dll (set_next ys q h) p xs n = dll h p xs n"
  by (rule dll_cong) (auto intro!: set_next_other)

section \<open>Removing an element from a list\<close>

lemma upd_prev_step:
  "fst ` set xs \<subseteq> dom (c_elems c) \<Longrightarrow>
   (case head_ref xs of None \<Rightarrow> Some c | Some x \<Rightarrow> upd_elem (\<lambda>e. e\<lparr>fe_prev := q\<rparr>) x c) =
     Some (c\<lparr>c_elems := set_prev xs q (c_elems c)\<rparr>)"
  by (cases xs) (auto simp: upd_elem_def set_prev_def)

lemma upd_next_step:
  "fst ` set xs \<subseteq> dom (c_elems c) \<Longrightarrow>
   (case last_ref xs of None \<Rightarrow> Some c | Some x \<Rightarrow> upd_elem (\<lambda>e. e\<lparr>fe_next := q\<rparr>) x c) =
     Some (c\<lparr>c_elems := set_next xs q (c_elems c)\<rparr>)"
  by (cases xs rule: rev_cases) (auto simp: upd_elem_def set_next_def)

text \<open>The state after unlinking \<open>(e, b)\<close> from the list \<open>us @ (e, b) # vs\<close> of head \<open>hn\<close>.\<close>

definition unlinked ::
  "'p coarse_t \<Rightarrow> ptr \<Rightarrow> (ptr \<times> ptr) list \<Rightarrow> ptr \<Rightarrow> ptr \<Rightarrow> (ptr \<times> ptr) list \<Rightarrow> 'p coarse_t" where
  "unlinked c hn us e b vs =
     c\<lparr>c_heads := (c_heads c)(hn \<mapsto> head_ref (us @ vs)),
       c_elems := (set_next us (head_ref vs) (set_prev vs (last_ref us) (c_elems c)))(e := None),
       c_blocks := (c_blocks c)(b := map_option (\<lambda>x. x\<lparr>b_free_list_ptr := None\<rparr>) (c_blocks c b))\<rparr>"

lemma head_ref_eq_mid:
  assumes "distinct (map fst (us @ (e, b) # vs))"
  shows "head_ref (us @ (e, b) # vs) = Some e \<longleftrightarrow> us = []"
  using assms by (cases us) auto

lemma node_list_rm_eval:
  assumes head: "c_heads c hn = Some (head_ref (us @ (e, b) # vs))"
    and dll: "dll (c_elems c) None (us @ (e, b) # vs) None"
    and dist: "distinct (map fst (us @ (e, b) # vs))"
    and blk: "c_blocks c b = Some blk"
  shows "node_list_rm c hn e = Some (b, unlinked c hn us e b vs)"
proof -
  let ?h = "c_elems c"
  have e: "?h e = Some \<lparr>fe_block = b, fe_next = head_ref vs, fe_prev = last_ref us\<rparr>"
    using dll by (simp add: dll_append)
  have dom: "fst ` set vs \<subseteq> dom ?h" "fst ` set us \<subseteq> dom ?h" using dll_dom [OF dll] by auto
  let ?c1 = "c\<lparr>c_heads := (c_heads c)(hn \<mapsto> head_ref (us @ vs))\<rparr>"
  have head_step: "(if Some e = head_ref (us @ (e, b) # vs) then do {
              assert_that (last_ref us = None);
              set_head hn (head_ref vs) c
            } else Some c) = Some ?c1"
  proof (cases "us = []")
    case True
    then show ?thesis using head by (simp add: set_head_def)
  next
    case False
    have "c_heads c hn = Some (head_ref (us @ vs))" using head False by (cases us) auto
    then have "(c_heads c)(hn \<mapsto> head_ref (us @ vs)) = c_heads c" by (metis fun_upd_triv)
    then have "?c1 = c" by simp
    moreover have "Some e \<noteq> head_ref (us @ (e, b) # vs)" using head_ref_eq_mid [OF dist] False by metis
    ultimately show ?thesis by simp
  qed
  let ?c2 = "?c1\<lparr>c_elems := set_prev vs (last_ref us) ?h\<rparr>"
  have s2: "(case head_ref vs of None \<Rightarrow> Some ?c1
      | Some x \<Rightarrow> upd_elem (\<lambda>e. e\<lparr>fe_prev := last_ref us\<rparr>) x ?c1) = Some ?c2"
    using upd_prev_step [of vs ?c1 "last_ref us"] dom by simp
  let ?c3 = "?c1\<lparr>c_elems := set_next us (head_ref vs) (set_prev vs (last_ref us) ?h)\<rparr>"
  have s3: "(case last_ref us of None \<Rightarrow> Some ?c2
      | Some x \<Rightarrow> upd_elem (\<lambda>e. e\<lparr>fe_next := head_ref vs\<rparr>) x ?c2) = Some ?c3"
    using upd_next_step [of us ?c2 "head_ref vs"] dom by simp
  have "head_ref (us @ (e, b) # vs) \<noteq> None" using head_ref_Some [of "us @ (e, b) # vs"] by auto
  then show ?thesis
    unfolding node_list_rm_def head e bind.bind_lunit free_elem.simps head_step s2 s3
    by (simp add: upd_block_def blk unlinked_def)
qed

lemma unlinked_dll:
  assumes "dll (c_elems c) None (us @ (e, b) # vs) None" "distinct (map fst (us @ (e, b) # vs))"
  shows "dll (c_elems (unlinked c hn us e b vs)) None (us @ vs) None"
proof -
  have d: "e \<notin> fst ` set us" "e \<notin> fst ` set vs" "fst ` set us \<inter> fst ` set vs = {}"
    "distinct (map fst us)" "distinct (map fst vs)"
    using assms(2) by auto
  have "dll (c_elems c) None us (Some e)" "dll (c_elems c) (Some e) vs None"
    using assms(1) by (simp_all add: dll_append)
  then have "dll (set_next us (head_ref vs) (set_prev vs (last_ref us) (c_elems c))) None us (head_ref vs)"
    "dll (set_prev vs (last_ref us) (c_elems c)) (last_ref us) vs None"
    using d by (auto intro!: dll_set_next dll_set_prev)
  then show ?thesis
    using d by (simp add: unlinked_def dll_append Int_commute)
qed

lemma unlinked_elems_other:
  "a \<notin> fst ` set (us @ (e, b) # vs) \<Longrightarrow> c_elems (unlinked c hn us e b vs) a = c_elems c a"
  by (simp add: unlinked_def image_Un)

lemma dom_unlinked_elems: "dom (c_elems (unlinked c hn us e b vs)) = dom (c_elems c) - {e}"
  by (simp add: unlinked_def)

lemma node_list_rm_first_eval:
  assumes head: "c_heads c hn = Some (Some e)"
    and dll: "dll (c_elems c) None ((e, b) # vs) None"
    and blk: "c_blocks c b = Some blk"
  shows "node_list_rm_first c hn alignment =
    (if IS_NOT_ALIGNED (b_data blk) alignment then Some (None, c)
     else Some (Some b, unlinked c hn [] e b vs))"
proof -
  have dom: "fst ` set vs \<subseteq> dom (c_elems c)" using dll_dom [OF dll] by auto
  note step = upd_prev_step [OF dom, of None]
  have "c_elems c e = Some \<lparr>fe_block = b, fe_next = head_ref vs, fe_prev = None\<rparr>" using dll by simp
  then show ?thesis
    unfolding node_list_rm_first_def
    using head blk step by (simp add: set_head_def upd_block_def unlinked_def set_next_def)
qed

section \<open>The invariant of the free blocks\<close>

record flist =
  fl_node :: ptr
  fl_size :: u64
  fl_head :: ptr
  fl_elems :: "(ptr \<times> ptr) list"

definition fentry :: "flist \<Rightarrow> ptr \<times> ravl_data_t" where
  "fentry f = (fl_node f, \<lparr>rd_key = fl_size f, rd_value = Some (fl_head f)\<rparr>)"

definition felems :: "flist list \<Rightarrow> (ptr \<times> ptr) list" where
  "felems fls = concat (map fl_elems fls)"

text \<open>One list: its head, its elements, and the blocks that they carry.\<close>

definition list_ok :: "'p coarse_t \<Rightarrow> flist \<Rightarrow> bool" where
  "list_ok c f \<longleftrightarrow>
     c_heads c (fl_head f) = Some (head_ref (fl_elems f)) \<and>
     dll (c_elems c) None (fl_elems f) None \<and> fl_elems f \<noteq> [] \<and>
     (\<forall>(e, b) \<in> set (fl_elems f).
        \<exists>blk. c_blocks c b = Some blk \<and> b_size blk = fl_size f \<and> b_free_list_ptr blk = Some e)"

definition lists_rep :: "'p coarse_t \<Rightarrow> flist list \<Rightarrow> bool" where
  "lists_rep c fls \<longleftrightarrow>
     (\<forall>f\<in>set fls. list_ok c f) \<and>
     distinct (map fl_head fls) \<and> dom (c_heads c) = fl_head ` set fls \<and>
     distinct (map fst (felems fls)) \<and> dom (c_elems c) = fst ` set (felems fls) \<and>
     (\<forall>b blk. c_blocks c b = Some blk \<longrightarrow> b \<notin> snd ` set (felems fls) \<longrightarrow> b_free_list_ptr blk = None)"

definition free_rep :: "'p coarse_t \<Rightarrow> flist list \<Rightarrow> bool" where
  "free_rep c fls \<longleftrightarrow> ravl_index rd_key (c_free c) (map fentry fls) \<and> lists_rep c fls"

definition free_inv :: "'p coarse_t \<Rightarrow> ptr set \<Rightarrow> bool" where
  "free_inv c F \<longleftrightarrow> (\<exists>fls. free_rep c fls \<and> F = snd ` set (felems fls))"

text \<open>Every identifier in use is below the next one of the host.\<close>

definition fresh_ids :: "'p coarse_t \<Rightarrow> bool" where
  "fresh_ids c \<longleftrightarrow>
     (\<forall>a \<in> dom (ravl_nodes (c_all c)) \<union> dom (ravl_nodes (c_free c)) \<union> dom (c_blocks c) \<union>
           dom (c_heads c) \<union> dom (c_elems c). a < next_id (c_host c))"

text \<open>What an operation on the free blocks leaves unchanged.\<close>

definition block_core :: "block_t \<Rightarrow> u64 \<times> addr \<times> bool option" where
  "block_core blk = (b_size blk, b_data blk, b_used blk)"

definition free_frame :: "'p coarse_t \<Rightarrow> 'p coarse_t \<Rightarrow> bool" where
  "free_frame c c' \<longleftrightarrow>
     c_provider c' = c_provider c \<and> c_cb c' = c_cb c \<and> c_strategy c' = c_strategy c \<and>
     c_page_size c' = c_page_size c \<and> c_all c' = c_all c \<and> c_used_size c' = c_used_size c \<and>
     c_alloc_size c' = c_alloc_size c \<and> oom (c_host c') = oom (c_host c) \<and>
     lock_fail (c_host c') = lock_fail (c_host c) \<and> next_id (c_host c) \<le> next_id (c_host c') \<and>
     (\<forall>b. map_option block_core (c_blocks c' b) = map_option block_core (c_blocks c b))"

lemma free_frame_trans: "free_frame c c' \<Longrightarrow> free_frame c' c'' \<Longrightarrow> free_frame c c''"
  by (simp add: free_frame_def)

lemma felems_simps [simp]:
  "felems [] = []" "felems (f # fls) = fl_elems f @ felems fls" "felems (xs @ ys) = felems xs @ felems ys"
  by (simp_all add: felems_def)

lemma free_rep_elem:
  assumes "free_rep c fls" "b \<in> snd ` set (felems fls)"
  obtains xs f ys us e vs blk where "fls = xs @ f # ys" "fl_elems f = us @ (e, b) # vs"
    "c_blocks c b = Some blk" "b_size blk = fl_size f" "b_free_list_ptr blk = Some e"
proof -
  obtain e f where e: "(e, b) \<in> set (fl_elems f)" "f \<in> set fls"
    using assms(2) by (auto simp: felems_def)
  then obtain us vs where "fl_elems f = us @ (e, b) # vs" by (meson split_list)
  moreover obtain xs ys where "fls = xs @ f # ys" using e(2) by (meson split_list)
  moreover have "list_ok c f" using assms(1) e(2) by (simp add: free_rep_def lists_rep_def)
  ultimately show thesis using that e(1) by (fastforce simp: list_ok_def)
qed

text \<open>The node of the tree that holds a head plays no role for the lists.\<close>

definition fcore :: "flist \<Rightarrow> u64 \<times> ptr \<times> (ptr \<times> ptr) list" where
  "fcore f = (fl_size f, fl_head f, fl_elems f)"

lemma map_fcoreD:
  assumes "map fcore fls = map fcore gls"
  shows "map fl_head fls = map fl_head gls" "felems fls = felems gls"
    "(\<forall>f\<in>set fls. list_ok c f) = (\<forall>f\<in>set gls. list_ok c f)"
proof -
  have "list_all2 (\<lambda>f g. fcore f = fcore g) fls gls"
    using assms by (simp add: list_all2_conv_all_nth list_eq_iff_nth_eq)
  then have "map fl_head fls = map fl_head gls \<and> felems fls = felems gls \<and>
      (\<forall>f\<in>set fls. list_ok c f) = (\<forall>f\<in>set gls. list_ok c f)"
    by (induction rule: list_all2_induct) (auto simp: fcore_def list_ok_def)
  then show "map fl_head fls = map fl_head gls" "felems fls = felems gls"
    "(\<forall>f\<in>set fls. list_ok c f) = (\<forall>f\<in>set gls. list_ok c f)" by auto
qed

lemma lists_rep_cong:
  assumes "map fcore fls = map fcore gls"
  shows "lists_rep c fls = lists_rep c gls"
proof -
  have "fl_head ` set fls = fl_head ` set gls" using map_fcoreD(1) [OF assms] by (metis set_map)
  then show ?thesis
    unfolding lists_rep_def map_fcoreD(1,2) [OF assms] map_fcoreD(3) [OF assms, of c] by simp
qed

lemma removed_fentry:
  assumes "removed_at (fl_node f) (map fentry xs) (map fentry ys) es"
  obtains ys2 where "es = map fentry (xs @ ys2)" "map fcore ys2 = map fcore ys"
proof -
  consider "es = map fentry (xs @ ys)"
    | s d y where "map fentry ys = (s, d) # y" "es = map fentry xs @ (fl_node f, d) # y"
    using assms by (auto simp: removed_at_def)
  then show thesis
  proof cases
    case 1
    then show thesis using that by blast
  next
    case 2
    then obtain y0 ys' where "ys = y0 # ys'" "fentry y0 = (s, d)" "y = map fentry ys'"
      by (cases ys) auto
    then show thesis
      using 2 by (intro that [of "y0\<lparr>fl_node := fl_node f\<rparr> # ys'"]) (auto simp: fentry_def fcore_def)
  qed
qed

lemma distinct_snd:
  "distinct (map fst xs) \<Longrightarrow> \<forall>(e, b) \<in> set xs. g b = Some e \<Longrightarrow> distinct (map snd xs)"
proof (induction xs)
  case (Cons x xs)
  have "snd x \<notin> snd ` set xs"
  proof
    assume "snd x \<in> snd ` set xs"
    then obtain y where "y \<in> set xs" "snd y = snd x" by auto
    then have "fst x = fst y" using Cons.prems(2) by (cases x, cases y) auto
    then show False using Cons.prems(1) \<open>y \<in> set xs\<close> by auto
  qed
  then show ?case using Cons by auto
qed simp

lemma lists_rep_distinct_snd:
  assumes "lists_rep c fls"
  shows "distinct (map snd (felems fls))"
proof (rule distinct_snd)
  show "distinct (map fst (felems fls))" using assms by (simp add: lists_rep_def)
  show "\<forall>(e, b) \<in> set (felems fls). (Option.bind (c_blocks c b) b_free_list_ptr) = Some e"
    using assms by (fastforce simp: lists_rep_def list_ok_def felems_def)
qed

lemma list_ok_cong:
  assumes "list_ok c g" "c_heads c' (fl_head g) = c_heads c (fl_head g)"
    and "\<And>a. a \<in> fst ` set (fl_elems g) \<Longrightarrow> c_elems c' a = c_elems c a"
    and "\<And>e b. (e, b) \<in> set (fl_elems g) \<Longrightarrow> c_blocks c' b = c_blocks c b"
  shows "list_ok c' g"
proof -
  have "dll (c_elems c') None (fl_elems g) None = dll (c_elems c) None (fl_elems g) None"
    by (rule dll_cong) (rule assms(3))
  moreover have "(\<forall>(e, b) \<in> set (fl_elems g). \<exists>blk. c_blocks c' b = Some blk \<and> b_size blk = fl_size g \<and>
      b_free_list_ptr blk = Some e) = (\<forall>(e, b) \<in> set (fl_elems g). \<exists>blk. c_blocks c b = Some blk \<and>
      b_size blk = fl_size g \<and> b_free_list_ptr blk = Some e)"
    using assms(4) by (intro ball_cong) auto
  ultimately show ?thesis using assms(1,2) unfolding list_ok_def by simp
qed

lemma list_ok_unlinked_other:
  assumes "list_ok c g" "fl_head g \<noteq> hn" "fst ` set (fl_elems g) \<inter> fst ` set (us @ (e, b) # vs) = {}"
    and "b \<notin> snd ` set (fl_elems g)"
  shows "list_ok (unlinked c hn us e b vs) g"
proof (rule list_ok_cong [OF assms(1)])
  show "c_heads (unlinked c hn us e b vs) (fl_head g) = c_heads c (fl_head g)"
    using assms(2) by (simp add: unlinked_def)
  show "c_elems (unlinked c hn us e b vs) a = c_elems c a" if "a \<in> fst ` set (fl_elems g)" for a
    using assms(3) that by (intro unlinked_elems_other) blast
  show "c_blocks (unlinked c hn us e b vs) x = c_blocks c x" if "(a, x) \<in> set (fl_elems g)" for a x
  proof -
    have "x \<noteq> b" using assms(4) that by force
    then show ?thesis by (simp add: unlinked_def)
  qed
qed

lemma list_ok_unlinked_self:
  assumes "list_ok c f" "fl_elems f = us @ (e, b) # vs" "us @ vs \<noteq> []"
    and "distinct (map fst (fl_elems f))" "b \<notin> snd ` set (us @ vs)"
  shows "list_ok (unlinked c (fl_head f) us e b vs) (f\<lparr>fl_elems := us @ vs\<rparr>)"
proof -
  let ?c = "unlinked c (fl_head f) us e b vs"
  have "dll (c_elems ?c) None (us @ vs) None"
    using assms by (intro unlinked_dll) (simp_all add: list_ok_def)
  moreover have "\<exists>blk. c_blocks ?c x = Some blk \<and> b_size blk = fl_size f \<and> b_free_list_ptr blk = Some a"
    if "(a, x) \<in> set (us @ vs)" for a x
  proof -
    have "x \<noteq> b" using assms(5) that by force
    then have "c_blocks ?c x = c_blocks c x" by (simp add: unlinked_def)
    moreover have "(a, x) \<in> set (fl_elems f)" using that assms(2) by auto
    ultimately show ?thesis using assms(1) unfolding list_ok_def by fastforce
  qed
  moreover have "c_heads ?c (fl_head f) = Some (head_ref (us @ vs))" by (simp add: unlinked_def)
  ultimately show ?thesis using assms(3) unfolding list_ok_def by auto
qed

lemma lists_rep_split:
  assumes "lists_rep c (xs @ f # ys)" "fl_elems f = us @ (e, b) # vs"
  shows "\<forall>g\<in>set (xs @ ys). list_ok c g \<and> fl_head g \<noteq> fl_head f \<and>
      fst ` set (fl_elems g) \<inter> fst ` set (us @ (e, b) # vs) = {} \<and> b \<notin> snd ` set (fl_elems g)"
    and "b \<notin> snd ` set (us @ vs)" "b \<notin> snd ` set (felems xs @ us @ vs @ felems ys)"
    and "e \<notin> fst ` set (felems xs @ us @ vs @ felems ys)"
proof -
  have d1: "distinct (map fst (felems xs @ (us @ (e, b) # vs) @ felems ys))"
    using assms by (simp add: lists_rep_def)
  have d2: "distinct (map snd (felems xs @ (us @ (e, b) # vs) @ felems ys))"
    using lists_rep_distinct_snd [OF assms(1)] assms(2) by simp
  show "b \<notin> snd ` set (us @ vs)" "b \<notin> snd ` set (felems xs @ us @ vs @ felems ys)"
    "e \<notin> fst ` set (felems xs @ us @ vs @ felems ys)"
    using d1 d2 by auto
  have sub: "set (fl_elems g) \<subseteq> set (felems xs) \<union> set (felems ys)" if "g \<in> set (xs @ ys)" for g
    using that by (auto simp: felems_def)
  have dj: "fst ` (set (felems xs) \<union> set (felems ys)) \<inter> fst ` set (us @ (e, b) # vs) = {}"
    "b \<notin> snd ` (set (felems xs) \<union> set (felems ys))"
    using d1 d2 by auto
  show "\<forall>g\<in>set (xs @ ys). list_ok c g \<and> fl_head g \<noteq> fl_head f \<and>
      fst ` set (fl_elems g) \<inter> fst ` set (us @ (e, b) # vs) = {} \<and> b \<notin> snd ` set (fl_elems g)"
  proof (intro ballI conjI)
    fix g assume g: "g \<in> set (xs @ ys)"
    show "list_ok c g" using assms(1) g by (auto simp: lists_rep_def)
    have "fl_head f \<notin> fl_head ` set (xs @ ys)" using assms(1) by (simp add: lists_rep_def image_Un)
    then show "fl_head g \<noteq> fl_head f" using g by (metis imageI)
    show "fst ` set (fl_elems g) \<inter> fst ` set (us @ (e, b) # vs) = {}" "b \<notin> snd ` set (fl_elems g)"
      using image_mono [OF sub [OF g], of fst] image_mono [OF sub [OF g], of snd] dj by blast+
  qed
qed

lemma unlinked_frame: "free_frame c (unlinked c hn us e b vs)"
  by (cases "c_blocks c b") (auto simp: free_frame_def unlinked_def block_core_def)

lemma unlinked_fresh:
  assumes "fresh_ids c" "hn \<in> dom (c_heads c)"
  shows "fresh_ids (unlinked c hn us e b vs)"
proof -
  have "dom (c_blocks (unlinked c hn us e b vs)) = dom (c_blocks c)"
    by (auto simp: unlinked_def split: if_splits)
  moreover have "dom (c_heads (unlinked c hn us e b vs)) = dom (c_heads c)"
    using assms(2) by (auto simp: unlinked_def)
  moreover have "dom (c_elems (unlinked c hn us e b vs)) = dom (c_elems c) - {e}"
    by (rule dom_unlinked_elems)
  ultimately show ?thesis using assms(1) by (auto simp: fresh_ids_def unlinked_def)
qed

text \<open>Unlinking a block and dropping an emptied list.\<close>

lemma unlinked_lists_rep:
  assumes rep: "lists_rep c (xs @ f # ys)" and f: "fl_elems f = us @ (e, b) # vs"
    and blk: "c_blocks c b = Some blk"
  defines "c1 \<equiv> unlinked c (fl_head f) us e b vs"
  shows "us @ vs \<noteq> [] \<Longrightarrow> lists_rep c1 (xs @ f\<lparr>fl_elems := us @ vs\<rparr> # ys)"
    and "us @ vs = [] \<Longrightarrow> lists_rep (c1\<lparr>c_heads := (c_heads c1)(fl_head f := None)\<rparr>) (xs @ ys)"
proof -
  note S = lists_rep_split [OF rep f]
  have others: "\<forall>g\<in>set (xs @ ys). list_ok c1 g"
    using S(1) unfolding c1_def by (blast intro: list_ok_unlinked_other)
  have heads: "distinct (map fl_head (xs @ f # ys))" "dom (c_heads c) = fl_head ` set (xs @ f # ys)"
    and elems: "distinct (map fst (felems xs @ us @ (e, b) # vs @ felems ys))"
      "dom (c_elems c) = fst ` set (felems xs @ us @ (e, b) # vs @ felems ys)"
    and unlinked_blk: "\<And>x y. c_blocks c x = Some y \<Longrightarrow>
        x \<notin> snd ` set (felems xs @ us @ (e, b) # vs @ felems ys) \<Longrightarrow> b_free_list_ptr y = None"
    using rep f by (auto simp: lists_rep_def)
  have dom_elems: "dom (c_elems c1) = fst ` set (felems xs @ us @ vs @ felems ys)"
    using elems S(4) dom_unlinked_elems [of c "fl_head f" us e b vs] unfolding c1_def by auto
  have dom_heads: "dom (c_heads c1) = dom (c_heads c)"
    using heads(2) by (auto simp: c1_def unlinked_def)
  have ptrs: "b_free_list_ptr y = None"
    if "c_blocks c1 x = Some y" "x \<notin> snd ` set (felems xs @ us @ vs @ felems ys)" for x y
    using that unlinked_blk [of x y] blk by (cases "x = b") (auto simp: c1_def unlinked_def)
  show "lists_rep c1 (xs @ f\<lparr>fl_elems := us @ vs\<rparr> # ys)" if ne: "us @ vs \<noteq> []"
  proof -
    have self: "list_ok c1 (f\<lparr>fl_elems := us @ vs\<rparr>)"
      unfolding c1_def using rep f ne S(2)
      by (intro list_ok_unlinked_self) (auto simp: lists_rep_def)
    show ?thesis
      unfolding lists_rep_def using self others heads elems dom_heads dom_elems ptrs by auto
  qed
  show "lists_rep (c1\<lparr>c_heads := (c_heads c1)(fl_head f := None)\<rparr>) (xs @ ys)" if "us @ vs = []"
  proof -
    let ?c = "c1\<lparr>c_heads := (c_heads c1)(fl_head f := None)\<rparr>"
    have "\<forall>g\<in>set (xs @ ys). list_ok ?c g"
    proof
      fix g assume g: "g \<in> set (xs @ ys)"
      then have "list_ok c1 g" "fl_head g \<noteq> fl_head f" using others S(1) by blast+
      then show "list_ok ?c g" by (intro list_ok_cong [of c1 g ?c]) simp_all
    qed
    moreover have "dom (c_heads ?c) = fl_head ` set (xs @ ys)"
      using heads dom_heads by (auto simp: image_Un)
    ultimately show ?thesis
      unfolding lists_rep_def using heads(1) elems that dom_elems ptrs by auto
  qed
qed

end
