(* ===== verification/Coarse_Free.thy ===== *)
theory Coarse_Free
  imports Coarse_Lists
begin

text \<open>
  The operations on the tree of free blocks of the coarse allocator. Adding and removing
  a block changes the set of linked blocks accordingly and nothing else that the other
  parts of the allocator see.
\<close>

section \<open>Removal\<close>

lemma drop_after_unlink:
  assumes rep: "free_rep c (xs @ f # ys)" and f: "fl_elems f = us @ (e, b) # vs"
    and blk: "c_blocks c b = Some blk" and fresh: "fresh_ids c"
  shows "\<exists>c2. drop_empty_head (unlinked c (fl_head f) us e b vs) (fl_head f) (fl_node f) = Some c2 \<and>
      free_inv c2 (snd ` set (felems (xs @ f # ys)) - {b}) \<and> free_frame c c2 \<and> fresh_ids c2"
proof -
  let ?c1 = "unlinked c (fl_head f) us e b vs"
  have lrep: "lists_rep c (xs @ f # ys)" and idx: "ravl_index rd_key (c_free c) (map fentry (xs @ f # ys))"
    using rep by (auto simp: free_rep_def)
  have blocks: "snd ` set (felems (xs @ f # ys)) - {b} = snd ` set (felems xs @ us @ vs @ felems ys)"
    using lists_rep_split(3) [OF lrep f] f by auto
  have hd: "fl_head f \<in> dom (c_heads c)" using lrep by (simp add: lists_rep_def)
  have fresh1: "fresh_ids ?c1" by (rule unlinked_fresh [OF fresh hd])
  have head: "c_heads ?c1 (fl_head f) = Some (head_ref (us @ vs))" by (simp add: unlinked_def)
  have same: "c_free ?c1 = c_free c" by (simp add: unlinked_def)
  show ?thesis
  proof (cases "us @ vs = []")
    case False
    then obtain h where "head_ref (us @ vs) = Some h" using head_ref_Some by blast
    then have "drop_empty_head ?c1 (fl_head f) (fl_node f) = Some ?c1"
      by (simp add: drop_empty_head_def head)
    moreover have "free_rep ?c1 (xs @ f\<lparr>fl_elems := us @ vs\<rparr> # ys)"
      using unlinked_lists_rep(1) [OF lrep f blk False] idx same by (simp add: free_rep_def fentry_def)
    then have "free_inv ?c1 (snd ` set (felems xs @ us @ vs @ felems ys))"
      unfolding free_inv_def by (intro exI conjI) auto
    ultimately show ?thesis unfolding blocks using unlinked_frame fresh1 by blast
  next
    case True
    let ?c = "?c1\<lparr>c_heads := (c_heads ?c1)(fl_head f := None)\<rparr>"
    have "ravl_index rd_key (c_free c) (map fentry xs @ fentry f # map fentry ys)" using idx by simp
    then obtain t es where t: "ravl_remove (c_free c) (fl_node f) = Some t" "ravl_index rd_key t es"
      "removed_at (fl_node f) (map fentry xs) (map fentry ys) es"
      using ravl_ix.idx_rm by (metis fentry_def)
    obtain ys2 where ys2: "es = map fentry (xs @ ys2)" "map fcore ys2 = map fcore ys"
      using removed_fentry [OF t(3)] by metis
    let ?c2 = "?c\<lparr>c_free := t\<rparr>"
    have "c_heads ?c1 (fl_head f) = Some None" using head True by simp
    then have "drop_empty_head ?c1 (fl_head f) (fl_node f) = Some ?c2"
      using t(1) same by (simp add: drop_empty_head_def)
    moreover have "lists_rep ?c (xs @ ys)" by (rule unlinked_lists_rep(2) [OF lrep f blk True])
    then have "lists_rep ?c (xs @ ys2)" using lists_rep_cong [of "xs @ ys2" "xs @ ys" ?c] ys2(2) by simp
    then have "lists_rep ?c2 (xs @ ys2)" by (simp add: lists_rep_def list_ok_def)
    then have "free_rep ?c2 (xs @ ys2)" using t(2) ys2(1) by (simp add: free_rep_def)
    then have "free_inv ?c2 (snd ` set (felems xs @ us @ vs @ felems ys))"
      using True map_fcoreD(2) [OF ys2(2)] unfolding free_inv_def by (intro exI conjI) auto
    moreover have "free_frame c ?c2"
      using unlinked_frame [of c "fl_head f" us e b vs] by (simp add: free_frame_def)
    moreover have "fresh_ids ?c2"
    proof -
      have "dom (ravl_nodes t) \<subseteq> dom (ravl_nodes (c_free c))"
        using index_dom [OF t(2)] index_dom [OF idx] removed_at_fst [OF t(3)] by (auto simp: fentry_def)
      then have "\<forall>a\<in>dom (ravl_nodes t). a < next_id (c_host ?c1)"
        using fresh1 unfolding fresh_ids_def same by blast
      then show ?thesis using fresh1 by (auto simp: fresh_ids_def)
    qed
    ultimately show ?thesis unfolding blocks by blast
  qed
qed

lemma free_rep_node:
  assumes "free_rep c (xs @ f # ys)"
  obtains nd where "ravl_nodes (c_free c) (fl_node f) = Some nd" "rd_key (ravl_data nd) = fl_size f"
    "rd_value (ravl_data nd) = Some (fl_head f)"
proof -
  have "ravl_index rd_key (c_free c) (map fentry xs @ (fl_node f, snd (fentry f)) # map fentry ys)"
    using assms by (simp add: free_rep_def fentry_def)
  from ravl_ix.data_at_mid [OF this] that show thesis by (auto simp: fentry_def)
qed

lemma free_rep_find:
  assumes "free_rep c (xs @ f # ys)"
  shows "ravl_find (c_free c) (key_data (fl_size f)) RAVL_PREDICATE_EQUAL = Some (Some (fl_node f))"
proof -
  have "ravl_index rd_key (c_free c) (map fentry xs @ (fl_node f, snd (fentry f)) # map fentry ys)"
    using assms by (simp add: free_rep_def fentry_def)
  then show ?thesis by (rule ravl_ix.find_equal_mid) (simp add: fentry_def key_data_def)
qed

lemma free_rep_list:
  assumes "free_rep c (xs @ f # ys)" "fl_elems f = us @ (e, b) # vs"
  shows "c_heads c (fl_head f) = Some (head_ref (us @ (e, b) # vs))"
    and "dll (c_elems c) None (us @ (e, b) # vs) None" "distinct (map fst (us @ (e, b) # vs))"
    and "c_elems c e = Some \<lparr>fe_block = b, fe_next = head_ref vs, fe_prev = last_ref us\<rparr>"
    and "\<exists>blk. c_blocks c b = Some blk \<and> b_size blk = fl_size f \<and> b_free_list_ptr blk = Some e"
proof -
  have ok: "list_ok c f" and d: "distinct (map fst (felems (xs @ f # ys)))"
    using assms(1) by (simp_all add: free_rep_def lists_rep_def)
  show "c_heads c (fl_head f) = Some (head_ref (us @ (e, b) # vs))"
    and dll: "dll (c_elems c) None (us @ (e, b) # vs) None"
    using ok assms(2) unfolding list_ok_def by (simp_all only:)
  show "distinct (map fst (us @ (e, b) # vs))" using d assms(2) by auto
  show "c_elems c e = Some \<lparr>fe_block = b, fe_next = head_ref vs, fe_prev = last_ref us\<rparr>"
    using dll by (simp add: dll_append)
  show "\<exists>blk. c_blocks c b = Some blk \<and> b_size blk = fl_size f \<and> b_free_list_ptr blk = Some e"
    using ok assms(2) unfolding list_ok_def by auto
qed

lemma free_blocks_rm_node_ok:
  assumes inv: "free_inv c F" and fresh: "fresh_ids c"
    and blk: "c_blocks c b = Some blk" "b_free_list_ptr blk = Some e"
  shows "\<exists>c'. free_blocks_rm_node c e = Some (b, c') \<and> b \<in> F \<and> free_inv c' (F - {b}) \<and>
              free_frame c c' \<and> fresh_ids c'"
proof -
  obtain fls where rep: "free_rep c fls" and F: "F = snd ` set (felems fls)"
    using inv by (auto simp: free_inv_def)
  have "b \<in> snd ` set (felems fls)"
    using rep blk unfolding free_rep_def lists_rep_def by (metis option.distinct(1))
  from rep this obtain xs f ys us e' vs blk' where f: "fls = xs @ f # ys" "fl_elems f = us @ (e', b) # vs"
    "c_blocks c b = Some blk'" "b_size blk' = fl_size f" "b_free_list_ptr blk' = Some e'"
    by (rule free_rep_elem)
  then have e: "e' = e" "b_size blk = fl_size f" using blk by auto
  have rep': "free_rep c (xs @ f # ys)" and fe: "fl_elems f = us @ (e, b) # vs" using rep f e by auto
  note L = free_rep_list [OF rep' fe]
  obtain nd where nd: "ravl_nodes (c_free c) (fl_node f) = Some nd" "rd_key (ravl_data nd) = fl_size f"
    "rd_value (ravl_data nd) = Some (fl_head f)" using free_rep_node [OF rep'] .
  have rm: "node_list_rm c (fl_head f) e = Some (b, unlinked c (fl_head f) us e b vs)"
    using L(1-3) blk(1) by (rule node_list_rm_eval)
  obtain c2 where c2: "drop_empty_head (unlinked c (fl_head f) us e b vs) (fl_head f) (fl_node f) = Some c2"
    "free_inv c2 (F - {b})" "free_frame c c2" "fresh_ids c2"
    using drop_after_unlink [OF rep' fe blk(1) fresh] f F by auto
  have "free_blocks_rm_node c e = Some (b, c2)"
    using L(4) blk(1) e nd rm c2(1) free_rep_find [OF rep'] by (simp add: free_blocks_rm_node_def)
  then show ?thesis using c2 F \<open>b \<in> snd ` set (felems fls)\<close> by blast
qed

text \<open>The loop over the elements of one list finds the first aligned block.\<close>

lemma aligned_elem_eval:
  assumes "dll (c_elems c) p xs None" "\<forall>(e, b) \<in> set xs. c_blocks c b \<noteq> None"
  shows "aligned_elem c alignment (head_ref xs) =
    Some (first_such (\<lambda>(e, b). IS_ALIGNED (b_data (the (c_blocks c b))) alignment) xs)"
  using assms
proof (induction xs arbitrary: p)
  case Nil
  then show ?case by (subst aligned_elem.simps) simp
next
  case (Cons x xs)
  obtain e b where x: "x = (e, b)" by (cases x)
  then obtain blk where "c_blocks c b = Some blk" using Cons.prems by auto
  then show ?case
    using Cons x by (subst aligned_elem.simps) auto
qed

lemma first_such_split:
  "first_such P xs = None \<Longrightarrow> \<forall>x\<in>set xs. \<not> P x"
  "first_such P xs = Some a \<Longrightarrow> \<exists>us d vs. xs = us @ (a, d) # vs \<and> P (a, d) \<and> (\<forall>x\<in>set us. \<not> P x)"
proof (induction xs)
  case (Cons x xs)
  {
    case 1
    then show ?case using Cons.IH(1) by (auto split: if_splits)
  next
    case 2
    show ?case
    proof (cases "P x")
      case True
      then show ?thesis using 2 by (intro exI [of _ "[]"] exI [of _ "snd x"] exI [of _ xs]) auto
    next
      case False
      then obtain us d vs where "xs = us @ (a, d) # vs" "P (a, d)" "\<forall>x\<in>set us. \<not> P x"
        using 2 Cons.IH(2) by auto
      then show ?thesis using False by (intro exI [of _ "x # us"] exI [of _ d] exI [of _ vs]) auto
    qed
  }
qed simp_all

text \<open>
  What the two ways of looking into one list return: nothing and the same state, or a
  block with the requested alignment, unlinked. Without an alignment a block is found.
\<close>

lemma list_pick_eval:
  fixes alignment :: u64 and check_blocks :: check_free_blocks_t
  assumes rep: "free_rep c (xs @ f # ys)"
  defines "pick \<equiv> (case check_blocks of
             CHECK_ONLY_THE_FIRST_BLOCK \<Rightarrow> node_list_rm_first c (fl_head f) alignment
           | CHECK_ALL_BLOCKS_OF_SIZE \<Rightarrow> node_list_rm_with_alignment c (fl_head f) alignment)"
  shows "pick = Some (None, c) \<and> alignment \<noteq> 0 \<or>
    (\<exists>us e b vs blk. fl_elems f = us @ (e, b) # vs \<and> c_blocks c b = Some blk \<and>
       IS_ALIGNED (b_data blk) alignment \<and> pick = Some (Some b, unlinked c (fl_head f) us e b vs))"
proof -
  have ok: "list_ok c f" using rep by (simp add: free_rep_def lists_rep_def)
  obtain e b vs where hd: "fl_elems f = [] @ (e, b) # vs"
    using ok by (cases "fl_elems f") (auto simp: list_ok_def)
  note L = free_rep_list [OF rep hd]
  obtain blk where blk: "c_blocks c b = Some blk" using L(5) by blast
  show ?thesis
  proof (cases check_blocks)
    case CHECK_ONLY_THE_FIRST_BLOCK
    have pick: "pick = (if \<not> IS_ALIGNED (b_data blk) alignment then Some (None, c)
        else Some (Some b, unlinked c (fl_head f) [] e b vs))"
      using CHECK_ONLY_THE_FIRST_BLOCK node_list_rm_first_eval [of c "fl_head f" e b vs blk alignment] L blk
      by (simp add: pick_def IS_NOT_ALIGNED_iff)
    show ?thesis
    proof (cases "IS_ALIGNED (b_data blk) alignment")
      case True
      then have "pick = Some (Some b, unlinked c (fl_head f) [] e b vs)" using pick by simp
      then show ?thesis using hd blk True by blast
    next
      case False
      then show ?thesis using pick by (auto simp: IS_ALIGNED_def)
    qed
  next
    case CHECK_ALL_BLOCKS_OF_SIZE
    let ?P = "\<lambda>(e, b). IS_ALIGNED (b_data (the (c_blocks c b))) alignment"
    have "\<forall>(e, b) \<in> set (fl_elems f). c_blocks c b \<noteq> None"
      using ok by (auto simp: list_ok_def)
    then have found: "aligned_elem c alignment (Some e) = Some (first_such ?P (fl_elems f))"
      using aligned_elem_eval [of c None "fl_elems f" alignment] ok hd by (simp add: list_ok_def)
    have pick: "pick = (case first_such ?P (fl_elems f) of None \<Rightarrow> Some (None, c)
        | Some e \<Rightarrow> do { (block, c') \<leftarrow> node_list_rm c (fl_head f) e; Some (Some block, c') })"
      using CHECK_ALL_BLOCKS_OF_SIZE L(1,4) found by (simp add: pick_def node_list_rm_with_alignment_def)
    show ?thesis
    proof (cases "first_such ?P (fl_elems f)")
      case None
      then have "\<not> ?P (e, b)" using first_such_split(1) hd by fastforce
      then show ?thesis using pick None by (auto simp: IS_ALIGNED_def)
    next
      case (Some e1)
      then obtain us b1 vs1 where sp: "fl_elems f = us @ (e1, b1) # vs1" "?P (e1, b1)"
        using first_such_split(2) by blast
      note L1 = free_rep_list [OF rep sp(1)]
      obtain blk1 where blk1: "c_blocks c b1 = Some blk1" using L1(5) by blast
      have "node_list_rm c (fl_head f) e1 = Some (b1, unlinked c (fl_head f) us e1 b1 vs1)"
        using L1(1-3) blk1 by (rule node_list_rm_eval)
      then have "pick = Some (Some b1, unlinked c (fl_head f) us e1 b1 vs1)" using pick Some by simp
      moreover have "IS_ALIGNED (b_data blk1) alignment" using sp(2) blk1 by simp
      ultimately show ?thesis using sp(1) blk1 by blast
    qed
  qed
qed

lemma free_blocks_rm_ge_ok:
  assumes inv: "free_inv c F" and fresh: "fresh_ids c"
  shows "\<exists>r c'. free_blocks_rm_ge c sz alignment check_blocks = Some (r, c') \<and>
    (case r of
       None \<Rightarrow> c' = c \<and> (alignment = 0 \<longrightarrow> (\<forall>b\<in>F. \<forall>blk. c_blocks c b = Some blk \<longrightarrow> b_size blk < sz))
     | Some b \<Rightarrow> b \<in> F \<and> free_inv c' (F - {b}) \<and> free_frame c c' \<and> fresh_ids c' \<and>
         (\<exists>blk. c_blocks c b = Some blk \<and> sz \<le> b_size blk \<and> IS_ALIGNED (b_data blk) alignment))"
proof -
  obtain fls where rep: "free_rep c fls" and F: "F = snd ` set (felems fls)"
    using inv by (auto simp: free_inv_def)
  have idx: "ravl_index rd_key (c_free c) (map fentry fls)" using rep by (simp add: free_rep_def)
  note find = ravl_ix.idx_find_ge [OF idx, of "key_data sz"]
  let ?Q = "\<lambda>e. rd_key (key_data sz) \<le> rd_key (snd e)"
  show ?thesis
  proof (cases "first_such ?Q (map fentry fls)")
    case None
    then have small: "\<forall>f\<in>set fls. fl_size f < sz"
      using first_such_split(1) [OF None] by (auto simp: fentry_def key_data_def)
    have "b_size blk < sz" if "b \<in> F" "c_blocks c b = Some blk" for b blk
      using free_rep_elem [OF rep] that F small by (metis in_set_conv_decomp option.inject)
    then show ?thesis using find None by (simp add: free_blocks_rm_ge_def)
  next
    case (Some n)
    then obtain us d vs where sp: "map fentry fls = us @ (n, d) # vs" "?Q (n, d)"
      using first_such_split(2) [OF Some] by blast
    then obtain xs f ys where f: "fls = xs @ f # ys" "fentry f = (n, d)"
      by (auto simp: map_eq_append_conv)
    have node: "fl_node f = n" "sz \<le> fl_size f"
      using f(2) sp(2) by (auto simp: fentry_def key_data_def)
    have rep': "free_rep c (xs @ f # ys)" using rep f by simp
    obtain nd where nd: "ravl_nodes (c_free c) n = Some nd" "rd_key (ravl_data nd) = fl_size f"
      "rd_value (ravl_data nd) = Some (fl_head f)" using free_rep_node [OF rep'] node by metis
    let ?pick = "case check_blocks of
             CHECK_ONLY_THE_FIRST_BLOCK \<Rightarrow> node_list_rm_first c (fl_head f) alignment
           | CHECK_ALL_BLOCKS_OF_SIZE \<Rightarrow> node_list_rm_with_alignment c (fl_head f) alignment"
    have eval: "free_blocks_rm_ge c sz alignment check_blocks =
        do { (block, c1) \<leftarrow> ?pick; c2 \<leftarrow> drop_empty_head c1 (fl_head f) n; Some (block, c2) }"
      using find Some nd node by (simp add: free_blocks_rm_ge_def)
    from list_pick_eval [OF rep', of alignment check_blocks] show ?thesis
    proof (elim disjE exE conjE)
      assume pick: "?pick = Some (None, c)" and "alignment \<noteq> 0"
      have "list_ok c f" using rep' by (simp add: free_rep_def lists_rep_def)
      then have "drop_empty_head c (fl_head f) n = Some c"
        using head_ref_Some [of "fl_elems f"] by (auto simp: list_ok_def drop_empty_head_def)
      then show ?thesis using eval pick \<open>alignment \<noteq> 0\<close> by simp
    next
      fix us e b vs blk
      assume fe: "fl_elems f = us @ (e, b) # vs" and blk: "c_blocks c b = Some blk"
        "IS_ALIGNED (b_data blk) alignment" and pick: "?pick = Some (Some b, unlinked c (fl_head f) us e b vs)"
      obtain c2 where c2: "drop_empty_head (unlinked c (fl_head f) us e b vs) (fl_head f) n = Some c2"
        "free_inv c2 (F - {b})" "free_frame c c2" "fresh_ids c2"
        using drop_after_unlink [OF rep' fe blk(1) fresh] f(1) F node by auto
      have "b_size blk = fl_size f" using free_rep_list(5) [OF rep' fe] blk(1) by auto
      moreover have "b \<in> F" using F f(1) fe by auto
      ultimately show ?thesis using eval pick c2 blk node by simp
    qed
  qed
qed

section \<open>Insertion\<close>

text \<open>The lists while the one at \<open>f\<close> may still be empty.\<close>

definition list_pre :: "'p coarse_t \<Rightarrow> flist \<Rightarrow> bool" where
  "list_pre c f \<longleftrightarrow>
     c_heads c (fl_head f) = Some (head_ref (fl_elems f)) \<and>
     dll (c_elems c) None (fl_elems f) None \<and>
     (\<forall>(e, b) \<in> set (fl_elems f).
        \<exists>blk. c_blocks c b = Some blk \<and> b_size blk = fl_size f \<and> b_free_list_ptr blk = Some e)"

definition lists_pre :: "'p coarse_t \<Rightarrow> flist list \<Rightarrow> flist \<Rightarrow> flist list \<Rightarrow> bool" where
  "lists_pre c xs f ys \<longleftrightarrow>
     (\<forall>g\<in>set (xs @ ys). list_ok c g) \<and> list_pre c f \<and>
     distinct (map fl_head (xs @ f # ys)) \<and> dom (c_heads c) = fl_head ` set (xs @ f # ys) \<and>
     distinct (map fst (felems (xs @ f # ys))) \<and> dom (c_elems c) = fst ` set (felems (xs @ f # ys)) \<and>
     (\<forall>b blk. c_blocks c b = Some blk \<longrightarrow> b \<notin> snd ` set (felems (xs @ f # ys)) \<longrightarrow>
              b_free_list_ptr blk = None)"

lemma lists_rep_pre: "lists_rep c (xs @ f # ys) \<Longrightarrow> lists_pre c xs f ys"
  by (auto simp: lists_rep_def lists_pre_def list_pre_def list_ok_def)

text \<open>The state after the block \<open>b\<close> has been linked as element \<open>n\<close> at the front of \<open>f\<close>.\<close>

definition linked :: "'p coarse_t \<Rightarrow> flist \<Rightarrow> ptr \<Rightarrow> ptr \<Rightarrow> host \<Rightarrow> 'p coarse_t" where
  "linked c f n b s =
     c\<lparr>c_host := s,
       c_elems := (set_prev (fl_elems f) (Some n) (c_elems c))(n \<mapsto>
          \<lparr>fe_block = b, fe_next = head_ref (fl_elems f), fe_prev = None\<rparr>),
       c_heads := (c_heads c)(fl_head f \<mapsto> Some n),
       c_blocks := (c_blocks c)(b := map_option (\<lambda>x. x\<lparr>b_free_list_ptr := Some n\<rparr>) (c_blocks c b))\<rparr>"

lemma node_list_add_eval:
  assumes "c_heads c hn = Some (head_ref xs)" "fst ` set xs \<subseteq> dom (c_elems c)"
    and "ba_global_alloc (c_host c) = (Some n, s)"
  shows "node_list_add c hn b = Some (Some n, c\<lparr>c_host := s,
      c_elems := (set_prev xs (Some n) (c_elems c))(n \<mapsto>
        \<lparr>fe_block = b, fe_next = head_ref xs, fe_prev = None\<rparr>),
      c_heads := (c_heads c)(hn \<mapsto> Some n)\<rparr>)"
  using assms upd_prev_step [of xs "c\<lparr>c_host := s\<rparr>" "Some n"]
  by (simp add: node_list_add_def set_head_def)

lemma linked_lists_rep:
  assumes pre: "lists_pre c xs f ys" and b: "b \<notin> snd ` set (felems (xs @ f # ys))"
    and blk: "c_blocks c b = Some blk" "b_size blk = fl_size f" and n: "n \<notin> dom (c_elems c)"
  shows "lists_rep (linked c f n b s) (xs @ f\<lparr>fl_elems := (n, b) # fl_elems f\<rparr> # ys)"
proof -
  let ?c = "linked c f n b s" and ?f = "f\<lparr>fl_elems := (n, b) # fl_elems f\<rparr>"
  have d: "distinct (map fst (felems (xs @ f # ys)))" "dom (c_elems c) = fst ` set (felems (xs @ f # ys))"
    "list_pre c f" "distinct (map fl_head (xs @ f # ys))"
    using pre by (auto simp: lists_pre_def)
  have nf: "n \<notin> fst ` set (felems (xs @ f # ys))" using n d by simp
  have elems: "c_elems ?c a = c_elems c a" if "a \<notin> fst ` set (fl_elems f)" "a \<noteq> n" for a
    using that by (simp add: linked_def)
  have others: "list_ok ?c g" if g: "g \<in> set (xs @ ys)" for g
  proof (rule list_ok_cong [of c])
    have sub: "set (fl_elems g) \<subseteq> set (felems xs) \<union> set (felems ys)" using g by (auto simp: felems_def)
    show "list_ok c g" using pre g by (simp add: lists_pre_def)
    have "fl_head f \<notin> fl_head ` set (xs @ ys)" using d(4) by (simp add: image_Un)
    then have "fl_head g \<noteq> fl_head f" using g by (metis imageI)
    then show "c_heads ?c (fl_head g) = c_heads c (fl_head g)" by (simp add: linked_def)
    have dj: "fst ` (set (felems xs) \<union> set (felems ys)) \<inter> fst ` set (fl_elems f) = {}" using d(1) by auto
    show "c_elems ?c a = c_elems c a" if "a \<in> fst ` set (fl_elems g)" for a
    proof (rule elems)
      have a: "a \<in> fst ` (set (felems xs) \<union> set (felems ys))" by (rule subsetD [OF image_mono [OF sub] that])
      then show "a \<notin> fst ` set (fl_elems f)" using dj by blast
      show "a \<noteq> n" using a nf by auto
    qed
    show "c_blocks ?c x = c_blocks c x" if "(a, x) \<in> set (fl_elems g)" for a x
    proof -
      have "(a, x) \<in> set (felems xs) \<union> set (felems ys)" using that sub by blast
      then have "x \<in> snd ` (set (felems xs) \<union> set (felems ys))" by (metis image_eqI snd_conv)
      then have "x \<noteq> b" using b by auto
      then show ?thesis by (simp add: linked_def)
    qed
  qed
  have "dll (c_elems ?c) None (fl_elems ?f) None"
  proof -
    have "distinct (map fst (fl_elems f))" using d(1) by simp
    then have "dll (set_prev (fl_elems f) (Some n) (c_elems c)) (Some n) (fl_elems f) None"
      using d(3) by (intro dll_set_prev) (auto simp: list_pre_def)
    moreover have "n \<notin> fst ` set (fl_elems f)" using nf by auto
    ultimately show ?thesis by (simp add: linked_def)
  qed
  moreover have "\<exists>y. c_blocks ?c x = Some y \<and> b_size y = fl_size f \<and> b_free_list_ptr y = Some a"
    if "(a, x) \<in> set (fl_elems ?f)" for a x
  proof (cases "(a, x) = (n, b)")
    case True
    then show ?thesis using blk by (simp add: linked_def)
  next
    case False
    then have ax: "(a, x) \<in> set (fl_elems f)" using that by auto
    then have "(a, x) \<in> set (felems (xs @ f # ys))" by simp
    then have "x \<in> snd ` set (felems (xs @ f # ys))" by (metis image_eqI snd_conv)
    then have "x \<noteq> b" using b by blast
    then have "c_blocks ?c x = c_blocks c x" by (simp add: linked_def)
    then show ?thesis using ax d(3) unfolding list_pre_def by auto
  qed
  moreover have "c_heads ?c (fl_head f) = Some (head_ref (fl_elems ?f))" by (simp add: linked_def)
  ultimately have self: "list_ok ?c ?f" unfolding list_ok_def by auto
  have doms: "dom (c_heads ?c) = fl_head ` set (xs @ ?f # ys)"
    "dom (c_elems ?c) = fst ` set (felems (xs @ ?f # ys))"
    using pre by (auto simp: linked_def lists_pre_def)
  have ptrs: "b_free_list_ptr y = None"
    if "c_blocks ?c x = Some y" "x \<notin> snd ` set (felems (xs @ ?f # ys))" for x y
  proof -
    have "x \<noteq> b" using that(2) by auto
    then have "c_blocks c x = Some y" using that(1) by (simp add: linked_def)
    moreover have "x \<notin> snd ` set (felems (xs @ f # ys))" using that(2) by auto
    ultimately show ?thesis using pre unfolding lists_pre_def by blast
  qed
  have "distinct (map fst (felems (xs @ ?f # ys)))" "distinct (map fl_head (xs @ ?f # ys))"
    using d(1,4) nf by auto
  then show ?thesis
    unfolding lists_rep_def using self others doms ptrs by simp
qed

lemma linked_frame:
  assumes "ba_global_alloc (c_host c) = (Some n, s)" "oom (c_host c) = []"
  shows "free_frame c (linked c f n b s)"
proof -
  have "oom s = [] \<and> lock_fail s = lock_fail (c_host c) \<and> next_id (c_host c) \<le> next_id s"
    using assms by (auto simp: ba_global_alloc_def)
  then show ?thesis
    using assms(2) by (cases "c_blocks c b") (auto simp: free_frame_def linked_def block_core_def)
qed

lemma linked_fresh:
  assumes "fresh_ids c" "ba_global_alloc (c_host c) = (Some n, s)" "fl_head f \<in> dom (c_heads c)"
  shows "fresh_ids (linked c f n b s)"
proof -
  have s: "n = next_id (c_host c)" "next_id s = Suc (next_id (c_host c))"
    using ba_global_alloc_Some [OF assms(2)] by auto
  have "dom (c_blocks (linked c f n b s)) = dom (c_blocks c)"
    by (auto simp: linked_def split: if_splits)
  moreover have "dom (c_heads (linked c f n b s)) = dom (c_heads c)"
    using assms(3) by (auto simp: linked_def)
  moreover have "dom (c_elems (linked c f n b s)) = insert n (dom (c_elems c))"
    by (simp add: linked_def)
  ultimately show ?thesis
    using assms(1) s by (auto simp: fresh_ids_def linked_def less_Suc_eq)
qed

text \<open>The common end of \<open>free_blocks_add\<close>, from a state where the head of the size exists.\<close>

lemma free_add_tail:
  assumes pre: "lists_pre c xs f ys" and idx: "ravl_index rd_key (c_free c) (map fentry (xs @ f # ys))"
    and b: "b \<notin> snd ` set (felems (xs @ f # ys))" and blk: "c_blocks c b = Some blk" "b_size blk = fl_size f"
    and fresh: "fresh_ids c" and oom: "oom (c_host c) = []"
  shows "\<exists>c'. (do {
          (elem, c2) \<leftarrow> node_list_add c (fl_head f) b;
          c3 \<leftarrow> upd_block (\<lambda>b. b\<lparr>b_free_list_ptr := elem\<rparr>) b c2;
          (case elem of
             None \<Rightarrow> Some (-1, c3)
           | Some e \<Rightarrow> do {
               el \<leftarrow> c_elems c3 e;
               eb \<leftarrow> c_blocks c3 (fe_block el);
               blk3 \<leftarrow> c_blocks c3 b;
               assert_that (b_size eb = b_size blk3);
               Some (0, c3)
             }) }) = Some (0 :: int, c') \<and>
      free_inv c' (insert b (snd ` set (felems (xs @ f # ys)))) \<and> free_frame c c' \<and> fresh_ids c'"
proof -
  obtain n s where al: "ba_global_alloc (c_host c) = (Some n, s)"
    using ba_global_alloc_no_oom [OF oom] by blast
  have n: "n \<notin> dom (c_elems c)"
    using fresh ba_global_alloc_Some [OF al] by (auto simp: fresh_ids_def)
  let ?c = "linked c f n b s"
  have hd: "c_heads c (fl_head f) = Some (head_ref (fl_elems f))"
    and sub: "fst ` set (fl_elems f) \<subseteq> dom (c_elems c)"
    using pre by (auto simp: lists_pre_def list_pre_def)
  note add = node_list_add_eval [OF hd sub al, of b]
  have "lists_rep ?c (xs @ f\<lparr>fl_elems := (n, b) # fl_elems f\<rparr> # ys)"
    by (rule linked_lists_rep [OF pre b blk n])
  moreover have "ravl_index rd_key (c_free ?c) (map fentry (xs @ f\<lparr>fl_elems := (n, b) # fl_elems f\<rparr> # ys))"
    using idx by (simp add: linked_def fentry_def)
  ultimately have "free_inv ?c (insert b (snd ` set (felems (xs @ f # ys))))"
    unfolding free_inv_def free_rep_def by (intro exI conjI) auto
  moreover have "fl_head f \<in> dom (c_heads c)" using hd by auto
  ultimately show ?thesis
    using linked_frame [OF al oom] linked_fresh [OF fresh al]
    by (intro exI [of _ ?c] conjI) (simp add: add upd_block_def linked_def blk, assumption, blast, blast)
qed

lemma sorted_position:
  fixes g :: "'a \<Rightarrow> 'k::linorder"
  assumes "sorted_wrt (<) (map g xs)" "k \<notin> g ` set xs"
  obtains us vs where "xs = us @ vs" "\<forall>x\<in>set us. g x < k" "\<forall>x\<in>set vs. k < g x"
proof -
  have "\<exists>us vs. xs = us @ vs \<and> (\<forall>x\<in>set us. g x < k) \<and> (\<forall>x\<in>set vs. k < g x)"
    using assms
  proof (induction xs)
    case (Cons x xs)
    show ?case
    proof (cases "g x < k")
      case True
      from Cons obtain us vs where "xs = us @ vs" "\<forall>x\<in>set us. g x < k" "\<forall>x\<in>set vs. k < g x" by auto
      then show ?thesis using True by (intro exI [of _ "x # us"] exI [of _ vs]) simp
    next
      case False
      then have "k < g x" using Cons.prems(2) by auto
      then have "\<forall>y\<in>set (x # xs). k < g y" using Cons.prems(1) by auto
      then show ?thesis by (intro exI [of _ "[]"] exI [of _ "x # xs"]) simp
    qed
  qed simp
  then show thesis using that by blast
qed

lemma free_blocks_add_present:
  assumes rep: "free_rep c (xs @ f # ys)" and b: "b \<notin> snd ` set (felems (xs @ f # ys))"
    and blk: "c_blocks c b = Some blk" "b_size blk = fl_size f"
    and fresh: "fresh_ids c" and oom: "oom (c_host c) = []"
  shows "\<exists>c'. free_blocks_add c b = Some (0, c') \<and>
      free_inv c' (insert b (snd ` set (felems (xs @ f # ys)))) \<and> free_frame c c' \<and> fresh_ids c'"
proof -
  obtain nd where nd: "ravl_nodes (c_free c) (fl_node f) = Some nd"
    "rd_value (ravl_data nd) = Some (fl_head f)" using free_rep_node [OF rep] by metis
  have pre: "lists_pre c xs f ys" and idx: "ravl_index rd_key (c_free c) (map fentry (xs @ f # ys))"
    using rep lists_rep_pre by (auto simp: free_rep_def)
  show ?thesis
    using free_add_tail [OF pre idx b blk fresh oom] free_rep_find [OF rep] nd blk
    by (simp add: free_blocks_add_def get_node_block_def cong: option.case_cong)
qed

lemma free_blocks_add_absent:
  assumes rep: "free_rep c (xs @ ys)" and b: "b \<notin> snd ` set (felems (xs @ ys))"
    and blk: "c_blocks c b = Some blk"
    and pos: "\<forall>f\<in>set xs. fl_size f < b_size blk" "\<forall>f\<in>set ys. b_size blk < fl_size f"
    and fresh: "fresh_ids c" and oom: "oom (c_host c) = []"
  shows "\<exists>c'. free_blocks_add c b = Some (0, c') \<and>
      free_inv c' (insert b (snd ` set (felems (xs @ ys)))) \<and> free_frame c c' \<and> fresh_ids c'"
proof -
  let ?s = "c_host c"
  let ?h = "next_id ?s" and ?s1 = "?s\<lparr>next_id := Suc (next_id ?s)\<rparr>"
  let ?n = "Suc (next_id ?s)" and ?s2 = "?s1\<lparr>next_id := Suc (Suc (next_id ?s))\<rparr>"
  have al: "ba_global_alloc ?s = (Some ?h, ?s1)" "ba_global_alloc ?s1 = (Some ?n, ?s2)"
    using oom by (simp_all add: ba_global_alloc_def)
  have idx: "ravl_index rd_key (c_free c) (map fentry xs @ map fentry ys)" and lrep: "lists_rep c (xs @ ys)"
    using rep by (auto simp: free_rep_def)
  have none: "ravl_find (c_free c) (key_data (b_size blk)) RAVL_PREDICATE_EQUAL = Some None"
    using pos by (intro ravl_ix.find_equal_none [OF idx]) (auto simp: fentry_def key_data_def)
  let ?d = "\<lparr>rd_key = b_size blk, rd_value = Some ?h\<rparr>"
  have "fresh_in ?s1 (map fentry xs @ map fentry ys)"
  proof -
    have "\<forall>a\<in>fst ` set (map fentry xs @ map fentry ys). a < next_id ?s"
      using fresh unfolding fresh_ids_def index_dom [OF idx] by blast
    then show ?thesis by (auto simp: fresh_in_def less_Suc_eq)
  qed
  then obtain t where t: "ravl_emplace_copy (c_free c) ?d ?s1 = Some (0, t, ?s2)"
    "ravl_index rd_key t (map fentry xs @ (?n, ?d) # map fentry ys)"
    using ravl_ix.idx_ins [OF idx _ al(2), of ?d] pos by (auto simp: fentry_def)
  let ?f = "\<lparr>fl_node = ?n, fl_size = b_size blk, fl_head = ?h, fl_elems = []\<rparr>"
  let ?c1 = "c\<lparr>c_heads := (c_heads c)(?h \<mapsto> None), c_free := t, c_host := ?s2\<rparr>"
  have hfresh: "?h \<notin> dom (c_heads c)" using fresh by (auto simp: fresh_ids_def)
  have "\<forall>g\<in>set (xs @ ys). list_ok ?c1 g"
  proof
    fix g assume g: "g \<in> set (xs @ ys)"
    then have ok: "list_ok c g" using lrep by (simp add: lists_rep_def)
    then have "fl_head g \<noteq> ?h" using hfresh by (auto simp: list_ok_def)
    then show "list_ok ?c1 g" by (intro list_ok_cong [OF ok]) simp_all
  qed
  moreover have "distinct (map fl_head (xs @ ?f # ys))" "dom (c_heads ?c1) = fl_head ` set (xs @ ?f # ys)"
    using lrep hfresh by (auto simp: lists_rep_def)
  ultimately have pre: "lists_pre ?c1 xs ?f ys"
    using lrep by (simp add: lists_pre_def list_pre_def lists_rep_def)
  have idx1: "ravl_index rd_key (c_free ?c1) (map fentry (xs @ ?f # ys))"
    using t(2) by (simp add: fentry_def)
  have "dom (ravl_nodes t) = insert ?n (dom (ravl_nodes (c_free c)))"
    using index_dom [OF t(2)] index_dom [OF idx] by auto
  then have fresh1: "fresh_ids ?c1" using fresh by (auto simp: fresh_ids_def less_Suc_eq)
  from free_add_tail [OF pre idx1 _ _ _ fresh1, of b blk] obtain c' where c':
    "(do { (elem, c2) \<leftarrow> node_list_add ?c1 ?h b;
          c3 \<leftarrow> upd_block (\<lambda>b. b\<lparr>b_free_list_ptr := elem\<rparr>) b c2;
          (case elem of
             None \<Rightarrow> Some (-1, c3)
           | Some e \<Rightarrow> do {
               el \<leftarrow> c_elems c3 e;
               eb \<leftarrow> c_blocks c3 (fe_block el);
               blk3 \<leftarrow> c_blocks c3 b;
               assert_that (b_size eb = b_size blk3);
               Some (0, c3)
             }) }) = Some (0 :: int, c')"
    "free_inv c' (insert b (snd ` set (felems (xs @ ys))))" "free_frame ?c1 c'" "fresh_ids c'"
    using b blk oom by auto
  have "free_blocks_add c b = Some (0, c')"
    using c'(1) blk none al t(1) by (simp add: free_blocks_add_def Let_def cong: option.case_cong)
  moreover have "free_frame c c'" using c'(3) oom by (simp add: free_frame_def)
  ultimately show ?thesis using c' by blast
qed

lemma free_blocks_add_ok:
  assumes inv: "free_inv c F" and b: "b \<notin> F" "c_blocks c b = Some blk"
    and fresh: "fresh_ids c" and oom: "oom (c_host c) = []"
  shows "\<exists>c'. free_blocks_add c b = Some (0, c') \<and> free_inv c' (insert b F) \<and> free_frame c c' \<and> fresh_ids c'"
proof -
  obtain fls where rep: "free_rep c fls" and F: "F = snd ` set (felems fls)"
    using inv by (auto simp: free_inv_def)
  show ?thesis
  proof (cases "b_size blk \<in> fl_size ` set fls")
    case True
    then obtain f where f: "f \<in> set fls" "b_size blk = fl_size f" by auto
    then obtain xs ys where "fls = xs @ f # ys" by (meson split_list)
    then show ?thesis
      using free_blocks_add_present [of c xs f ys b blk] rep F b fresh oom f(2) by simp
  next
    case False
    have "sorted_wrt (<) (map fl_size fls)"
      using ravl_ix.idx_sorted [of rd_key "c_free c" "map fentry fls"] rep
      by (simp add: free_rep_def sorted_keys_def fentry_def comp_def)
    then obtain xs ys where "fls = xs @ ys" "\<forall>f\<in>set xs. fl_size f < b_size blk"
      "\<forall>f\<in>set ys. b_size blk < fl_size f"
      using sorted_position False by blast
    then show ?thesis using free_blocks_add_absent [of c xs ys b blk] rep F b fresh oom by simp
  qed
qed

end
