(* ===== verification/Coarse_Blocks.thy ===== *)
theory Coarse_Blocks
  imports Coarse_Free
begin

text \<open>
  The tree of all blocks of the coarse allocator. \<open>crep c bs F\<close> relates a state to the
  list \<open>bs\<close> of its blocks in the order of their addresses and the set \<open>F\<close> of the blocks
  that are linked in the free lists. The lemmas give the list after a block has been
  added, changed or removed, and after an operation on the free lists.
\<close>

section \<open>The representation\<close>

record ablk =
  ab_node :: ptr
  ab_blk :: ptr
  ab_data :: addr
  ab_size :: u64
  ab_used :: "bool option"

definition aentry :: "ablk \<Rightarrow> ptr \<times> ravl_data_t" where
  "aentry a = (ab_node a, \<lparr>rd_key = ab_data a, rd_value = Some (ab_blk a)\<rparr>)"

definition all_rep :: "'p coarse_t \<Rightarrow> ablk list \<Rightarrow> bool" where
  "all_rep c bs \<longleftrightarrow>
     ravl_index rd_key (c_all c) (map aentry bs) \<and>
     distinct (map ab_blk bs) \<and> dom (c_blocks c) = ab_blk ` set bs \<and>
     (\<forall>a\<in>set bs. map_option block_core (c_blocks c (ab_blk a)) = Some (ab_size a, ab_data a, ab_used a))"

definition crep :: "'p coarse_t \<Rightarrow> ablk list \<Rightarrow> ptr set \<Rightarrow> bool" where
  "crep c bs F \<longleftrightarrow> all_rep c bs \<and> free_inv c F \<and> fresh_ids c"

text \<open>Two lists of blocks that differ in the tree nodes only.\<close>

definition acore :: "ablk \<Rightarrow> ptr \<times> addr \<times> u64 \<times> bool option" where
  "acore a = (ab_blk a, ab_data a, ab_size a, ab_used a)"

text \<open>The parts of the state that the operations on blocks leave alone.\<close>

definition same_env :: "'p coarse_t \<Rightarrow> 'p coarse_t \<Rightarrow> bool" where
  "same_env c c' \<longleftrightarrow>
     c_cb c' = c_cb c \<and> c_strategy c' = c_strategy c \<and> c_page_size c' = c_page_size c \<and>
     c_used_size c' = c_used_size c \<and> c_alloc_size c' = c_alloc_size c \<and>
     oom (c_host c') = oom (c_host c) \<and> lock_fail (c_host c') = lock_fail (c_host c)"

lemma same_env_refl [simp]: "same_env c c"
  by (simp add: same_env_def)

lemma same_env_trans [trans]: "same_env c c' \<Longrightarrow> same_env c' c'' \<Longrightarrow> same_env c c''"
  by (simp add: same_env_def)

lemma free_frame_same_env: "free_frame c c' \<Longrightarrow> same_env c c'"
  by (simp add: free_frame_def same_env_def)

lemma block_coreD:
  assumes "map_option block_core x = Some (s, d, u)"
  obtains blk where "x = Some blk" "b_size blk = s" "b_data blk = d" "b_used blk = u"
  using assms by (cases x) (auto simp: block_core_def)

lemma crep_block:
  assumes "crep c bs F" "a \<in> set bs"
  obtains blk where "c_blocks c (ab_blk a) = Some blk" "b_size blk = ab_size a"
    "b_data blk = ab_data a" "b_used blk = ab_used a"
proof -
  have "map_option block_core (c_blocks c (ab_blk a)) = Some (ab_size a, ab_data a, ab_used a)"
    using assms by (simp add: crep_def all_rep_def)
  then show thesis by (rule block_coreD) (rule that)
qed

lemma crep_node:
  assumes "crep c (xs @ a # ys) F"
  shows "get_node_block (c_all c) (ab_node a) = Some (ab_blk a)"
proof -
  have "ravl_index rd_key (c_all c) (map aentry xs @ (ab_node a, snd (aentry a)) # map aentry ys)"
    using assms by (simp add: crep_def all_rep_def aentry_def)
  from ravl_ix.data_at_mid [OF this] show ?thesis by (auto simp: get_node_block_def aentry_def)
qed

lemma crep_find:
  assumes "crep c (xs @ a # ys) F"
  shows "ravl_find (c_all c) (key_data (ab_data a)) RAVL_PREDICATE_EQUAL = Some (Some (ab_node a))"
proof -
  have "ravl_index rd_key (c_all c) (map aentry xs @ (ab_node a, snd (aentry a)) # map aentry ys)"
    using assms by (simp add: crep_def all_rep_def aentry_def)
  then show ?thesis by (rule ravl_ix.find_equal_mid) (simp add: aentry_def key_data_def)
qed

lemma crep_find_none:
  assumes "crep c bs F" "\<forall>a\<in>set bs. ab_data a \<noteq> p"
  shows "ravl_find (c_all c) (key_data p) RAVL_PREDICATE_EQUAL = Some None"
  by (rule ravl_ix.find_equal_none [of rd_key _ "map aentry bs"])
     (use assms in \<open>auto simp: crep_def all_rep_def aentry_def key_data_def\<close>)

lemma head_ref_aentry: "head_ref (map aentry bs) = map_option ab_node (case bs of [] \<Rightarrow> None | a # _ \<Rightarrow> Some a)"
  by (cases bs) (auto simp: aentry_def)

lemma crep_next:
  assumes "crep c (xs @ a # ys) F"
  shows "get_node_next (c_all c) (ab_node a) = Some (case ys of [] \<Rightarrow> None | y # _ \<Rightarrow> Some (ab_node y))"
proof -
  have "ravl_index rd_key (c_all c) (map aentry xs @ (ab_node a, snd (aentry a)) # map aentry ys)"
    using assms by (simp add: crep_def all_rep_def aentry_def)
  from ravl_ix.idx_succ [OF this] show ?thesis
    by (cases ys) (auto simp: get_node_next_def aentry_def)
qed

lemma crep_prev_Nil:
  assumes "crep c (a # ys) F"
  shows "get_node_prev (c_all c) (ab_node a) = Some None"
proof -
  have "ravl_index rd_key (c_all c) ([] @ (ab_node a, snd (aentry a)) # map aentry ys)"
    using assms by (simp add: crep_def all_rep_def aentry_def)
  from ravl_ix.idx_pred [OF this] show ?thesis by (simp add: get_node_prev_def)
qed

lemma crep_prev:
  assumes "crep c (xs @ p # a # ys) F"
  shows "get_node_prev (c_all c) (ab_node a) = Some (Some (ab_node p))"
proof -
  have "ravl_index rd_key (c_all c) ((map aentry xs @ [aentry p]) @ (ab_node a, snd (aentry a)) # map aentry ys)"
    using assms by (simp add: crep_def all_rep_def aentry_def)
  from ravl_ix.idx_pred [OF this] show ?thesis by (simp add: get_node_prev_def aentry_def)
qed

lemma crep_sorted:
  assumes "crep c bs F"
  shows "sorted_wrt (<) (map ab_data bs)"
  using ravl_ix.idx_sorted [of rd_key "c_all c" "map aentry bs"] assms
  by (simp add: crep_def all_rep_def sorted_keys_def aentry_def comp_def)

lemma all_rep_free_frame:
  assumes "all_rep c bs" "free_frame c c'"
  shows "all_rep c' bs"
proof -
  have eq: "map_option block_core (c_blocks c' b) = map_option block_core (c_blocks c b)" for b
    using assms(2) by (simp add: free_frame_def)
  have "c_blocks c' b = None \<longleftrightarrow> c_blocks c b = None" for b
    using eq [of b] by (cases "c_blocks c b"; cases "c_blocks c' b") auto
  then have "dom (c_blocks c') = dom (c_blocks c)" by (simp add: dom_def)
  moreover have "c_all c' = c_all c" using assms(2) by (simp add: free_frame_def)
  ultimately show ?thesis using assms(1) eq unfolding all_rep_def by simp
qed

lemma crep_free_frame:
  assumes "crep c bs F" "free_frame c c'" "free_inv c' F'" "fresh_ids c'"
  shows "crep c' bs F' \<and> same_env c c' \<and> c_provider c' = c_provider c \<and> c_all c' = c_all c"
  using assms all_rep_free_frame [of c bs c'] free_frame_same_env [of c c']
  by (simp add: crep_def free_frame_def)

section \<open>Operations on the free lists\<close>

lemma crep_add_free:
  assumes "crep c bs F" "a \<in> set bs" "ab_blk a \<notin> F" "oom (c_host c) = []"
  shows "\<exists>c'. free_blocks_add c (ab_blk a) = Some (0, c') \<and> crep c' bs (insert (ab_blk a) F) \<and>
              same_env c c' \<and> c_provider c' = c_provider c \<and> c_all c' = c_all c"
proof -
  obtain blk where blk: "c_blocks c (ab_blk a) = Some blk" using crep_block [OF assms(1,2)] .
  obtain c' where c': "free_blocks_add c (ab_blk a) = Some (0, c')" "free_inv c' (insert (ab_blk a) F)"
    "free_frame c c'" "fresh_ids c'"
    using free_blocks_add_ok [of c F "ab_blk a" blk] assms blk by (auto simp: crep_def)
  then show ?thesis using crep_free_frame [OF assms(1) c'(3,2,4)] by blast
qed

lemma crep_unlink:
  assumes rep: "crep c bs F" and a: "a \<in> set bs"
  shows "\<exists>c'. unlink_free c (ab_blk a) = Some c' \<and> crep c' bs (F - {ab_blk a}) \<and>
              same_env c c' \<and> c_provider c' = c_provider c \<and> c_all c' = c_all c"
proof -
  obtain blk where blk: "c_blocks c (ab_blk a) = Some blk" using crep_block [OF rep a] .
  show ?thesis
  proof (cases "b_free_list_ptr blk")
    case None
    have "ab_blk a \<notin> F"
    proof
      assume "ab_blk a \<in> F"
      then obtain fls where fls: "free_rep c fls" "ab_blk a \<in> snd ` set (felems fls)"
        using rep by (auto simp: crep_def free_inv_def)
      from fls obtain blk' e where "c_blocks c (ab_blk a) = Some blk'" "b_free_list_ptr blk' = Some e"
        by (rule free_rep_elem)
      then show False using blk None by simp
    qed
    then show ?thesis using rep blk None by (intro exI [of _ c]) (simp add: unlink_free_def)
  next
    case (Some e)
    obtain c1 where c1: "free_blocks_rm_node c e = Some (ab_blk a, c1)" "free_inv c1 (F - {ab_blk a})"
      "free_frame c c1" "fresh_ids c1"
      using free_blocks_rm_node_ok [of c F "ab_blk a" blk e] rep blk Some by (auto simp: crep_def)
    note r1 = crep_free_frame [OF rep c1(3,2,4)]
    then obtain blk1 where blk1: "c_blocks c1 (ab_blk a) = Some blk1" using crep_block [of c1 bs _ a] a by blast
    obtain fls where "free_rep c1 fls" "ab_blk a \<notin> snd ` set (felems fls)"
      using c1(2) unfolding free_inv_def by blast
    then have "b_free_list_ptr blk1 = None" using blk1 unfolding free_rep_def lists_rep_def by blast
    then have "upd_block (\<lambda>b. b\<lparr>b_free_list_ptr := None\<rparr>) (ab_blk a) c1 = Some c1"
      using blk1 by (simp add: upd_block_def fun_upd_idem)
    then show ?thesis
      using blk Some c1 r1 by (intro exI [of _ c1]) (simp add: unlink_free_def)
  qed
qed

section \<open>Adding, changing and removing a block\<close>

lemma list_ok_blocks_cong:
  assumes "list_ok c g" "c_heads c' = c_heads c" "c_elems c' = c_elems c"
    and "\<forall>x \<in> snd ` set (fl_elems g). c_blocks c' x = c_blocks c x"
  shows "list_ok c' g"
proof (rule list_ok_cong [OF assms(1)])
  show "c_blocks c' b = c_blocks c b" if "(e, b) \<in> set (fl_elems g)" for e b
  proof -
    have "b \<in> snd ` set (fl_elems g)" using that by (metis image_eqI snd_conv)
    then show ?thesis using assms(4) by blast
  qed
qed (simp_all add: assms(2,3))

lemma free_inv_blocks:
  assumes inv: "free_inv c F" and same: "c_free c' = c_free c" "c_heads c' = c_heads c" "c_elems c' = c_elems c"
    and F: "\<forall>x\<in>F. c_blocks c' x = c_blocks c x"
    and other: "\<And>x y. c_blocks c' x = Some y \<Longrightarrow> x \<notin> F \<Longrightarrow> b_free_list_ptr y = None"
  shows "free_inv c' F"
proof -
  obtain fls where rep: "free_rep c fls" and Fe: "F = snd ` set (felems fls)"
    using inv by (auto simp: free_inv_def)
  have "\<forall>g\<in>set fls. list_ok c' g"
  proof
    fix g assume g: "g \<in> set fls"
    have "snd ` set (fl_elems g) \<subseteq> F" using g Fe by (auto simp: felems_def)
    then have "\<forall>x \<in> snd ` set (fl_elems g). c_blocks c' x = c_blocks c x" using F by blast
    moreover have "list_ok c g" using rep g by (simp add: free_rep_def lists_rep_def)
    ultimately show "list_ok c' g" using same(2,3) list_ok_blocks_cong [of c g c'] by blast
  qed
  moreover have "\<forall>b blk. c_blocks c' b = Some blk \<longrightarrow> b \<notin> snd ` set (felems fls) \<longrightarrow> b_free_list_ptr blk = None"
    using other Fe by blast
  ultimately have "free_rep c' fls"
    using rep by (simp add: free_rep_def lists_rep_def same)
  then show ?thesis using Fe by (auto simp: free_inv_def)
qed

lemma free_inv_in_dom:
  assumes "free_inv c F" "x \<in> F"
  shows "x \<in> dom (c_blocks c)"
proof -
  obtain fls where fls: "free_rep c fls" "x \<in> snd ` set (felems fls)"
    using assms by (auto simp: free_inv_def)
  from fls obtain blk where "c_blocks c x = Some blk" by (rule free_rep_elem)
  then show ?thesis by blast
qed

lemma free_inv_unlinked:
  assumes "free_inv c F" "x \<notin> F" "c_blocks c x = Some y"
  shows "b_free_list_ptr y = None"
proof -
  obtain fls where fls: "free_rep c fls" "F = snd ` set (felems fls)" using assms(1) by (auto simp: free_inv_def)
  have "\<forall>b blk. c_blocks c b = Some blk \<longrightarrow> b \<notin> snd ` set (felems fls) \<longrightarrow> b_free_list_ptr blk = None"
    using fls(1) by (simp add: free_rep_def lists_rep_def)
  then show ?thesis using assms(2,3) fls(2) by blast
qed

lemma crep_F_blocks: "crep c bs F \<Longrightarrow> F \<subseteq> ab_blk ` set bs"
  using free_inv_in_dom [of c F] by (auto simp: crep_def all_rep_def)

lemma crep_add_new:
  assumes rep: "crep c (xs @ ys) F" and oom: "oom (c_host c) = []" and nz: "data \<noteq> 0" "sz \<noteq> 0"
    and pos: "\<forall>a\<in>set xs. ab_data a < data" "\<forall>a\<in>set ys. data < ab_data a"
  shows "\<exists>n b c'. coarse_ravl_add_new c data sz = Some (Some b, Some n, c') \<and>
    crep c' (xs @ \<lparr>ab_node = n, ab_blk = b, ab_data = data, ab_size = sz, ab_used = None\<rparr> # ys) F \<and>
    b \<notin> F \<and> b \<notin> ab_blk ` set (xs @ ys) \<and> same_env c c' \<and> c_provider c' = c_provider c"
proof -
  let ?s = "c_host c"
  let ?b = "next_id ?s" and ?s1 = "?s\<lparr>next_id := Suc (next_id ?s)\<rparr>"
  let ?n = "Suc (next_id ?s)" and ?s2 = "?s1\<lparr>next_id := Suc (Suc (next_id ?s))\<rparr>"
  have al: "ba_global_alloc ?s = (Some ?b, ?s1)" "ba_global_alloc ?s1 = (Some ?n, ?s2)"
    using oom by (simp_all add: ba_global_alloc_def)
  have idx: "ravl_index rd_key (c_all c) (map aentry xs @ map aentry ys)"
    and dist: "distinct (map ab_blk (xs @ ys))" and dom: "dom (c_blocks c) = ab_blk ` set (xs @ ys)"
    and core: "\<forall>a\<in>set (xs @ ys). map_option block_core (c_blocks c (ab_blk a)) = Some (ab_size a, ab_data a, ab_used a)"
    and free: "free_inv c F" and fresh: "fresh_ids c"
    using rep by (auto simp: crep_def all_rep_def)
  have bnew: "?b \<notin> dom (c_blocks c)" using fresh by (auto simp: fresh_ids_def)
  then have bF: "?b \<notin> F" using free_inv_in_dom [OF free] by blast
  let ?blk = "\<lparr>b_size = sz, b_data = data, b_used = None, b_free_list_ptr = None\<rparr>"
  let ?d = "\<lparr>rd_key = data, rd_value = Some ?b\<rparr>"
  have none: "ravl_find (c_all c) (key_data data) RAVL_PREDICATE_EQUAL = Some None"
    using pos by (intro crep_find_none [OF rep]) auto
  have "fresh_in ?s1 (map aentry xs @ map aentry ys)"
  proof -
    have "\<forall>a\<in>fst ` set (map aentry xs @ map aentry ys). a < next_id ?s"
      using fresh unfolding fresh_ids_def index_dom [OF idx] by blast
    then show ?thesis by (auto simp: fresh_in_def less_Suc_eq)
  qed
  then obtain t where t: "ravl_emplace_copy (c_all c) ?d ?s1 = Some (0, t, ?s2)"
    "ravl_index rd_key t (map aentry xs @ (?n, ?d) # map aentry ys)"
    using ravl_ix.idx_ins [OF idx _ al(2), of ?d] pos by (auto simp: aentry_def)
  have found: "ravl_find t ?d RAVL_PREDICATE_EQUAL = Some (Some ?n)"
    using ravl_ix.find_equal_mid [OF t(2)] by simp
  let ?a = "\<lparr>ab_node = ?n, ab_blk = ?b, ab_data = data, ab_size = sz, ab_used = None\<rparr>"
  let ?c = "c\<lparr>c_blocks := (c_blocks c)(?b \<mapsto> ?blk), c_all := t, c_host := ?s2\<rparr>"
  have eval: "coarse_ravl_add_new c data sz = Some (Some ?b, Some ?n, ?c)"
    using nz al none t(1) found by (simp add: coarse_ravl_add_new_def Let_def)
  have "all_rep ?c (xs @ ?a # ys)"
  proof -
    have "?b \<notin> ab_blk ` set (xs @ ys)" using bnew dom by simp
    moreover have "map_option block_core (c_blocks ?c (ab_blk a)) = Some (ab_size a, ab_data a, ab_used a)"
      if "a \<in> set (xs @ ?a # ys)" for a
    proof (cases "a = ?a")
      case False
      then have "a \<in> set (xs @ ys)" using that by auto
      then have "ab_blk a \<in> dom (c_blocks c)" unfolding dom by (rule imageI)
      then have "ab_blk a \<noteq> ?b" using bnew by metis
      then show ?thesis using core \<open>a \<in> set (xs @ ys)\<close> by simp
    qed (simp add: block_core_def)
    moreover have "dom (c_blocks ?c) = ab_blk ` set (xs @ ?a # ys)" using dom by simp
    moreover have "distinct (map ab_blk (xs @ ?a # ys))" using dist \<open>?b \<notin> ab_blk ` set (xs @ ys)\<close> by auto
    moreover have "ravl_index rd_key (c_all ?c) (map aentry (xs @ ?a # ys))" using t(2) by (simp add: aentry_def)
    ultimately show ?thesis unfolding all_rep_def by blast
  qed
  moreover have "free_inv ?c F"
  proof (rule free_inv_blocks [OF free])
    show "\<forall>x\<in>F. c_blocks ?c x = c_blocks c x" using bF by auto
    show "b_free_list_ptr y = None" if "c_blocks ?c x = Some y" "x \<notin> F" for x y
      using that free_inv_unlinked [OF free, of x y] by (auto split: if_splits)
  qed simp_all
  moreover have "dom (ravl_nodes t) = insert ?n (dom (ravl_nodes (c_all c)))"
    unfolding index_dom [OF t(2)] index_dom [OF idx] by simp
  then have "fresh_ids ?c" using fresh by (auto simp: fresh_ids_def less_Suc_eq)
  ultimately have "crep ?c (xs @ ?a # ys) F" by (simp add: crep_def)
  moreover have "same_env c ?c" using oom by (simp add: same_env_def)
  ultimately show ?thesis
    using eval bF bnew dom by (intro exI [of _ ?n] exI [of _ ?b] exI [of _ ?c]) simp
qed

lemma crep_provider [simp]: "crep (c\<lparr>c_provider := p\<rparr>) bs F = crep c bs F"
proof -
  have "list_ok (c\<lparr>c_provider := p\<rparr>) f = list_ok c f" for f by (simp add: list_ok_def)
  then show ?thesis
    by (simp add: crep_def all_rep_def free_inv_def free_rep_def lists_rep_def fresh_ids_def)
qed

lemma crep_upd_block:
  assumes rep: "crep c (xs @ a # ys) F" and F: "ab_blk a \<notin> F"
    and keep: "\<And>blk. b_data (f blk) = b_data blk" "\<And>blk. b_free_list_ptr (f blk) = b_free_list_ptr blk"
    and new: "\<And>blk. b_size blk = ab_size a \<Longrightarrow> b_used blk = ab_used a \<Longrightarrow>
                b_size (f blk) = s \<and> b_used (f blk) = u"
  shows "\<exists>c'. upd_block f (ab_blk a) c = Some c' \<and> crep c' (xs @ a\<lparr>ab_size := s, ab_used := u\<rparr> # ys) F \<and>
              same_env c c' \<and> c_provider c' = c_provider c \<and> c_all c' = c_all c"
proof -
  obtain blk where blk: "c_blocks c (ab_blk a) = Some blk" "b_size blk = ab_size a"
    "b_data blk = ab_data a" "b_used blk = ab_used a" using crep_block [OF rep] by auto
  let ?c = "c\<lparr>c_blocks := (c_blocks c)(ab_blk a \<mapsto> f blk)\<rparr>"
  let ?a = "a\<lparr>ab_size := s, ab_used := u\<rparr>"
  have parts: "ravl_index rd_key (c_all c) (map aentry (xs @ a # ys))" "distinct (map ab_blk (xs @ a # ys))"
    "dom (c_blocks c) = ab_blk ` set (xs @ a # ys)" "free_inv c F" "fresh_ids c"
    and core: "\<forall>a\<in>set (xs @ a # ys). map_option block_core (c_blocks c (ab_blk a)) = Some (ab_size a, ab_data a, ab_used a)"
    using rep by (simp_all add: crep_def all_rep_def)
  have "map_option block_core (c_blocks ?c (ab_blk x)) = Some (ab_size x, ab_data x, ab_used x)"
    if "x \<in> set (xs @ ?a # ys)" for x
  proof (cases "x = ?a")
    case True
    then show ?thesis using new [OF blk(2,4)] blk(3) keep(1) [of blk] by (simp add: block_core_def)
  next
    case False
    then have "x \<in> set xs \<union> set ys" using that by auto
    then have "ab_blk x \<noteq> ab_blk a" using parts(2) by (metis distinct_append distinct.simps(2) list.set_map
        list.simps(9) map_append not_distinct_conv_prefix UnE image_eqI list.set_intros(1) disjoint_iff)
    then show ?thesis using core \<open>x \<in> set xs \<union> set ys\<close> by auto
  qed
  moreover have "map aentry (xs @ ?a # ys) = map aentry (xs @ a # ys)" by (simp add: aentry_def)
  moreover have "map ab_blk (xs @ ?a # ys) = map ab_blk (xs @ a # ys)" by simp
  moreover have "dom (c_blocks ?c) = ab_blk ` set (xs @ ?a # ys)" using parts(3) by auto
  ultimately have "all_rep ?c (xs @ ?a # ys)" using parts(1,2) unfolding all_rep_def by simp
  moreover have "free_inv ?c F"
  proof (rule free_inv_blocks [OF parts(4)])
    show "\<forall>x\<in>F. c_blocks ?c x = c_blocks c x" using F by auto
    show "b_free_list_ptr y = None" if "c_blocks ?c x = Some y" "x \<notin> F" for x y
      using that free_inv_unlinked [OF parts(4), of x] keep(2) [of blk] blk(1) by (auto split: if_splits)
  qed simp_all
  moreover have "fresh_ids ?c" using parts(5) blk(1) by (auto simp: fresh_ids_def)
  ultimately show ?thesis using blk(1) by (intro exI [of _ ?c]) (simp add: crep_def upd_block_def same_env_def)
qed

lemma removed_aentry:
  assumes "removed_at (ab_node a) (map aentry xs) (map aentry ys) es"
  obtains ys2 where "es = map aentry (xs @ ys2)" "map acore ys2 = map acore ys"
proof -
  consider "es = map aentry (xs @ ys)"
    | s d y where "map aentry ys = (s, d) # y" "es = map aentry xs @ (ab_node a, d) # y"
    using assms by (auto simp: removed_at_def)
  then show thesis
  proof cases
    case 1
    then show thesis using that by blast
  next
    case 2
    then obtain y0 ys' where "ys = y0 # ys'" "aentry y0 = (s, d)" "y = map aentry ys'"
      by (cases ys) auto
    then show thesis
      using 2 by (intro that [of "y0\<lparr>ab_node := ab_node a\<rparr> # ys'"]) (auto simp: aentry_def acore_def)
  qed
qed

lemma acore_sets:
  assumes "map acore ys2 = map acore ys"
  shows "map ab_blk ys2 = map ab_blk ys" "map ab_data ys2 = map ab_data ys"
    "map ab_size ys2 = map ab_size ys" "map ab_used ys2 = map ab_used ys"
proof -
  have f: "map (h \<circ> acore) ys2 = map (h \<circ> acore) ys" for h :: "ptr \<times> addr \<times> u64 \<times> bool option \<Rightarrow> 'z"
    using assms by (metis map_map)
  show "map ab_blk ys2 = map ab_blk ys" using f [of fst] by (simp add: acore_def comp_def)
  show "map ab_data ys2 = map ab_data ys" using f [of "fst \<circ> snd"] by (simp add: acore_def comp_def)
  show "map ab_size ys2 = map ab_size ys" using f [of "fst \<circ> snd \<circ> snd"] by (simp add: acore_def comp_def)
  show "map ab_used ys2 = map ab_used ys" using f [of "snd \<circ> snd \<circ> snd"] by (simp add: acore_def comp_def)
qed

lemma fresh_ids_mono:
  assumes "fresh_ids c" "dom (ravl_nodes (c_all c')) \<subseteq> dom (ravl_nodes (c_all c))"
    "dom (ravl_nodes (c_free c')) \<subseteq> dom (ravl_nodes (c_free c))" "dom (c_blocks c') \<subseteq> dom (c_blocks c)"
    "dom (c_heads c') \<subseteq> dom (c_heads c)" "dom (c_elems c') \<subseteq> dom (c_elems c)"
    "next_id (c_host c) \<le> next_id (c_host c')"
  shows "fresh_ids c'"
proof -
  have "dom (ravl_nodes (c_all c')) \<union> dom (ravl_nodes (c_free c')) \<union> dom (c_blocks c') \<union>
      dom (c_heads c') \<union> dom (c_elems c') \<subseteq>
    dom (ravl_nodes (c_all c)) \<union> dom (ravl_nodes (c_free c)) \<union> dom (c_blocks c) \<union>
      dom (c_heads c) \<union> dom (c_elems c)"
    by (intro Un_mono assms)
  then show ?thesis using assms(1,7) unfolding fresh_ids_def by (meson order_less_le_trans subsetD)
qed

lemma crep_rm:
  assumes rep: "crep c (xs @ a # ys) F" and F: "ab_blk a \<notin> F"
  shows "\<exists>t ys2. coarse_ravl_rm c (ab_data a) = Some (Some (ab_blk a), c\<lparr>c_all := t\<rparr>) \<and>
    map acore ys2 = map acore ys \<and>
    crep (c\<lparr>c_all := t, c_blocks := (c_blocks c)(ab_blk a := None)\<rparr>) (xs @ ys2) F"
proof -
  let ?d = "\<lparr>rd_key = ab_data a, rd_value = Some (ab_blk a)\<rparr>"
  have idx: "ravl_index rd_key (c_all c) (map aentry xs @ (ab_node a, ?d) # map aentry ys)"
    and dist: "distinct (map ab_blk (xs @ a # ys))" and dom: "dom (c_blocks c) = ab_blk ` set (xs @ a # ys)"
    and core: "\<forall>a\<in>set (xs @ a # ys). map_option block_core (c_blocks c (ab_blk a)) = Some (ab_size a, ab_data a, ab_used a)"
    and free: "free_inv c F" and fresh: "fresh_ids c"
    using rep by (simp_all add: crep_def all_rep_def aentry_def)
  obtain t es where t: "ravl_remove (c_all c) (ab_node a) = Some t" "ravl_index rd_key t es"
    "removed_at (ab_node a) (map aentry xs) (map aentry ys) es"
    using ravl_ix.idx_rm [OF idx] by blast
  obtain ys2 where es: "es = map aentry (xs @ ys2)" and ys2: "map acore ys2 = map acore ys"
    using t(3) by (rule removed_aentry)
  note eqs = acore_sets [OF ys2]
  have "sorted_wrt (<) (map ab_data (xs @ a # ys))" using crep_sorted [OF rep] .
  then have "\<forall>x\<in>set xs. ab_data x < ab_data a" "\<forall>d\<in>set (map ab_data ys). ab_data a < d"
    by (auto simp: sorted_wrt_append)
  then have "\<forall>x\<in>set xs. ab_data x < ab_data a" "\<forall>d\<in>set (map ab_data ys2). ab_data a < d"
    unfolding eqs(2) by blast+
  then have "\<forall>e\<in>set es. rd_key (snd e) \<noteq> rd_key (key_data (ab_data a))"
    unfolding es by (auto simp: aentry_def key_data_def)
  then have gone: "ravl_find t (key_data (ab_data a)) RAVL_PREDICATE_EQUAL = Some None"
    by (rule ravl_ix.find_equal_none [OF t(2)])
  have eval: "coarse_ravl_rm c (ab_data a) = Some (Some (ab_blk a), c\<lparr>c_all := t\<rparr>)"
    using crep_find [OF rep] crep_node [OF rep] t(1) gone by (simp add: coarse_ravl_rm_def)
  let ?c = "c\<lparr>c_all := t, c_blocks := (c_blocks c)(ab_blk a := None)\<rparr>"
  have blks: "ab_blk ` set (xs @ ys2) = ab_blk ` set (xs @ ys)" using eqs(1) by (simp add: image_Un flip: set_map)
  have na: "ab_blk a \<notin> ab_blk ` set (xs @ ys)" using dist by auto
  have "map_option block_core (c_blocks ?c (ab_blk x)) = Some (ab_size x, ab_data x, ab_used x)"
    if "x \<in> set (xs @ ys2)" for x
  proof -
    have "acore x \<in> set (map acore (xs @ ys))" using that ys2 by (simp flip: set_map) (metis UnE UnI1 UnI2 image_eqI list.set_map)
    then obtain z where z: "z \<in> set (xs @ ys)" "acore x = acore z" by auto
    moreover from z have "ab_blk z \<noteq> ab_blk a" using na by (metis image_eqI)
    ultimately show ?thesis using core by (auto simp: acore_def)
  qed
  moreover have "dom (c_blocks ?c) = ab_blk ` set (xs @ ys2)" unfolding blks using dom na by auto
  moreover have "map ab_blk (xs @ ys2) = map ab_blk (xs @ ys)" using eqs(1) by simp
  then have "distinct (map ab_blk (xs @ ys2))" using dist by simp
  ultimately have "all_rep ?c (xs @ ys2)" using t(2) es unfolding all_rep_def by simp
  moreover have "free_inv ?c F"
  proof (rule free_inv_blocks [OF free])
    show "\<forall>x\<in>F. c_blocks ?c x = c_blocks c x" using F by auto
    show "b_free_list_ptr y = None" if "c_blocks ?c x = Some y" "x \<notin> F" for x y
      using that free_inv_unlinked [OF free, of x] by (auto split: if_splits)
  qed simp_all
  moreover have "dom (ravl_nodes t) \<subseteq> dom (ravl_nodes (c_all c))"
    unfolding index_dom [OF t(2)] index_dom [OF idx] using removed_at_fst [OF t(3)] by auto
  then have "fresh_ids ?c" by (intro fresh_ids_mono [OF fresh]) auto
  ultimately show ?thesis using eval ys2 by (intro exI [of _ t] exI [of _ ys2]) (simp add: crep_def)
qed

end
