(* ===== verification/Coarse_Merge.thy ===== *)
theory Coarse_Merge
  imports Coarse_Blocks
begin

text \<open>
  Merging of neighbouring blocks: \<open>user_block_merge\<close> and the two merges of a free block
  with its neighbours, on the representation of \<open>Coarse_Blocks\<close>.
\<close>

section \<open>Merging two neighbours\<close>

definition mergeable :: "ablk \<Rightarrow> ablk \<Rightarrow> bool \<Rightarrow> bool" where
  "mergeable a1 a2 used \<longleftrightarrow>
     ab_used a1 = Some used \<and> ab_used a2 = Some used \<and> ab_data a1 + ab_size a1 = ab_data a2"

text \<open>The checks at the start of \<open>user_block_merge\<close>.\<close>

lemma user_block_merge_unfold:
  assumes rep: "crep c (xs @ a1 # a2 # ys) F" and used: "ab_used a1 = Some u1" "ab_used a2 = Some u2"
  shows "user_block_merge c (ab_node a1) (ab_node a2) used =
    (if \<not> mergeable a1 a2 used then Some (UMF_RESULT_ERROR_INVALID_ARGUMENT, None, c)
     else do {
       merge_cb \<leftarrow> cb_merge (c_cb c);
       let (umf_result, p) = merge_cb (c_provider c) (ab_data a1) (ab_data a2) (ab_size a1 + ab_size a2);
       let c0 = c\<lparr>c_provider := p\<rparr>;
       if umf_result \<noteq> UMF_RESULT_SUCCESS then Some (umf_result, None, c0)
       else do {
         c1 \<leftarrow> unlink_free c0 (ab_blk a1);
         c2 \<leftarrow> unlink_free c1 (ab_blk a2);
         b2 \<leftarrow> c_blocks c2 (ab_blk a2);
         c3 \<leftarrow> upd_block (\<lambda>b. b\<lparr>b_size := b_size b + b_size b2\<rparr>) (ab_blk a1) c2;
         (block_rm, c4) \<leftarrow> coarse_ravl_rm c3 (b_data b2);
         assert_that (block_rm = Some (ab_blk a2));
         Some (UMF_RESULT_SUCCESS, Some (ab_node a1),
               c4\<lparr>c_blocks := (c_blocks c4)(ab_blk a2 := None)\<rparr>)
       }
     })"
proof -
  have rep2: "crep c ((xs @ [a1]) @ a2 # ys) F" using rep by simp
  obtain blk1 where blk1: "c_blocks c (ab_blk a1) = Some blk1" "b_size blk1 = ab_size a1"
    "b_data blk1 = ab_data a1" "b_used blk1 = ab_used a1" using crep_block [OF rep] by auto
  obtain blk2 where blk2: "c_blocks c (ab_blk a2) = Some blk2" "b_size blk2 = ab_size a2"
    "b_data blk2 = ab_data a2" "b_used blk2 = ab_used a2" using crep_block [OF rep2] by auto
  have lt: "ab_data a1 < ab_data a2" using crep_sorted [OF rep] by (simp add: sorted_wrt_append)
  have nav: "get_node_prev (c_all c) (ab_node a2) = Some (Some (ab_node a1))"
    "get_node_next (c_all c) (ab_node a1) = Some (Some (ab_node a2))"
    "get_node_block (c_all c) (ab_node a1) = Some (ab_blk a1)"
    "get_node_block (c_all c) (ab_node a2) = Some (ab_blk a2)"
    using crep_prev [OF rep] crep_next [OF rep] crep_node [OF rep] crep_node [OF rep2] by simp_all
  show ?thesis
  proof (cases "mergeable a1 a2 used")
    case True
    then have "ab_used a1 = Some used" "ab_used a2 = Some used" "ab_data a1 + ab_size a1 = ab_data a2"
      by (simp_all add: mergeable_def)
    then show ?thesis using True nav blk1 blk2 lt by (simp add: user_block_merge_def Let_def)
  next
    case False
    then show ?thesis using nav blk1 blk2 lt used by (auto simp: user_block_merge_def mergeable_def)
  qed
qed

lemma user_block_merge_refused:
  assumes "crep c (xs @ a1 # a2 # ys) F" "ab_used a1 = Some u1" "ab_used a2 = Some u2" "\<not> mergeable a1 a2 used"
  shows "user_block_merge c (ab_node a1) (ab_node a2) used = Some (UMF_RESULT_ERROR_INVALID_ARGUMENT, None, c)"
  using user_block_merge_unfold [OF assms(1-3), of used] assms(4) by simp

lemma user_block_merge_failed:
  assumes "crep c (xs @ a1 # a2 # ys) F" "mergeable a1 a2 used" "cb_merge (c_cb c) = Some m"
    and "m (c_provider c) (ab_data a1) (ab_data a2) (ab_size a1 + ab_size a2) = (rc, p)" "rc \<noteq> UMF_RESULT_SUCCESS"
  shows "user_block_merge c (ab_node a1) (ab_node a2) used = Some (rc, None, c\<lparr>c_provider := p\<rparr>)"
  using user_block_merge_unfold [OF assms(1), of used used used] assms(2-5) by (simp add: mergeable_def)

lemma user_block_merge_done:
  assumes rep: "crep c (xs @ a1 # a2 # ys) F" and mg: "mergeable a1 a2 used" and cb: "cb_merge (c_cb c) = Some m"
    and ok: "m (c_provider c) (ab_data a1) (ab_data a2) (ab_size a1 + ab_size a2) = (UMF_RESULT_SUCCESS, p)"
  shows "\<exists>c' ys2. user_block_merge c (ab_node a1) (ab_node a2) used = Some (UMF_RESULT_SUCCESS, Some (ab_node a1), c') \<and>
    map acore ys2 = map acore ys \<and> same_env c c' \<and> c_provider c' = p \<and>
    crep c' (xs @ a1\<lparr>ab_size := ab_size a1 + ab_size a2\<rparr> # ys2) (F - {ab_blk a1, ab_blk a2})"
proof -
  let ?c0 = "c\<lparr>c_provider := p\<rparr>" and ?bs = "xs @ a1 # a2 # ys"
  have used: "ab_used a1 = Some used" "ab_used a2 = Some used" using mg by (simp_all add: mergeable_def)
  have rep0: "crep ?c0 ?bs F" using rep by simp
  have in_bs: "a1 \<in> set ?bs" "a2 \<in> set ?bs" by simp_all
  obtain c1 where c1: "unlink_free ?c0 (ab_blk a1) = Some c1" "crep c1 ?bs (F - {ab_blk a1})"
    "same_env ?c0 c1" "c_provider c1 = p"
    using crep_unlink [OF rep0 in_bs(1)] by auto
  obtain c2 where c2: "unlink_free c1 (ab_blk a2) = Some c2" "crep c2 ?bs (F - {ab_blk a1} - {ab_blk a2})"
    "same_env c1 c2" "c_provider c2 = p"
    using crep_unlink [OF c1(2) in_bs(2)] c1(4) by auto
  let ?F = "F - {ab_blk a1, ab_blk a2}" and ?a = "a1\<lparr>ab_size := ab_size a1 + ab_size a2, ab_used := Some used\<rparr>"
  have F: "F - {ab_blk a1} - {ab_blk a2} = ?F" by blast
  have rep2: "crep c2 ?bs ?F" using c2(2) by (simp only: F)
  obtain b2 where b2: "c_blocks c2 (ab_blk a2) = Some b2" "b_size b2 = ab_size a2" "b_data b2 = ab_data a2"
    using crep_block [OF rep2 in_bs(2)] .
  obtain c3 where c3: "upd_block (\<lambda>b. b\<lparr>b_size := b_size b + b_size b2\<rparr>) (ab_blk a1) c2 = Some c3"
    "crep c3 (xs @ ?a # a2 # ys) ?F" "same_env c2 c3" "c_provider c3 = p"
    using crep_upd_block [OF rep2, of "\<lambda>b. b\<lparr>b_size := b_size b + b_size b2\<rparr>" "ab_size a1 + ab_size a2" "Some used"]
      b2 used c2(4) by auto
  have rep3: "crep c3 ((xs @ [?a]) @ a2 # ys) ?F" using c3(2) by simp
  obtain t ys2 where t: "coarse_ravl_rm c3 (ab_data a2) = Some (Some (ab_blk a2), c3\<lparr>c_all := t\<rparr>)"
    "map acore ys2 = map acore ys"
    "crep (c3\<lparr>c_all := t, c_blocks := (c_blocks c3)(ab_blk a2 := None)\<rparr>) ((xs @ [?a]) @ ys2) ?F"
    using crep_rm [OF rep3] by auto
  let ?c = "c3\<lparr>c_all := t, c_blocks := (c_blocks c3)(ab_blk a2 := None)\<rparr>"
  have "user_block_merge c (ab_node a1) (ab_node a2) used = Some (UMF_RESULT_SUCCESS, Some (ab_node a1), ?c)"
    using user_block_merge_unfold [OF rep used, of used] mg cb ok c1(1) c2(1) b2 c3(1) t(1) by simp
  moreover have "a1\<lparr>ab_size := ab_size a1 + ab_size a2\<rparr> = ?a" using used by simp
  moreover have "same_env c ?c" using c1(3) c2(3) c3(3) by (simp add: same_env_def)
  ultimately show ?thesis using t(2,3) c3(4) by (intro exI [of _ ?c] exI [of _ ys2]) simp
qed

end
