(* ===== verification/Coarse_Inv.thy ===== *)
theory Coarse_Inv
  imports Coarse_Merge
begin

text \<open>
  The invariant of the coarse allocator. \<open>blocks_wf\<close> states the geometry of the blocks: they
  are not empty, do not overlap, are sorted by address and end inside the address space.
  \<open>cinv c bs F\<close> adds the correspondence with the heap and the two byte counters, and
  \<open>coarse_inv\<close> the condition that the free lists hold exactly the blocks that are not used.
  The main lemma is that the invariant makes the consistency check \<open>debug_check\<close> of the
  developer build succeed.
\<close>

section \<open>The invariant\<close>

definition blocks_wf :: "ablk list \<Rightarrow> bool" where
  "blocks_wf bs \<longleftrightarrow>
     (\<forall>a\<in>set bs. ab_data a \<noteq> 0 \<and> ab_size a \<noteq> 0 \<and> unat (ab_data a) + unat (ab_size a) \<le> 2 ^ 64) \<and>
     sorted_wrt (\<lambda>a b. unat (ab_data a) + unat (ab_size a) \<le> unat (ab_data b)) bs"

definition free_blks :: "ablk list \<Rightarrow> ptr set" where
  "free_blks bs = ab_blk ` {a \<in> set bs. ab_used a = Some False}"

definition used_size :: "ablk \<Rightarrow> u64" where
  "used_size a = (if ab_used a = Some True then ab_size a else 0)"

definition cinv :: "'p coarse_t \<Rightarrow> ablk list \<Rightarrow> ptr set \<Rightarrow> bool" where
  "cinv c bs F \<longleftrightarrow>
     crep c bs F \<and> blocks_wf bs \<and> (\<forall>a\<in>set bs. ab_used a \<noteq> None) \<and>
     c_used_size c = (\<Sum>a\<leftarrow>bs. used_size a) \<and> c_alloc_size c = (\<Sum>a\<leftarrow>bs. ab_size a)"

definition coarse_inv :: "'p coarse_t \<Rightarrow> ablk list \<Rightarrow> bool" where
  "coarse_inv c bs \<longleftrightarrow> cinv c bs (free_blks bs)"

text \<open>What a client sees: the blocks in use, and the bytes that the allocator manages.\<close>

definition used_view :: "ablk list \<Rightarrow> (addr \<times> u64) list" where
  "used_view bs = map (\<lambda>a. (ab_data a, ab_size a)) (filter (\<lambda>a. ab_used a = Some True) bs)"

definition block_bytes :: "ablk \<Rightarrow> nat set" where
  "block_bytes a = {unat (ab_data a) ..< unat (ab_data a) + unat (ab_size a)}"

definition all_bytes :: "ablk list \<Rightarrow> nat set" where
  "all_bytes bs = (\<Union>a\<in>set bs. block_bytes a)"

section \<open>Geometry\<close>

lemma blocks_wf_Nil [simp]: "blocks_wf []"
  by (simp add: blocks_wf_def)

lemma blocks_wf_mid:
  "blocks_wf (xs @ a # ys) \<longleftrightarrow>
     blocks_wf xs \<and> blocks_wf ys \<and>
     ab_data a \<noteq> 0 \<and> ab_size a \<noteq> 0 \<and> unat (ab_data a) + unat (ab_size a) \<le> 2 ^ 64 \<and>
     (\<forall>x\<in>set xs. unat (ab_data x) + unat (ab_size x) \<le> unat (ab_data a)) \<and>
     (\<forall>y\<in>set ys. unat (ab_data a) + unat (ab_size a) \<le> unat (ab_data y)) \<and>
     (\<forall>x\<in>set xs. \<forall>y\<in>set ys. unat (ab_data x) + unat (ab_size x) \<le> unat (ab_data y))"
  unfolding blocks_wf_def by (auto simp: sorted_wrt_append)

lemma blocks_wf_Cons:
  "blocks_wf (a # ys) \<longleftrightarrow> blocks_wf ys \<and>
     ab_data a \<noteq> 0 \<and> ab_size a \<noteq> 0 \<and> unat (ab_data a) + unat (ab_size a) \<le> 2 ^ 64 \<and>
     (\<forall>y\<in>set ys. unat (ab_data a) + unat (ab_size a) \<le> unat (ab_data y))"
  unfolding blocks_wf_def by auto

lemma blocks_wf_sum:
  "blocks_wf (a # bs) \<Longrightarrow> unat (ab_data a) + (\<Sum>x\<leftarrow>a # bs. unat (ab_size x)) \<le> 2 ^ 64"
proof (induction bs arbitrary: a)
  case (Cons b bs)
  have "blocks_wf ([] @ a # (b # bs))" using Cons.prems by simp
  then have "blocks_wf (b # bs)" "unat (ab_data a) + unat (ab_size a) \<le> unat (ab_data b)"
    unfolding blocks_wf_mid by simp_all
  then show ?case using Cons.IH [of b] by simp
qed (simp add: blocks_wf_def)

lemma blocks_wf_total: "blocks_wf bs \<Longrightarrow> (\<Sum>x\<leftarrow>bs. unat (ab_size x)) < 2 ^ 64"
proof (cases bs)
  case (Cons a as)
  assume wf: "blocks_wf bs"
  then have "ab_data a \<noteq> 0" by (simp add: blocks_wf_def Cons)
  then have "0 < unat (ab_data a)" by (simp add: unat_gt_0)
  then show ?thesis using blocks_wf_sum [of a as] wf Cons by simp
qed simp

lemma unat_sum_list: "(\<Sum>w\<leftarrow>ws. unat w) < 2 ^ 64 \<Longrightarrow> unat (sum_list ws :: u64) = (\<Sum>w\<leftarrow>ws. unat w)"
proof (induction ws)
  case (Cons w ws)
  then have "unat (sum_list ws) = (\<Sum>w\<leftarrow>ws. unat w)" by simp
  then show ?case using Cons.prems unat_plus_u64 [of w "sum_list ws"] by simp
qed simp

lemma unat_alloc_sum: "blocks_wf bs \<Longrightarrow> unat (\<Sum>a\<leftarrow>bs. ab_size a) = (\<Sum>a\<leftarrow>bs. unat (ab_size a))"
  using unat_sum_list [of "map ab_size bs"] blocks_wf_total [of bs] by (simp add: comp_def)

lemma used_sum_le: "(\<Sum>a\<leftarrow>bs. unat (used_size a)) \<le> (\<Sum>a\<leftarrow>bs. unat (ab_size a))"
  by (rule sum_list_mono) (simp add: used_size_def)

lemma unat_used_sum: "blocks_wf bs \<Longrightarrow> unat (\<Sum>a\<leftarrow>bs. used_size a) = (\<Sum>a\<leftarrow>bs. unat (used_size a))"
  using unat_sum_list [of "map used_size bs"] used_sum_le [of bs] blocks_wf_total [of bs]
  by (simp add: comp_def)

lemma used_le_alloc: "blocks_wf bs \<Longrightarrow> (\<Sum>a\<leftarrow>bs. used_size a) \<le> (\<Sum>a\<leftarrow>bs. ab_size a)"
  using used_sum_le [of bs] by (simp add: word_le_nat_alt unat_alloc_sum unat_used_sum)

lemma used_block_le: "blocks_wf bs \<Longrightarrow> a \<in> set bs \<Longrightarrow> ab_used a = Some True \<Longrightarrow> ab_size a \<le> (\<Sum>a\<leftarrow>bs. used_size a)"
proof -
  assume a: "blocks_wf bs" "a \<in> set bs" "ab_used a = Some True"
  have "unat (used_size a) \<le> (\<Sum>a\<leftarrow>bs. unat (used_size a))"
    using a(2) by (intro member_le_sum_list) simp_all
  moreover have "used_size a = ab_size a" using a(3) by (simp add: used_size_def)
  ultimately show ?thesis using a(1) by (simp add: word_le_nat_alt unat_used_sum)
qed

lemma alloc_block_le: "blocks_wf bs \<Longrightarrow> a \<in> set bs \<Longrightarrow> ab_size a \<le> (\<Sum>a\<leftarrow>bs. ab_size a)"
proof -
  assume a: "blocks_wf bs" "a \<in> set bs"
  have "unat (ab_size a) \<le> (\<Sum>a\<leftarrow>bs. unat (ab_size a))"
    using a(2) by (intro member_le_sum_list) simp_all
  then show ?thesis using a(1) by (simp add: word_le_nat_alt unat_alloc_sum)
qed

text \<open>Lists that agree up to the tree nodes.\<close>

lemma acore_cong:
  assumes "map acore ys2 = map acore ys"
  shows "blocks_wf ys2 = blocks_wf ys" "free_blks ys2 = free_blks ys" "used_view ys2 = used_view ys"
    "all_bytes ys2 = all_bytes ys" "(\<Sum>a\<leftarrow>ys2. used_size a) = (\<Sum>a\<leftarrow>ys. used_size a)"
    "(\<Sum>a\<leftarrow>ys2. ab_size a) = (\<Sum>a\<leftarrow>ys. ab_size a)"
    "ab_data ` set ys2 = ab_data ` set ys" "(\<forall>a\<in>set ys2. ab_used a \<noteq> None) = (\<forall>a\<in>set ys. ab_used a \<noteq> None)"
proof -
  have "list_all2 (\<lambda>x y. acore x = acore y) ys2 ys"
    using assms by (simp add: list_all2_conv_all_nth list_eq_iff_nth_eq)
  then have "blocks_wf ys2 = blocks_wf ys \<and> free_blks ys2 = free_blks ys \<and> used_view ys2 = used_view ys \<and>
    all_bytes ys2 = all_bytes ys \<and> (\<Sum>a\<leftarrow>ys2. used_size a) = (\<Sum>a\<leftarrow>ys. used_size a) \<and>
    (\<Sum>a\<leftarrow>ys2. ab_size a) = (\<Sum>a\<leftarrow>ys. ab_size a) \<and> ab_data ` set ys2 = ab_data ` set ys \<and>
    (\<forall>a\<in>set ys2. ab_used a \<noteq> None) = (\<forall>a\<in>set ys. ab_used a \<noteq> None)"
  proof (induction rule: list_all2_induct)
    case (Cons x xs y ys)
    have e: "ab_blk x = ab_blk y" "ab_data x = ab_data y" "ab_size x = ab_size y" "ab_used x = ab_used y"
      using Cons(1) by (simp_all add: acore_def)
    have "(\<forall>b\<in>set xs. unat (ab_data x) + unat (ab_size x) \<le> unat (ab_data b)) =
      (\<forall>d\<in>ab_data ` set xs. unat (ab_data x) + unat (ab_size x) \<le> unat d)" by simp
    also have "\<dots> = (\<forall>b\<in>set ys. unat (ab_data y) + unat (ab_size y) \<le> unat (ab_data b))"
      using Cons.IH e by simp
    finally have "blocks_wf (x # xs) = blocks_wf (y # ys)"
      using blocks_wf_mid [of "[]" x xs] blocks_wf_mid [of "[]" y ys] Cons.IH e by simp
    moreover have "free_blks (z # zs) = (if ab_used z = Some False then {ab_blk z} else {}) \<union> free_blks zs" for z zs
      by (auto simp: free_blks_def)
    moreover have "used_view (z # zs) = (if ab_used z = Some True then [(ab_data z, ab_size z)] else []) @ used_view zs" for z zs
      by (simp add: used_view_def)
    moreover have "all_bytes (z # zs) = block_bytes z \<union> all_bytes zs" for z zs by (simp add: all_bytes_def)
    ultimately show ?case using Cons.IH e by (simp add: block_bytes_def used_size_def)
  qed simp
  then show "blocks_wf ys2 = blocks_wf ys" "free_blks ys2 = free_blks ys" "used_view ys2 = used_view ys"
    "all_bytes ys2 = all_bytes ys" "(\<Sum>a\<leftarrow>ys2. used_size a) = (\<Sum>a\<leftarrow>ys. used_size a)"
    "(\<Sum>a\<leftarrow>ys2. ab_size a) = (\<Sum>a\<leftarrow>ys. ab_size a)"
    "ab_data ` set ys2 = ab_data ` set ys" "(\<forall>a\<in>set ys2. ab_used a \<noteq> None) = (\<forall>a\<in>set ys. ab_used a \<noteq> None)"
    by blast+
qed

section \<open>The consistency check\<close>

lemma fold_cb_count: "fold_cb (\<lambda>d n. ravl_cb_count d n) ds n = Some (n + of_nat (length ds))"
  by (induction ds arbitrary: n) (simp_all add: ravl_cb_count_def)

lemma count_elems_dll:
  "dll h p es None \<Longrightarrow> count_elems h (head_ref es) n = Some (n + of_nat (length es))"
proof (induction es arbitrary: p n)
  case Nil
  then show ?case by (subst count_elems.simps) simp
next
  case (Cons x es)
  obtain e b where x: "x = (e, b)" by (cases x)
  have "count_elems h (Some e) n = count_elems h (head_ref es) (n + 1)"
    using Cons.prems x by (subst count_elems.simps) simp
  then show ?case using Cons.IH [of "Some e" "n + 1"] Cons.prems x by simp
qed

lemma fold_cb_count_free:
  assumes "\<forall>f\<in>set fls. list_ok c f"
  shows "fold_cb (ravl_cb_count_free c) (map snd (map fentry fls)) n = Some (n + of_nat (length (felems fls)))"
  using assms
proof (induction fls arbitrary: n)
  case (Cons f fls)
  have ok: "c_heads c (fl_head f) = Some (head_ref (fl_elems f))" "dll (c_elems c) None (fl_elems f) None"
    "fl_elems f \<noteq> []" using Cons.prems by (simp_all add: list_ok_def)
  from ok(3) have "head_ref (fl_elems f) \<noteq> None" by (cases "fl_elems f") auto
  then have "ravl_cb_count_free c (snd (fentry f)) n = Some (n + of_nat (length (fl_elems f)))"
    using ok count_elems_dll [OF ok(2)] by (simp add: ravl_cb_count_free_def fentry_def)
  then show ?case using Cons by (simp add: felems_def)
qed (simp add: felems_def)

lemma free_inv_card:
  assumes "free_rep c fls"
  shows "length (felems fls) = card (snd ` set (felems fls))"
proof -
  have dist: "distinct (map fst (felems fls))" and ok: "\<forall>f\<in>set fls. list_ok c f"
    using assms by (simp_all add: free_rep_def lists_rep_def)
  have "\<forall>(e, b) \<in> set (felems fls). Option.bind (c_blocks c b) b_free_list_ptr = Some e"
  proof (intro ballI, clarify)
    fix e b assume "(e, b) \<in> set (felems fls)"
    then obtain f where "f \<in> set fls" "(e, b) \<in> set (fl_elems f)" by (auto simp: felems_def)
    then obtain blk where "c_blocks c b = Some blk" "b_free_list_ptr blk = Some e"
      using ok unfolding list_ok_def by blast
    then show "Option.bind (c_blocks c b) b_free_list_ptr = Some e" by simp
  qed
  with dist have "distinct (map snd (felems fls))" by (rule distinct_snd)
  then show ?thesis using distinct_card by fastforce
qed

lemma card_free_blks:
  assumes "distinct (map ab_blk bs)"
  shows "card (free_blks bs) = length (filter (\<lambda>a. ab_used a = Some False) bs)"
proof -
  have "inj_on ab_blk (set bs)" using assms by (simp add: distinct_map)
  then have "inj_on ab_blk {a \<in> set bs. ab_used a = Some False}" by (rule inj_on_subset) auto
  then have "card (free_blks bs) = card {a \<in> set bs. ab_used a = Some False}"
    unfolding free_blks_def by (rule card_image)
  also have "\<dots> = card (set (filter (\<lambda>a. ab_used a = Some False) bs))" by simp
  also have "\<dots> = length (filter (\<lambda>a. ab_used a = Some False) bs)"
    using assms by (intro distinct_card distinct_filter) (simp add: distinct_map)
  finally show ?thesis .
qed

lemma stats_no_lock:
  assumes "crep c bs (free_blks bs)"
  shows "coarse_get_stats_no_lock c =
    Some \<lparr>st_alloc_size = c_alloc_size c, st_used_size = c_used_size c,
          st_num_all_blocks = of_nat (length bs),
          st_num_free_blocks = of_nat (length (filter (\<lambda>a. ab_used a = Some False) bs))\<rparr>"
proof -
  obtain fls where fls: "free_rep c fls" "free_blks bs = snd ` set (felems fls)"
    using assms by (auto simp: crep_def free_inv_def)
  have all: "ravl_index rd_key (c_all c) (map aentry bs)" "distinct (map ab_blk bs)"
    using assms by (simp_all add: crep_def all_rep_def)
  have "ravl_foreach (c_all c) ravl_cb_count 0 = Some (of_nat (length bs))"
    using index_foreach [OF all(1), of ravl_cb_count 0] fold_cb_count [of "map snd (map aentry bs)" 0] by simp
  moreover have "ravl_foreach (c_free c) (ravl_cb_count_free c) 0 = Some (of_nat (length (felems fls)))"
    using index_foreach [of rd_key "c_free c" "map fentry fls" "ravl_cb_count_free c" 0] fold_cb_count_free [of fls c 0] fls(1)
    by (simp add: free_rep_def lists_rep_def)
  moreover have "length (felems fls) = length (filter (\<lambda>a. ab_used a = Some False) bs)"
    using free_inv_card [OF fls(1)] fls(2) card_free_blks [OF all(2)] by simp
  ultimately show ?thesis by (simp add: coarse_get_stats_no_lock_def)
qed

lemma next_block:
  assumes "crep c (xs @ a # ys) F"
  shows "get_block_next (c_all c) (ab_node a) = Some (case ys of [] \<Rightarrow> None | y # _ \<Rightarrow> Some (ab_blk y))"
proof (cases ys)
  case Nil
  then show ?thesis using crep_next [OF assms] by (simp add: get_block_next_def get_node_next_def)
next
  case (Cons y zs)
  then have "crep c ((xs @ [a]) @ y # zs) F" using assms by simp
  then show ?thesis using crep_next [OF assms] crep_node [of c "xs @ [a]" y zs F] Cons
    by (simp add: get_block_next_def get_node_next_def)
qed

lemma prev_block:
  assumes "crep c (xs @ a # ys) F"
  shows "get_block_prev (c_all c) (ab_node a) = Some (if xs = [] then None else Some (ab_blk (last xs)))"
proof (cases xs rule: rev_cases)
  case Nil
  then show ?thesis using crep_prev_Nil [of c a ys F] assms by (simp add: get_block_prev_def get_node_prev_def)
next
  case (snoc zs p)
  then have "crep c (zs @ p # a # ys) F" using assms by simp
  then show ?thesis using crep_prev [of c zs p a ys F] crep_node [of c zs p "a # ys" F] snoc
    by (simp add: get_block_prev_def get_node_prev_def)
qed

definition count_block :: "ablk \<Rightarrow> debug_cb_args_t \<Rightarrow> debug_cb_args_t" where
  "count_block a args =
     \<lparr>dbg_sum_used = dbg_sum_used args + used_size a,
      dbg_sum_blocks_size = dbg_sum_blocks_size args + ab_size a,
      dbg_num_all_blocks = dbg_num_all_blocks args + 1,
      dbg_num_free_blocks = dbg_num_free_blocks args + (if ab_used a = Some False then 1 else 0)\<rparr>"

lemma verify_block:
  assumes inv: "cinv c (xs @ a # ys) F"
  shows "debug_verify_all_blocks_cb c (snd (aentry a)) args = Some (count_block a args)"
proof -
  have rep: "crep c (xs @ a # ys) F" and wf: "blocks_wf (xs @ a # ys)" and "ab_used a \<noteq> None"
    using inv by (simp_all add: cinv_def)
  then obtain u where u: "ab_used a = Some u" by auto
  obtain blk where blk: "c_blocks c (ab_blk a) = Some blk" "b_size blk = ab_size a"
    "b_data blk = ab_data a" "b_used blk = ab_used a" using crep_block [OF rep] by auto
  have idx: "ravl_index rd_key (c_all c) (map aentry xs @ (ab_node a, snd (aentry a)) # map aentry ys)"
    using rep by (simp add: crep_def all_rep_def aentry_def)
  then have find: "ravl_find (c_all c) (snd (aentry a)) RAVL_PREDICATE_EQUAL = Some (Some (ab_node a))"
    by (rule ravl_ix.find_equal_mid) simp
  have pos: "ab_data a \<noteq> 0" "ab_size a > 0"
    using wf unfolding blocks_wf_mid by (auto simp: word_neq_0_conv)
  have srt: "sorted_wrt (<) (map ab_data (xs @ a # ys))" by (rule crep_sorted [OF rep])
  have prev: "(case (if xs = [] then None else Some (ab_blk (last xs))) of None \<Rightarrow> Some ()
      | Some p \<Rightarrow> do { pb \<leftarrow> c_blocks c p; assert_that (b_data pb < ab_data a) }) = Some ()"
  proof (cases "xs = []")
    case False
    obtain pb where "c_blocks c (ab_blk (last xs)) = Some pb" "b_data pb = ab_data (last xs)"
      using crep_block [OF rep, of "last xs"] False by auto
    moreover have "ab_data (last xs) < ab_data a" using srt False by (simp add: sorted_wrt_append)
    ultimately show ?thesis using False by simp
  qed simp
  have "next": "(case (case ys of [] \<Rightarrow> None | y # _ \<Rightarrow> Some (ab_blk y)) of None \<Rightarrow> Some ()
      | Some x \<Rightarrow> do { nb \<leftarrow> c_blocks c x; assert_that (ab_data a < b_data nb);
                     assert_that (ab_data a + ab_size a \<le> b_data nb) }) = Some ()"
  proof (cases ys)
    case (Cons y zs)
    obtain nb where nb: "c_blocks c (ab_blk y) = Some nb" "b_data nb = ab_data y"
      using crep_block [OF rep, of y] Cons by auto
    have lt: "ab_data a < ab_data y" using srt Cons by (simp add: sorted_wrt_append)
    have le: "unat (ab_data a) + unat (ab_size a) \<le> unat (ab_data y)" using wf Cons unfolding blocks_wf_mid by simp
    then have "ab_data a + ab_size a \<le> ab_data y"
      using unat_less_u64 [of "ab_data y"] unat_plus_u64 [of "ab_data a" "ab_size a"] by (simp add: word_le_nat_alt)
    then show ?thesis using Cons nb lt by simp
  qed simp
  show ?thesis
    using find next_block [OF rep] prev_block [OF rep] blk u pos
      prev [folded blk(2,3)] "next" [folded blk(2,3)]
    by (auto simp: debug_verify_all_blocks_cb_def aentry_def count_block_def used_size_def)
qed

lemma fold_verify:
  assumes "cinv c (xs @ ys) F"
  shows "fold_cb (debug_verify_all_blocks_cb c) (map snd (map aentry ys)) args = Some (fold count_block ys args)"
  using assms
proof (induction ys arbitrary: xs args)
  case (Cons y ys)
  have "cinv c ((xs @ [y]) @ ys) F" using Cons.prems by simp
  from Cons.IH [OF this] show ?case using verify_block [OF Cons.prems] by simp
qed simp

lemma fold_count_block:
  "fold count_block bs args =
     \<lparr>dbg_sum_used = dbg_sum_used args + (\<Sum>a\<leftarrow>bs. used_size a),
      dbg_sum_blocks_size = dbg_sum_blocks_size args + (\<Sum>a\<leftarrow>bs. ab_size a),
      dbg_num_all_blocks = dbg_num_all_blocks args + of_nat (length bs),
      dbg_num_free_blocks = dbg_num_free_blocks args + of_nat (length (filter (\<lambda>a. ab_used a = Some False) bs))\<rparr>"
  by (induction bs arbitrary: args) (simp_all add: count_block_def)

lemma debug_check_ok:
  assumes "coarse_inv c bs"
  shows "debug_check c = Some ()"
proof -
  let ?z = "\<lparr>dbg_sum_used = 0, dbg_sum_blocks_size = 0, dbg_num_all_blocks = 0, dbg_num_free_blocks = 0\<rparr>"
  have inv: "cinv c ([] @ bs) (free_blks bs)" and rep: "crep c bs (free_blks bs)" and wf: "blocks_wf bs"
    and idx: "ravl_index rd_key (c_all c) (map aentry bs)"
    and sums: "c_used_size c = (\<Sum>a\<leftarrow>bs. used_size a)" "c_alloc_size c = (\<Sum>a\<leftarrow>bs. ab_size a)"
    using assms by (simp_all add: coarse_inv_def cinv_def crep_def all_rep_def)
  have "ravl_foreach (c_all c) (debug_verify_all_blocks_cb c) ?z = Some (fold count_block bs ?z)"
    using index_foreach [OF idx, of "debug_verify_all_blocks_cb c" ?z] fold_verify [OF inv, of ?z] by simp
  then show ?thesis
    using stats_no_lock [OF rep] used_le_alloc [OF wf] sums by (simp add: debug_check_def fold_count_block)
qed

section \<open>Cutting and joining blocks\<close>

text \<open>\<open>halves a a1 a2\<close>: the memory of \<open>a\<close> is that of \<open>a1\<close> followed by that of \<open>a2\<close>.\<close>

definition halves :: "ablk \<Rightarrow> ablk \<Rightarrow> ablk \<Rightarrow> bool" where
  "halves a a1 a2 \<longleftrightarrow>
     ab_data a1 = ab_data a \<and> unat (ab_data a2) = unat (ab_data a) + unat (ab_size a1) \<and>
     unat (ab_size a) = unat (ab_size a1) + unat (ab_size a2) \<and> ab_size a1 \<noteq> 0 \<and> ab_size a2 \<noteq> 0"

lemma halves_size: "halves a a1 a2 \<Longrightarrow> ab_size a = ab_size a1 + ab_size a2"
  using unat_less_u64 [of "ab_size a"]
  by (intro word_unat_eq_iff [THEN iffD2]) (simp add: halves_def unat_plus_u64)

lemma halves_wf:
  assumes "halves a a1 a2"
  shows "blocks_wf (xs @ a1 # a2 # ys) = blocks_wf (xs @ a # ys)"
proof -
  have "unat (ab_size a1) > 0" "unat (ab_size a2) > 0" using assms by (simp_all add: halves_def unat_gt_0)
  then have "ab_data a2 \<noteq> 0" "ab_size a \<noteq> 0" using assms by (auto simp: halves_def)
  then show ?thesis
    using assms unfolding blocks_wf_mid blocks_wf_Cons by (auto simp: halves_def)
qed

lemma all_bytes_append [simp]: "all_bytes (xs @ ys) = all_bytes xs \<union> all_bytes ys"
  by (auto simp: all_bytes_def)

lemma all_bytes_Cons [simp]: "all_bytes (a # ys) = block_bytes a \<union> all_bytes ys"
  by (simp add: all_bytes_def)

lemma halves_bytes: "halves a a1 a2 \<Longrightarrow> block_bytes a = block_bytes a1 \<union> block_bytes a2"
  by (auto simp: halves_def block_bytes_def)

lemma used_view_append [simp]: "used_view (xs @ ys) = used_view xs @ used_view ys"
  by (simp add: used_view_def)

lemma used_view_Cons [simp]:
  "used_view (a # ys) = (if ab_used a = Some True then [(ab_data a, ab_size a)] else []) @ used_view ys"
  by (simp add: used_view_def)

lemma free_blks_append: "free_blks (xs @ ys) = free_blks xs \<union> free_blks ys"
  by (auto simp: free_blks_def)

lemma free_blks_Cons:
  "free_blks (a # ys) = (if ab_used a = Some False then {ab_blk a} else {}) \<union> free_blks ys"
  by (auto simp: free_blks_def)

lemmas free_blks_simps = free_blks_append free_blks_Cons

lemma free_blks_subset: "free_blks bs \<subseteq> ab_blk ` set bs"
  by (auto simp: free_blks_def)

lemma crep_cong:
  assumes "crep c bs F" and same: "c_all c' = c_all c" "c_free c' = c_free c" "c_blocks c' = c_blocks c"
    "c_heads c' = c_heads c" "c_elems c' = c_elems c" "next_id (c_host c') = next_id (c_host c)"
  shows "crep c' bs F"
proof -
  have "list_ok c' f = list_ok c f" for f by (simp add: list_ok_def same)
  then show ?thesis
    using assms(1) by (simp add: crep_def all_rep_def free_inv_def free_rep_def lists_rep_def fresh_ids_def same)
qed

lemma crep_counters [simp]:
  "crep (c\<lparr>c_used_size := s\<rparr>) bs F = crep c bs F" "crep (c\<lparr>c_alloc_size := s\<rparr>) bs F = crep c bs F"
  by (rule iffI; erule crep_cong; simp)+

lemma crep_distinct: "crep c bs F \<Longrightarrow> distinct (map ab_blk bs)"
  by (simp add: crep_def all_rep_def)

lemma mergeable_halves:
  assumes "mergeable a1 a2 used" "blocks_wf (xs @ a1 # a2 # ys)"
  shows "halves (a1\<lparr>ab_size := ab_size a1 + ab_size a2\<rparr>) a1 a2"
proof -
  have wf: "ab_data a1 \<noteq> 0" "ab_size a1 \<noteq> 0" "unat (ab_data a1) + unat (ab_size a1) \<le> unat (ab_data a2)"
    "ab_size a2 \<noteq> 0" "unat (ab_data a2) + unat (ab_size a2) \<le> 2 ^ 64"
    using assms(2) unfolding blocks_wf_def by (auto simp: sorted_wrt_append)
  then have "unat (ab_data a2) = unat (ab_data a1) + unat (ab_size a1)"
    using assms(1) unat_plus_u64 [of "ab_data a1" "ab_size a1"] unat_less_u64 [of "ab_data a2"]
    by (auto simp: mergeable_def)
  moreover have "0 < unat (ab_data a1)" using wf(1) by (simp add: unat_gt_0)
  ultimately have "unat (ab_size a1 + ab_size a2) = unat (ab_size a1) + unat (ab_size a2)"
    using wf(5) by (intro unat_plus_u64) linarith
  then show ?thesis
    using \<open>unat (ab_data a2) = unat (ab_data a1) + unat (ab_size a1)\<close> wf by (simp add: halves_def)
qed

lemma split_halves:
  assumes "blocks_wf (xs @ a # ys)" "0 < f" "f < ab_size a"
    and a1: "ab_data a1 = ab_data a" "ab_size a1 = f"
    and a2: "ab_data a2 = ab_data a + f" "ab_size a2 = ab_size a - f"
  shows "halves a a1 a2"
proof -
  have f: "0 < unat f" "unat f < unat (ab_size a)" using assms(2,3) by (simp_all add: word_less_nat_alt)
  have "unat (ab_data a) + unat (ab_size a) \<le> 2 ^ 64" using assms(1) unfolding blocks_wf_mid by blast
  then have "unat (ab_data a + f) = unat (ab_data a) + unat f" using f by (intro unat_plus_u64) linarith
  moreover have "unat (ab_size a - f) = unat (ab_size a) - unat f" using f by (intro unat_minus_u64) simp
  ultimately show ?thesis using f a1 a2 assms(2) by (auto simp: halves_def unat_eq_0 [symmetric] simp del: unat_eq_0)
qed

end
