(* ===== verification/Coarse_Ops.thy ===== *)
theory Coarse_Ops
  imports Coarse_Inv
begin

text \<open>
  The operations of the coarse allocator that give memory back or reshape it:
  \<open>coarse_free\<close>, \<open>coarse_split\<close> and \<open>coarse_merge\<close>. Each one keeps the invariant, and its
  effect on the blocks in use is stated on \<open>used_view\<close>.
\<close>

section \<open>Merging under the invariant\<close>

lemma merge_cinv:
  assumes inv: "cinv c (xs @ a1 # a2 # ys) F" and mg: "mergeable a1 a2 used" and cb: "cb_merge (c_cb c) = Some m"
    and ok: "m (c_provider c) (ab_data a1) (ab_data a2) (ab_size a1 + ab_size a2) = (UMF_RESULT_SUCCESS, p)"
  shows "\<exists>c' ys2. user_block_merge c (ab_node a1) (ab_node a2) used = Some (UMF_RESULT_SUCCESS, Some (ab_node a1), c') \<and>
    map acore ys2 = map acore ys \<and> same_env c c' \<and> c_provider c' = p \<and>
    cinv c' (xs @ a1\<lparr>ab_size := ab_size a1 + ab_size a2\<rparr> # ys2) (F - {ab_blk a1, ab_blk a2})"
proof -
  let ?a = "a1\<lparr>ab_size := ab_size a1 + ab_size a2\<rparr>"
  have rep: "crep c (xs @ a1 # a2 # ys) F" and wf: "blocks_wf (xs @ a1 # a2 # ys)"
    using inv by (simp_all add: cinv_def)
  obtain c' ys2 where c': "user_block_merge c (ab_node a1) (ab_node a2) used = Some (UMF_RESULT_SUCCESS, Some (ab_node a1), c')"
    "map acore ys2 = map acore ys" "same_env c c'" "c_provider c' = p"
    "crep c' (xs @ ?a # ys2) (F - {ab_blk a1, ab_blk a2})"
    using user_block_merge_done [OF rep mg cb ok] by blast
  have "map acore (xs @ ?a # ys2) = map acore (xs @ ?a # ys)" using c'(2) by simp
  note eqs = acore_cong [OF this]
  have "blocks_wf (xs @ ?a # ys)" using halves_wf [OF mergeable_halves [OF mg wf]] wf by blast
  then have "blocks_wf (xs @ ?a # ys2)" using eqs(1) by blast
  moreover have "\<forall>a\<in>set (xs @ ?a # ys). ab_used a \<noteq> None" using inv by (auto simp: cinv_def)
  then have "\<forall>a\<in>set (xs @ ?a # ys2). ab_used a \<noteq> None" using eqs(8) by blast
  moreover have "used_size ?a = used_size a1 + used_size a2" using mg by (auto simp: mergeable_def used_size_def)
  then have "c_used_size c' = (\<Sum>a\<leftarrow>xs @ ?a # ys. used_size a)" "c_alloc_size c' = (\<Sum>a\<leftarrow>xs @ ?a # ys. ab_size a)"
    using inv c'(3) by (simp_all add: cinv_def same_env_def)
  then have "c_used_size c' = (\<Sum>a\<leftarrow>xs @ ?a # ys2. used_size a)" "c_alloc_size c' = (\<Sum>a\<leftarrow>xs @ ?a # ys2. ab_size a)"
    using eqs(5,6) by simp_all
  ultimately show ?thesis using c' by (intro exI [of _ c'] exI [of _ ys2]) (simp add: cinv_def)
qed

lemma cinv_provider [simp]: "cinv (c\<lparr>c_provider := p\<rparr>) bs F = cinv c bs F"
  by (simp add: cinv_def)

lemma same_env_provider [simp]: "same_env c (c\<lparr>c_provider := p\<rparr>)"
  by (simp add: same_env_def)

lemma user_block_merge_not_done:
  assumes inv: "cinv c (xs @ a1 # a2 # ys) F" and cb: "cb_merge (c_cb c) = Some m"
    and no: "\<not> (mergeable a1 a2 used \<and>
       fst (m (c_provider c) (ab_data a1) (ab_data a2) (ab_size a1 + ab_size a2)) = UMF_RESULT_SUCCESS)"
  shows "\<exists>rc p. user_block_merge c (ab_node a1) (ab_node a2) used = Some (rc, None, c\<lparr>c_provider := p\<rparr>) \<and>
           rc \<noteq> UMF_RESULT_SUCCESS"
proof (cases "mergeable a1 a2 used")
  case True
  obtain rc p where r: "m (c_provider c) (ab_data a1) (ab_data a2) (ab_size a1 + ab_size a2) = (rc, p)" by fastforce
  then have "rc \<noteq> UMF_RESULT_SUCCESS" using no True by simp
  then show ?thesis using user_block_merge_failed [OF _ True cb r] inv by (auto simp: cinv_def)
next
  case False
  obtain u1 u2 where "ab_used a1 = Some u1" "ab_used a2 = Some u2" using inv by (auto simp: cinv_def)
  then have "user_block_merge c (ab_node a1) (ab_node a2) used = Some (UMF_RESULT_ERROR_INVALID_ARGUMENT, None, c)"
    using user_block_merge_refused [of c xs a1 a2 ys F u1 u2 used] inv False by (simp add: cinv_def)
  then show ?thesis
    by (intro exI [of _ UMF_RESULT_ERROR_INVALID_ARGUMENT] exI [of _ "c_provider c"]) simp
qed

section \<open>A free block outside the free lists\<close>

text \<open>
  \<open>loose c xs a ys\<close>: the invariant holds but for the free block \<open>a\<close>, which is not in a free
  list. \<open>coarse_free\<close> makes a block loose, merges it with its neighbours and links the result.
\<close>

definition loose :: "'p coarse_t \<Rightarrow> ablk list \<Rightarrow> ablk \<Rightarrow> ablk list \<Rightarrow> bool" where
  "loose c xs a ys \<longleftrightarrow> cinv c (xs @ a # ys) (free_blks (xs @ a # ys) - {ab_blk a}) \<and> ab_used a = Some False"

definition same_view :: "ablk list \<Rightarrow> ablk list \<Rightarrow> bool" where
  "same_view bs bs' \<longleftrightarrow> used_view bs' = used_view bs \<and> all_bytes bs' = all_bytes bs"

lemma same_view_refl [simp]: "same_view bs bs"
  by (simp add: same_view_def)

lemma same_view_trans [trans]: "same_view x y \<Longrightarrow> same_view y z \<Longrightarrow> same_view x z"
  by (simp add: same_view_def)

lemma loose_provider [simp]: "loose (c\<lparr>c_provider := p\<rparr>) xs a ys = loose c xs a ys"
  by (simp add: loose_def)

lemma loose_crep: "loose c xs a ys \<Longrightarrow> crep c (xs @ a # ys) (free_blks (xs @ a # ys) - {ab_blk a})"
  by (simp add: loose_def cinv_def)

text \<open>The merge of two free neighbours of which one is loose gives a loose block.\<close>

lemma merge_loose:
  assumes inv: "cinv c (xs @ a1 # a2 # ys) (free_blks (xs @ a1 # a2 # ys) - {b})" and b: "b = ab_blk a1 \<or> b = ab_blk a2"
    and mg: "mergeable a1 a2 False" and cb: "cb_merge (c_cb c) = Some m"
    and ok: "m (c_provider c) (ab_data a1) (ab_data a2) (ab_size a1 + ab_size a2) = (UMF_RESULT_SUCCESS, p)"
  shows "\<exists>c' ys2. user_block_merge c (ab_node a1) (ab_node a2) False = Some (UMF_RESULT_SUCCESS, Some (ab_node a1), c') \<and>
    same_env c c' \<and> loose c' xs (a1\<lparr>ab_size := ab_size a1 + ab_size a2\<rparr>) ys2 \<and>
    same_view (xs @ a1 # a2 # ys) (xs @ a1\<lparr>ab_size := ab_size a1 + ab_size a2\<rparr> # ys2)"
proof -
  let ?a = "a1\<lparr>ab_size := ab_size a1 + ab_size a2\<rparr>"
  obtain c' ys2 where c': "user_block_merge c (ab_node a1) (ab_node a2) False = Some (UMF_RESULT_SUCCESS, Some (ab_node a1), c')"
    "map acore ys2 = map acore ys" "same_env c c'"
    "cinv c' (xs @ ?a # ys2) (free_blks (xs @ a1 # a2 # ys) - {b} - {ab_blk a1, ab_blk a2})"
    using merge_cinv [OF inv mg cb ok] by blast
  have "distinct (map ab_blk (xs @ a1 # a2 # ys))"
    using inv crep_distinct by (auto simp: cinv_def simp del: map_append)
  then have "ab_blk a2 \<notin> free_blks xs" "ab_blk a2 \<notin> free_blks ys"
    using free_blks_subset [of xs] free_blks_subset [of ys] by auto
  then have "free_blks (xs @ a1 # a2 # ys) - {b} - {ab_blk a1, ab_blk a2} = free_blks (xs @ ?a # ys2) - {ab_blk ?a}"
    using b acore_cong(2) [OF c'(2)] by (auto simp: free_blks_simps)
  then have "cinv c' (xs @ ?a # ys2) (free_blks (xs @ ?a # ys2) - {ab_blk ?a})" using c'(4) by (simp only:)
  moreover have used: "ab_used a1 = Some False" "ab_used a2 = Some False" using mg by (simp_all add: mergeable_def)
  ultimately have "loose c' xs ?a ys2" by (simp add: loose_def)
  moreover have "block_bytes ?a = block_bytes a1 \<union> block_bytes a2"
    using inv by (intro halves_bytes mergeable_halves [OF mg, of xs ys]) (simp add: cinv_def)
  then have "same_view (xs @ a1 # a2 # ys) (xs @ ?a # ys2)"
    using acore_cong(3,4) [OF c'(2)] used by (auto simp: same_view_def)
  ultimately show ?thesis using c'(1,3) by blast
qed

lemma merge_with_prev_loose:
  assumes lo: "loose c xs a ys" and cb: "cb_merge (c_cb c) = Some m"
  shows "\<exists>c' xs' a' ys'. free_block_merge_with_prev c (ab_node a) = Some (ab_node a', c') \<and> same_env c c' \<and>
    loose c' xs' a' ys' \<and> same_view (xs @ a # ys) (xs' @ a' # ys')"
proof (cases xs rule: rev_cases)
  case Nil
  then have "get_node_prev (c_all c) (ab_node a) = Some None"
    using loose_crep [OF lo] crep_prev_Nil [of c a ys "free_blks (a # ys) - {ab_blk a}"] by simp
  then have "free_block_merge_with_prev c (ab_node a) = Some (ab_node a, c)"
    by (simp add: free_block_merge_with_prev_def)
  then show ?thesis using lo by (intro exI [of _ c] exI [of _ xs] exI [of _ a] exI [of _ ys]) simp
next
  case (snoc zs p)
  have inv: "cinv c (zs @ p # a # ys) (free_blks (zs @ p # a # ys) - {ab_blk a})"
    using lo snoc by (simp add: loose_def)
  then have "crep c (zs @ p # a # ys) (free_blks (zs @ p # a # ys) - {ab_blk a})" by (simp add: cinv_def)
  then have prev: "get_node_prev (c_all c) (ab_node a) = Some (Some (ab_node p))" by (rule crep_prev)
  show ?thesis
  proof (cases "mergeable p a False \<and>
      fst (m (c_provider c) (ab_data p) (ab_data a) (ab_size p + ab_size a)) = UMF_RESULT_SUCCESS")
    case True
    then obtain q where q: "m (c_provider c) (ab_data p) (ab_data a) (ab_size p + ab_size a) = (UMF_RESULT_SUCCESS, q)"
      by (metis prod.collapse)
    let ?a = "p\<lparr>ab_size := ab_size p + ab_size a\<rparr>"
    obtain c' ys2 where c': "user_block_merge c (ab_node p) (ab_node a) False = Some (UMF_RESULT_SUCCESS, Some (ab_node p), c')"
      "same_env c c'" "loose c' zs ?a ys2" "same_view (zs @ p # a # ys) (zs @ ?a # ys2)"
      using merge_loose [OF inv _ _ cb q] True by blast
    have "free_block_merge_with_prev c (ab_node a) = Some (ab_node ?a, c')"
      using prev c'(1) by (simp add: free_block_merge_with_prev_def)
    then show ?thesis using c'(2-4) snoc by (intro exI [of _ c'] exI [of _ zs] exI [of _ ?a] exI [of _ ys2]) simp
  next
    case False
    obtain rc q where q: "user_block_merge c (ab_node p) (ab_node a) False = Some (rc, None, c\<lparr>c_provider := q\<rparr>)"
      "rc \<noteq> UMF_RESULT_SUCCESS" using user_block_merge_not_done [OF inv cb False] by blast
    then have "free_block_merge_with_prev c (ab_node a) = Some (ab_node a, c\<lparr>c_provider := q\<rparr>)"
      using prev by (simp add: free_block_merge_with_prev_def)
    then show ?thesis
      using lo by (intro exI [of _ "c\<lparr>c_provider := q\<rparr>"] exI [of _ xs] exI [of _ a] exI [of _ ys]) simp
  qed
qed

lemma merge_with_next_loose:
  assumes lo: "loose c xs a ys" and cb: "cb_merge (c_cb c) = Some m"
  shows "\<exists>c' a' ys'. free_block_merge_with_next c (ab_node a) = Some (ab_node a', c') \<and> same_env c c' \<and>
    loose c' xs a' ys' \<and> same_view (xs @ a # ys) (xs @ a' # ys')"
proof (cases ys)
  case Nil
  then have "get_node_next (c_all c) (ab_node a) = Some None"
    using crep_next [OF loose_crep [OF lo]] by simp
  then have "free_block_merge_with_next c (ab_node a) = Some (ab_node a, c)"
    by (simp add: free_block_merge_with_next_def)
  then show ?thesis using lo by (intro exI [of _ c] exI [of _ a] exI [of _ ys]) simp
next
  case (Cons y zs)
  have inv: "cinv c (xs @ a # y # zs) (free_blks (xs @ a # y # zs) - {ab_blk a})"
    using lo Cons by (simp add: loose_def)
  have nxt: "get_node_next (c_all c) (ab_node a) = Some (Some (ab_node y))"
    using crep_next [OF loose_crep [OF lo]] Cons by simp
  show ?thesis
  proof (cases "mergeable a y False \<and>
      fst (m (c_provider c) (ab_data a) (ab_data y) (ab_size a + ab_size y)) = UMF_RESULT_SUCCESS")
    case True
    then obtain q where q: "m (c_provider c) (ab_data a) (ab_data y) (ab_size a + ab_size y) = (UMF_RESULT_SUCCESS, q)"
      by (metis prod.collapse)
    let ?a = "a\<lparr>ab_size := ab_size a + ab_size y\<rparr>"
    obtain c' ys2 where c': "user_block_merge c (ab_node a) (ab_node y) False = Some (UMF_RESULT_SUCCESS, Some (ab_node a), c')"
      "same_env c c'" "loose c' xs ?a ys2" "same_view (xs @ a # y # zs) (xs @ ?a # ys2)"
      using merge_loose [OF inv _ _ cb q] True by blast
    have "free_block_merge_with_next c (ab_node a) = Some (ab_node ?a, c')"
      using nxt c'(1) by (simp add: free_block_merge_with_next_def)
    then show ?thesis using c'(2-4) Cons by (intro exI [of _ c'] exI [of _ ?a] exI [of _ ys2]) simp
  next
    case False
    obtain rc q where q: "user_block_merge c (ab_node a) (ab_node y) False = Some (rc, None, c\<lparr>c_provider := q\<rparr>)"
      "rc \<noteq> UMF_RESULT_SUCCESS" using user_block_merge_not_done [OF inv cb False] by blast
    then have "free_block_merge_with_next c (ab_node a) = Some (ab_node a, c\<lparr>c_provider := q\<rparr>)"
      using nxt by (simp add: free_block_merge_with_next_def)
    then show ?thesis
      using lo by (intro exI [of _ "c\<lparr>c_provider := q\<rparr>"] exI [of _ a] exI [of _ ys]) simp
  qed
qed

lemma cinv_same_env:
  assumes "crep c' bs F" "same_env c c'" "cinv c bs F0"
  shows "cinv c' bs F"
  using assms by (simp add: cinv_def same_env_def)

text \<open>Merging with the neighbours and linking: the common end of \<open>coarse_free\<close> and \<open>free_blocks_re_add\<close>.\<close>

lemma loose_add:
  assumes lo: "loose c xs a ys" and oom: "oom (c_host c) = []"
  shows "\<exists>c'. free_blocks_add c (ab_blk a) = Some (0, c') \<and> coarse_inv c' (xs @ a # ys) \<and> same_env c c'"
proof -
  let ?bs = "xs @ a # ys"
  have inv: "cinv c ?bs (free_blks ?bs - {ab_blk a})" and u: "ab_used a = Some False" using lo by (simp_all add: loose_def)
  then have rep: "crep c ?bs (free_blks ?bs - {ab_blk a})" by (simp add: cinv_def)
  obtain c' where c': "free_blocks_add c (ab_blk a) = Some (0, c')" "same_env c c'"
    "crep c' ?bs (insert (ab_blk a) (free_blks ?bs - {ab_blk a}))"
    using crep_add_free [OF rep, of a] oom by auto
  have "insert (ab_blk a) (free_blks ?bs - {ab_blk a}) = free_blks ?bs" using u by (auto simp: free_blks_simps)
  then have "cinv c' ?bs (free_blks ?bs)" using c'(3) by (intro cinv_same_env [OF _ c'(2) inv]) simp
  then show ?thesis using c'(1,2) by (auto simp: coarse_inv_def)
qed

lemma loose_relink:
  assumes lo: "loose c xs a ys" and cb: "cb_merge (c_cb c) = Some m" and oom: "oom (c_host c) = []"
  shows "\<exists>n1 c1 n2 c2 b c3 bs. free_block_merge_with_prev c (ab_node a) = Some (n1, c1) \<and>
    free_block_merge_with_next c1 n1 = Some (n2, c2) \<and> get_node_block (c_all c2) n2 = Some b \<and>
    free_blocks_add c2 b = Some (0, c3) \<and> same_env c c3 \<and> coarse_inv c3 bs \<and> same_view (xs @ a # ys) bs"
proof -
  obtain c1 xs1 a1 ys1 where c1: "free_block_merge_with_prev c (ab_node a) = Some (ab_node a1, c1)" "same_env c c1"
    "loose c1 xs1 a1 ys1" "same_view (xs @ a # ys) (xs1 @ a1 # ys1)"
    using merge_with_prev_loose [OF lo cb] by blast
  then have cb1: "cb_merge (c_cb c1) = Some m" using cb by (simp add: same_env_def)
  obtain c2 a2 ys2 where c2: "free_block_merge_with_next c1 (ab_node a1) = Some (ab_node a2, c2)" "same_env c1 c2"
    "loose c2 xs1 a2 ys2" "same_view (xs1 @ a1 # ys1) (xs1 @ a2 # ys2)"
    using merge_with_next_loose [OF c1(3) cb1] by blast
  have "oom (c_host c2) = []" using oom c1(2) c2(2) by (simp add: same_env_def)
  then obtain c3 where c3: "free_blocks_add c2 (ab_blk a2) = Some (0, c3)" "coarse_inv c3 (xs1 @ a2 # ys2)" "same_env c2 c3"
    using loose_add [OF c2(3)] by blast
  have "get_node_block (c_all c2) (ab_node a2) = Some (ab_blk a2)"
    by (rule crep_node [OF loose_crep [OF c2(3)]])
  moreover have "same_env c c3" using c1(2) c2(2) c3(3) by (blast intro: same_env_trans)
  moreover have "same_view (xs @ a # ys) (xs1 @ a2 # ys2)" using c1(4) c2(4) by (rule same_view_trans)
  ultimately show ?thesis using c1(1) c2(1) c3(1,2) by blast
qed

section \<open>Freeing\<close>

lemma sums_mid:
  "(\<Sum>x\<leftarrow>xs @ a # ys. used_size x) = (\<Sum>x\<leftarrow>xs. used_size x) + used_size a + (\<Sum>x\<leftarrow>ys. used_size x)"
  "(\<Sum>x\<leftarrow>xs @ a # ys. ab_size x) = (\<Sum>x\<leftarrow>xs. ab_size x) + ab_size a + (\<Sum>x\<leftarrow>ys. ab_size x)"
  by (simp_all add: add.assoc)

lemma not_in_free_blks:
  assumes "crep c (xs @ a # ys) F"
  shows "ab_blk a \<notin> free_blks xs" "ab_blk a \<notin> free_blks ys"
  using crep_distinct [OF assms] free_blks_subset [of xs] free_blks_subset [of ys] by auto

lemma used_not_free:
  assumes "crep c (xs @ a # ys) F" "ab_used a \<noteq> Some False"
  shows "ab_blk a \<notin> free_blks (xs @ a # ys)"
  using not_in_free_blks [OF assms(1)] assms(2) by (simp add: free_blks_simps)

lemma release_block:
  assumes inv: "coarse_inv c (xs @ a # ys)" and u: "ab_used a = Some True"
  shows "\<exists>c'. upd_block (\<lambda>b. b\<lparr>b_used := Some False\<rparr>) (ab_blk a) (c\<lparr>c_used_size := c_used_size c - ab_size a\<rparr>) = Some c' \<and>
    loose c' xs (a\<lparr>ab_used := Some False\<rparr>) ys \<and> same_env (c\<lparr>c_used_size := c_used_size c - ab_size a\<rparr>) c' \<and>
    ab_size a \<le> c_used_size c"
proof -
  let ?bs = "xs @ a # ys" and ?a = "a\<lparr>ab_used := Some False\<rparr>"
  let ?c0 = "c\<lparr>c_used_size := c_used_size c - ab_size a\<rparr>"
  have c: "cinv c ?bs (free_blks ?bs)" using inv by (simp add: coarse_inv_def)
  then have rep: "crep c ?bs (free_blks ?bs)" and wf: "blocks_wf ?bs" by (simp_all add: cinv_def)
  have F: "ab_blk a \<notin> free_blks ?bs" using used_not_free [OF rep] u by simp
  have le: "ab_size a \<le> c_used_size c" using used_block_le [OF wf _ u] c by (simp add: cinv_def)
  have "crep ?c0 ?bs (free_blks ?bs)" using rep by simp
  then obtain c' where c': "upd_block (\<lambda>b. b\<lparr>b_used := Some False\<rparr>) (ab_blk a) ?c0 = Some c'"
    "crep c' (xs @ a\<lparr>ab_size := ab_size a, ab_used := Some False\<rparr> # ys) (free_blks ?bs)" "same_env ?c0 c'"
    using crep_upd_block [of ?c0 xs a ys "free_blks ?bs" "\<lambda>b. b\<lparr>b_used := Some False\<rparr>" "ab_size a" "Some False"] F
    by auto
  have "free_blks ?bs = free_blks (xs @ ?a # ys) - {ab_blk a}"
    using not_in_free_blks [OF rep] u by (auto simp: free_blks_simps)
  then have "crep c' (xs @ ?a # ys) (free_blks (xs @ ?a # ys) - {ab_blk a})" using c'(2) by simp
  moreover have "blocks_wf (xs @ ?a # ys)" using wf unfolding blocks_wf_mid by simp
  moreover have "\<forall>x\<in>set (xs @ ?a # ys). ab_used x \<noteq> None" using c by (auto simp: cinv_def)
  moreover have "c_used_size c' = (\<Sum>x\<leftarrow>xs @ ?a # ys. used_size x)" "c_alloc_size c' = (\<Sum>x\<leftarrow>xs @ ?a # ys. ab_size x)"
    using c c'(3) u by (simp_all add: cinv_def same_env_def sums_mid used_size_def)
  ultimately have "loose c' xs ?a ys" by (simp add: loose_def cinv_def)
  then show ?thesis using c'(1,3) le by blast
qed

text \<open>
  \<open>coarse_ok\<close>: the invariant, the callbacks that \<open>coarse_new\<close> requires and a host that is
  not out of memory.
\<close>

definition coarse_ok :: "'p coarse_t \<Rightarrow> ablk list \<Rightarrow> bool" where
  "coarse_ok c bs \<longleftrightarrow>
     coarse_inv c bs \<and> oom (c_host c) = [] \<and> cb_merge (c_cb c) \<noteq> None \<and> cb_split (c_cb c) \<noteq> None \<and>
     IS_POWER_OF_2 (c_page_size c)"

text \<open>The state after a successful \<^verbatim>\<open>utils_mutex_lock\<close>.\<close>

definition locked :: "'p coarse_t \<Rightarrow> 'p coarse_t" where
  "locked c = c\<lparr>c_host := snd (mutex_lock (c_host c))\<rparr>"

definition lock_ok :: "'p coarse_t \<Rightarrow> bool" where
  "lock_ok c \<longleftrightarrow> fst (mutex_lock (c_host c))"

lemma mutex_lock_eq: "lock_ok c \<Longrightarrow> mutex_lock (c_host c) = (True, c_host (locked c))"
  by (cases "mutex_lock (c_host c)") (simp add: lock_ok_def locked_def)

lemma locked_simps [simp]:
  "c_cb (locked c) = c_cb c" "c_strategy (locked c) = c_strategy c" "c_page_size (locked c) = c_page_size c"
  "c_provider (locked c) = c_provider c" "c_used_size (locked c) = c_used_size c"
  "c_alloc_size (locked c) = c_alloc_size c" "oom (c_host (locked c)) = oom (c_host c)"
  "c_all (locked c) = c_all c" "c_free (locked c) = c_free c" "c_blocks (locked c) = c_blocks c"
  "c_heads (locked c) = c_heads c" "c_elems (locked c) = c_elems c"
  "c\<lparr>c_host := c_host (locked c)\<rparr> = locked c"
  by (cases "mutex_lock (c_host c)"; simp add: locked_def)+

lemma crep_locked [simp]: "crep c bs F \<Longrightarrow> crep (locked c) bs F"
  by (erule crep_cong; cases "mutex_lock (c_host c)"; simp add: locked_def)

lemma coarse_inv_locked: "coarse_inv c bs \<Longrightarrow> coarse_inv (locked c) bs"
  by (simp add: coarse_inv_def cinv_def)

lemma coarse_ok_locked [simp]: "coarse_ok c bs \<Longrightarrow> coarse_ok (locked c) bs"
  by (simp add: coarse_ok_def coarse_inv_locked)

lemma coarse_ok_env:
  assumes "coarse_ok c bs" "coarse_inv c' bs'" "c_cb c' = c_cb c" "c_page_size c' = c_page_size c"
    "oom (c_host c') = oom (c_host c)"
  shows "coarse_ok c' bs'"
  using assms by (simp add: coarse_ok_def)

lemma coarse_okD:
  assumes "coarse_ok c bs"
  shows "coarse_inv c bs" "crep c bs (free_blks bs)" "blocks_wf bs" "oom (c_host c) = []" "debug_check c = Some ()"
  using assms debug_check_ok by (auto simp: coarse_ok_def coarse_inv_def cinv_def)

lemma used_view_at:
  assumes "used_view bs = us @ (p, n) # vs"
  obtains xs a ys where "bs = xs @ a # ys" "ab_data a = p" "ab_size a = n" "ab_used a = Some True"
    "used_view xs = us" "used_view ys = vs"
  using assms
proof (induction bs arbitrary: us thesis)
  case (Cons b bs)
  show ?case
  proof (cases "ab_used b = Some True \<and> us = []")
    case True
    then show ?thesis using Cons.prems(2) by (intro Cons.prems(1) [of "[]" b bs]) (simp_all add: used_view_def)
  next
    case False
    define us' where "us' = (if ab_used b = Some True then tl us else us)"
    have "used_view bs = us' @ (p, n) # vs" and us: "us = (if ab_used b = Some True then [(ab_data b, ab_size b)] else []) @ us'"
      using False Cons.prems(2) by (auto simp: us'_def used_view_def Cons_eq_append_conv split: if_splits)
    then obtain xs a ys where "bs = xs @ a # ys" "ab_data a = p" "ab_size a = n" "ab_used a = Some True"
      "used_view xs = us'" "used_view ys = vs" using Cons.IH by blast
    then show ?thesis using us by (intro Cons.prems(1) [of "b # xs" a ys]) simp_all
  qed
qed (simp add: used_view_def)

lemma free_used:
  assumes ok: "coarse_ok c (xs @ a # ys)" and u: "ab_used a = Some True" and lk: "lock_ok c"
    and bytes: "bytes = 0 \<or> bytes = ab_size a"
  shows "\<exists>c' bs. coarse_free c (ab_data a) bytes = Some (UMF_RESULT_SUCCESS, c') \<and> coarse_ok c' bs \<and>
    c_strategy c' = c_strategy c \<and> c_cb c' = c_cb c \<and> c_page_size c' = c_page_size c \<and>
    c_alloc_size c' = c_alloc_size c \<and> c_used_size c' = c_used_size c - ab_size a \<and>
    used_view bs = used_view xs @ used_view ys \<and> all_bytes bs = all_bytes (xs @ a # ys)"
proof -
  let ?bs = "xs @ a # ys" and ?c = "locked c" and ?a = "a\<lparr>ab_used := Some False\<rparr>"
  have okl: "coarse_ok ?c ?bs" using ok by simp
  note D = coarse_okD [OF okl]
  have pos: "ab_data a \<noteq> 0" using D(3) unfolding blocks_wf_mid by simp
  obtain m where cb: "cb_merge (c_cb c) = Some m" using ok by (auto simp: coarse_ok_def)
  obtain blk where blk: "c_blocks ?c (ab_blk a) = Some blk" "b_size blk = ab_size a" "b_used blk = ab_used a"
    using crep_block [OF D(2), of a] by auto
  let ?c0 = "?c\<lparr>c_used_size := c_used_size ?c - ab_size a\<rparr>"
  obtain c2 where c2: "upd_block (\<lambda>b. b\<lparr>b_used := Some False\<rparr>) (ab_blk a) ?c0 = Some c2" "loose c2 xs ?a ys"
    "same_env ?c0 c2" "ab_size a \<le> c_used_size c"
    using release_block [OF D(1) u] by auto
  then have "cb_merge (c_cb c2) = Some m" "oom (c_host c2) = []" using cb D(4) by (simp_all add: same_env_def)
  then obtain n1 c3 n2 c4 b c5 bs where r: "free_block_merge_with_prev c2 (ab_node a) = Some (n1, c3)"
    "free_block_merge_with_next c3 n1 = Some (n2, c4)" "get_node_block (c_all c4) n2 = Some b"
    "free_blocks_add c4 b = Some (0, c5)" "same_env c2 c5" "coarse_inv c5 bs" "same_view (xs @ ?a # ys) bs"
    using loose_relink [OF c2(2)] by auto
  have "coarse_free c (ab_data a) bytes = Some (UMF_RESULT_SUCCESS, c5)"
    using pos lk bytes u c2(1,4) blk r(1-4) D(5) crep_find [OF D(2)] crep_node [OF D(2)] debug_check_ok [OF r(6)]
    by (auto simp: coarse_free_def mutex_lock_eq coarse_ravl_find_node_def Let_def)
  moreover have "coarse_ok c5 bs"
    using r(5) c2(3) by (intro coarse_ok_env [OF okl r(6)]) (simp_all add: same_env_def)
  moreover have "used_view bs = used_view xs @ used_view ys" "all_bytes bs = all_bytes ?bs"
    using r(7) by (simp_all add: same_view_def block_bytes_def)
  ultimately show ?thesis using r(5) c2(3) by (intro exI [of _ c5] exI [of _ bs]) (simp add: same_env_def)
qed

section \<open>Splitting\<close>

lemma halves_second:
  assumes "halves a a1 a2"
  shows "ab_data a2 = ab_data a + ab_size a1" "ab_size a2 = ab_size a - ab_size a1"
proof -
  have e: "unat (ab_data a2) = unat (ab_data a) + unat (ab_size a1)" using assms by (simp add: halves_def)
  then have "unat (ab_data a + ab_size a1) = unat (ab_data a) + unat (ab_size a1)"
    using unat_less_u64 [of "ab_data a2"] by (intro unat_plus_u64) simp
  then show "ab_data a2 = ab_data a + ab_size a1" using e by (simp add: word_unat_eq_iff)
  show "ab_size a2 = ab_size a - ab_size a1" using halves_size [OF assms] by simp
qed

lemma add_new_half:
  assumes rep: "crep c (xs @ a # ys) F" and wf: "blocks_wf (xs @ a # ys)" and F: "ab_blk a \<notin> F"
    and f: "0 < f" "f < ab_size a" and oom: "oom (c_host c) = []"
  shows "\<exists>n b c'. coarse_ravl_add_new c (ab_data a + f) (ab_size a - f) = Some (Some b, Some n, c') \<and>
    crep c' (xs @ a # \<lparr>ab_node = n, ab_blk = b, ab_data = ab_data a + f, ab_size = ab_size a - f, ab_used = None\<rparr> # ys) F \<and>
    b \<notin> F \<and> b \<noteq> ab_blk a \<and> b \<notin> ab_blk ` set (xs @ ys) \<and> same_env c c' \<and> c_provider c' = c_provider c"
proof -
  let ?h = "\<lparr>ab_node = 0, ab_blk = 0, ab_data = ab_data a + f, ab_size = ab_size a - f, ab_used = None\<rparr>"
  have h: "halves a (a\<lparr>ab_size := f\<rparr>) ?h" by (rule split_halves [OF wf f]) simp_all
  have wf': "blocks_wf (xs @ a\<lparr>ab_size := f\<rparr> # ?h # ys)" using halves_wf [OF h] wf by blast
  then have nz: "ab_data a + f \<noteq> 0" "ab_size a - f \<noteq> 0" by (simp_all add: blocks_wf_def)
  have lt: "unat (ab_data a) < unat (ab_data a + f)" using h f by (simp add: halves_def word_less_nat_alt)
  have pos: "\<forall>x\<in>set (xs @ [a]). ab_data x < ab_data a + f"
  proof
    fix x assume "x \<in> set (xs @ [a])"
    then consider "x = a" | "x \<in> set xs" by auto
    then show "ab_data x < ab_data a + f"
    proof cases
      case 1
      then show ?thesis using lt by (simp add: word_less_nat_alt)
    next
      case 2
      then have "unat (ab_data x) + unat (ab_size x) \<le> unat (ab_data a)" using wf unfolding blocks_wf_mid by blast
      then show ?thesis using lt by (simp add: word_less_nat_alt)
    qed
  qed
  have pos2: "\<forall>y\<in>set ys. ab_data a + f < ab_data y"
  proof
    fix y assume y: "y \<in> set ys"
    have "unat (ab_data a + f) + unat (ab_size a - f) \<le> unat (ab_data y)"
      using wf' y by (simp add: blocks_wf_def sorted_wrt_append)
    moreover have "0 < unat (ab_size a - f)" using nz(2) by (simp add: unat_gt_0)
    ultimately show "ab_data a + f < ab_data y" by (simp add: word_less_nat_alt)
  qed
  have "crep c ((xs @ [a]) @ ys) F" using rep by simp
  from crep_add_new [OF this oom nz pos pos2] show ?thesis by auto
qed

lemma cinv_halves:
  assumes inv: "cinv c (xs @ a # ys) F" and rep: "crep c' (xs @ a1 # a2 # ys) F'" and h: "halves a a1 a2"
    and u: "ab_used a1 \<noteq> None" "ab_used a2 \<noteq> None"
    and sums: "c_used_size c' - used_size a1 - used_size a2 = c_used_size c - used_size a" "c_alloc_size c' = c_alloc_size c"
  shows "cinv c' (xs @ a1 # a2 # ys) F'"
proof -
  have "c_used_size c' = c_used_size c - used_size a + used_size a1 + used_size a2"
    using sums(1) by (simp add: algebra_simps)
  then have "c_used_size c' = (\<Sum>x\<leftarrow>xs @ a1 # a2 # ys. used_size x)"
    using inv by (simp add: cinv_def)
  moreover have "c_alloc_size c' = (\<Sum>x\<leftarrow>xs @ a1 # a2 # ys. ab_size x)"
    using inv sums(2) halves_size [OF h] by (simp add: cinv_def add.assoc)
  moreover have "blocks_wf (xs @ a1 # a2 # ys)" using halves_wf [OF h] inv by (simp add: cinv_def)
  moreover have "\<forall>x\<in>set (xs @ a1 # a2 # ys). ab_used x \<noteq> None" using inv u by (auto simp: cinv_def)
  ultimately show ?thesis using rep by (simp add: cinv_def)
qed

lemma split_used:
  assumes ok: "coarse_ok c (xs @ a # ys)" and u: "ab_used a = Some True" and lk: "lock_ok c"
    and f: "0 < f" "f < ab_size a" and cb: "cb_split (c_cb c) = Some sp"
    and r: "sp (c_provider c) (ab_data a) (ab_size a) f = (UMF_RESULT_SUCCESS, q)"
  shows "\<exists>c' a1 a2. coarse_split c (ab_data a) (ab_size a) f = Some (UMF_RESULT_SUCCESS, c') \<and>
    coarse_ok c' (xs @ a1 # a2 # ys) \<and> same_env (locked c) c' \<and> c_provider c' = q \<and> halves a a1 a2 \<and>
    ab_size a1 = f \<and> ab_used a1 = Some True \<and> ab_used a2 = Some True"
proof -
  let ?bs = "xs @ a # ys" and ?c = "locked c" and ?F = "free_blks (xs @ a # ys)"
  have okl: "coarse_ok ?c ?bs" using ok by simp
  note D = coarse_okD [OF okl]
  have pos: "ab_data a \<noteq> 0" "ab_size a \<noteq> 0" using D(3) unfolding blocks_wf_mid by simp_all
  have F: "ab_blk a \<notin> ?F" using used_not_free [OF D(2)] u by simp
  obtain blk where blk: "c_blocks c (ab_blk a) = Some blk" "b_size blk = ab_size a" "b_data blk = ab_data a"
    "b_used blk = ab_used a" using crep_block [OF D(2), of a] by auto
  let ?k = "?c\<lparr>c_provider := q\<rparr>"
  have "crep ?k ?bs ?F" "oom (c_host ?k) = []" using D by simp_all
  then obtain n b c2 where c2: "coarse_ravl_add_new ?k (ab_data a + f) (ab_size a - f) = Some (Some b, Some n, c2)"
    "crep c2 (xs @ a # \<lparr>ab_node = n, ab_blk = b, ab_data = ab_data a + f, ab_size = ab_size a - f, ab_used = None\<rparr> # ys) ?F"
    "b \<notin> ?F" "b \<noteq> ab_blk a" "same_env ?k c2" "c_provider c2 = q"
    using add_new_half [of ?k xs a ys ?F f] D(3) F f by auto
  let ?h = "\<lparr>ab_node = n, ab_blk = b, ab_data = ab_data a + f, ab_size = ab_size a - f, ab_used = None\<rparr>"
  let ?a1 = "a\<lparr>ab_size := f, ab_used := Some True\<rparr>" and ?a2 = "?h\<lparr>ab_size := ab_size a - f, ab_used := Some True\<rparr>"
  obtain c3 where c3: "upd_block (\<lambda>b. b\<lparr>b_size := f\<rparr>) (ab_blk a) c2 = Some c3" "crep c3 (xs @ ?a1 # ?h # ys) ?F"
    "same_env c2 c3" "c_provider c3 = q"
    using crep_upd_block [OF c2(2) F, of "\<lambda>b. b\<lparr>b_size := f\<rparr>" f "Some True"] u c2(6) by auto
  have rep3: "crep c3 ((xs @ [?a1]) @ ?h # ys) ?F" using c3(2) by simp
  obtain c4 where c4: "upd_block (\<lambda>b. b\<lparr>b_used := Some True\<rparr>) b c3 = Some c4" "crep c4 (xs @ ?a1 # ?a2 # ys) ?F"
    "same_env c3 c4" "c_provider c4 = q"
    using crep_upd_block [OF rep3, of "\<lambda>b. b\<lparr>b_used := Some True\<rparr>" "ab_size a - f" "Some True"] c2(3) c3(4) by auto
  obtain nblk where nblk: "c_blocks c4 b = Some nblk" "b_size nblk = ab_size a - f"
    using crep_block [OF c4(2), of ?a2] by auto
  have env: "same_env ?c c4" using c2(5) c3(3) c4(3) by (simp add: same_env_def)
  have h: "halves a ?a1 ?a2" by (rule split_halves [OF D(3) f]) simp_all
  have "cinv c4 (xs @ ?a1 # ?a2 # ys) ?F"
    using D(1) env u halves_size [OF h]
    by (intro cinv_halves [OF _ c4(2) h, of ?c]) (simp_all add: coarse_inv_def same_env_def used_size_def)
  moreover have "?F = free_blks (xs @ ?a1 # ?a2 # ys)" using u by (simp add: free_blks_simps)
  ultimately have inv4: "coarse_inv c4 (xs @ ?a1 # ?a2 # ys)" by (simp add: coarse_inv_def)
  have "\<not> ab_size a \<le> f" "f \<noteq> 0" using f by auto
  then have "coarse_split c (ab_data a) (ab_size a) f = Some (UMF_RESULT_SUCCESS, c4)"
    using pos lk cb r blk u D(5) crep_find [OF D(2)] crep_node [OF D(2)] c2(1) c3(1) c4(1) nblk debug_check_ok [OF inv4]
    by (simp add: coarse_split_def mutex_lock_eq coarse_ravl_find_node_def can_provider_split_def)
  moreover have "coarse_ok c4 (xs @ ?a1 # ?a2 # ys)"
    using env by (intro coarse_ok_env [OF okl inv4]) (simp_all add: same_env_def)
  moreover have "ab_size ?a1 = f" "ab_used ?a1 = Some True" "ab_used ?a2 = Some True" by simp_all
  ultimately show ?thesis using env h c4(4) by blast
qed

section \<open>Merging blocks in use\<close>

lemma merge_used:
  assumes ok: "coarse_ok c (xs @ a1 # a2 # ys)" and mg: "mergeable a1 a2 True" and lk: "lock_ok c"
    and cb: "cb_merge (c_cb c) = Some m"
    and r: "m (c_provider c) (ab_data a1) (ab_data a2) (ab_size a1 + ab_size a2) = (UMF_RESULT_SUCCESS, q)"
  shows "\<exists>c' ys2. coarse_merge c (ab_data a1) (ab_data a2) (ab_size a1 + ab_size a2) = Some (UMF_RESULT_SUCCESS, c') \<and>
    coarse_ok c' (xs @ a1\<lparr>ab_size := ab_size a1 + ab_size a2\<rparr> # ys2) \<and> same_env (locked c) c' \<and>
    c_provider c' = q \<and> map acore ys2 = map acore ys"
proof -
  let ?bs = "xs @ a1 # a2 # ys" and ?c = "locked c" and ?a = "a1\<lparr>ab_size := ab_size a1 + ab_size a2\<rparr>"
  have okl: "coarse_ok ?c ?bs" using ok by simp
  note D = coarse_okD [OF okl]
  have u: "ab_used a1 = Some True" "ab_used a2 = Some True" and ct: "ab_data a1 + ab_size a1 = ab_data a2"
    using mg by (simp_all add: mergeable_def)
  have h: "halves ?a a1 a2" by (rule mergeable_halves [OF mg D(3)])
  have pos: "ab_data a1 \<noteq> 0" "ab_data a2 \<noteq> 0" "ab_size a2 \<noteq> 0" using D(3) unfolding blocks_wf_def by simp_all
  have sz: "ab_size a1 + ab_size a2 \<noteq> 0" "\<not> ab_data a2 \<le> ab_data a1" "\<not> ab_size a1 + ab_size a2 \<le> ab_data a2 - ab_data a1"
  proof -
    have "0 < unat (ab_size a1)" "0 < unat (ab_size a2)" using h by (simp_all add: halves_def unat_gt_0)
    moreover have e: "unat (ab_size a1 + ab_size a2) = unat (ab_size a1) + unat (ab_size a2)"
      "unat (ab_data a2) = unat (ab_data a1) + unat (ab_size a1)" using h by (simp_all add: halves_def)
    moreover have "ab_data a2 - ab_data a1 = ab_size a1" using ct by (simp add: algebra_simps)
    ultimately show "ab_size a1 + ab_size a2 \<noteq> 0" "\<not> ab_data a2 \<le> ab_data a1"
      "\<not> ab_size a1 + ab_size a2 \<le> ab_data a2 - ab_data a1"
      by (auto simp: word_le_nat_alt unat_eq_0 [symmetric] simp del: unat_eq_0)
  qed
  have rep2: "crep ?c ((xs @ [a1]) @ a2 # ys) (free_blks ?bs)" using D(2) by simp
  obtain b1 where b1: "c_blocks c (ab_blk a1) = Some b1" "b_size b1 = ab_size a1" "b_used b1 = ab_used a1"
    using crep_block [OF D(2), of a1] by auto
  obtain b2 where b2: "c_blocks c (ab_blk a2) = Some b2" "b_size b2 = ab_size a2" "b_used b2 = ab_used a2"
    using crep_block [OF D(2), of a2] by auto
  have inv: "cinv ?c ?bs (free_blks ?bs)" using D(1) by (simp add: coarse_inv_def)
  obtain c' ys2 where c': "user_block_merge ?c (ab_node a1) (ab_node a2) True = Some (UMF_RESULT_SUCCESS, Some (ab_node a1), c')"
    "map acore ys2 = map acore ys" "same_env ?c c'" "c_provider c' = q"
    "cinv c' (xs @ ?a # ys2) (free_blks ?bs - {ab_blk a1, ab_blk a2})"
    using merge_cinv [OF inv mg, of m q] cb r by auto
  have "free_blks ?bs - {ab_blk a1, ab_blk a2} = free_blks (xs @ ?a # ys2)"
    using not_in_free_blks [OF D(2)] not_in_free_blks [OF rep2] u acore_cong(2) [OF c'(2)]
    by (auto simp: free_blks_simps)
  then have inv': "coarse_inv c' (xs @ ?a # ys2)" using c'(5) by (simp add: coarse_inv_def)
  have rep': "crep c' (xs @ ?a # ys2) (free_blks (xs @ ?a # ys2))" using inv' by (simp add: coarse_inv_def cinv_def)
  obtain b3 where b3: "c_blocks c' (ab_blk a1) = Some b3" "b_size b3 = ab_size a1 + ab_size a2"
    using crep_block [OF rep', of ?a] by auto
  have nav: "get_node_next (c_all c) (ab_node a1) = Some (Some (ab_node a2))"
    "get_node_prev (c_all c) (ab_node a2) = Some (Some (ab_node a1))"
    using crep_next [OF D(2)] crep_prev [OF D(2)] by simp_all
  have "coarse_merge c (ab_data a1) (ab_data a2) (ab_size a1 + ab_size a2) = Some (UMF_RESULT_SUCCESS, c')"
    using pos sz lk D(5) crep_find [OF D(2)] crep_node [OF D(2)] crep_find [OF rep2] crep_node [OF rep2]
      b1 b2 b3 u nav ct c'(1) debug_check_ok [OF inv']
    by (simp add: coarse_merge_def mutex_lock_eq coarse_ravl_find_node_def)
  moreover have "coarse_ok c' (xs @ ?a # ys2)"
    using c'(3) by (intro coarse_ok_env [OF okl inv']) (simp_all add: same_env_def)
  ultimately show ?thesis using c'(2-4) by blast
qed

text \<open>Two blocks in use that touch each other are neighbours in the tree.\<close>

lemma touching_neighbours:
  assumes wf: "blocks_wf bs" and v: "used_view bs = us @ (p, n1) # (p + n1, n2) # vs"
  obtains xs a1 a2 ys where "bs = xs @ a1 # a2 # ys" "mergeable a1 a2 True" "ab_data a1 = p" "ab_size a1 = n1"
    "ab_size a2 = n2" "used_view xs = us" "used_view ys = vs"
proof -
  obtain xs a1 zs where a1: "bs = xs @ a1 # zs" "ab_data a1 = p" "ab_size a1 = n1" "ab_used a1 = Some True"
    "used_view xs = us" "used_view zs = [] @ (p + n1, n2) # vs" using used_view_at [of bs us p n1 "(p + n1, n2) # vs"] v by auto
  obtain ws a2 ys where a2: "zs = ws @ a2 # ys" "ab_data a2 = p + n1" "ab_size a2 = n2" "ab_used a2 = Some True"
    "used_view ws = []" "used_view ys = vs" using used_view_at [OF a1(6)] .
  have "ws = []"
  proof (rule ccontr)
    assume "ws \<noteq> []"
    then obtain w where w: "w \<in> set ws" by (meson list.set_sel(1))
    have le: "unat p + unat n1 \<le> unat (ab_data w)" "unat (ab_data w) + unat (ab_size w) \<le> unat (p + n1)" "ab_size w \<noteq> 0"
      using wf a1 a2 w unfolding blocks_wf_def by (auto simp: sorted_wrt_append)
    moreover have "unat p + unat n1 < 2 ^ 64" using le(1) unat_less_u64 [of "ab_data w"] by linarith
    ultimately have "unat (ab_size w) = 0" using unat_plus_u64 [of p n1] by linarith
    then show False using le(3) by (simp add: unat_eq_0)
  qed
  then show thesis using a1 a2 by (intro that [of xs a1 a2 ys]) (simp_all add: mergeable_def)
qed

section \<open>An example state\<close>

text \<open>Two adjacent blocks in use, at which the theorems are evaluated.\<close>

definition demo_cb :: "unit coarse_callbacks_t" where
  "demo_cb =
     \<lparr>cb_alloc = Some (\<lambda>p sz al. if sz \<le> 0x10000 \<and> 0x10000 AND (al - 1) = 0 then (UMF_RESULT_SUCCESS, 0x10000, p)
                              else (UMF_RESULT_ERROR_OUT_OF_HOST_MEMORY, 0, p)),
      cb_free = Some (\<lambda>p a sz. (UMF_RESULT_SUCCESS, p)),
      cb_split = Some (\<lambda>p a tot sz. (UMF_RESULT_SUCCESS, p)), cb_merge = Some (\<lambda>p lo hi tot. (UMF_RESULT_SUCCESS, p))\<rparr>"

definition demo :: "unit coarse_t" where
  "demo =
     \<lparr>c_provider = (), c_cb = demo_cb, c_strategy = UMF_COARSE_MEMORY_STRATEGY_FASTEST_BUT_ONE, c_page_size = 0x1000,
      c_all = \<lparr>ravl_root = Some 1, ravl_compare = coarse_ravl_comp, ravl_data_size = 16,
               ravl_nodes = [1 \<mapsto> \<lparr>rn_parent = None, rn_left = None, rn_right = Some 2, rn_rank = 1,
                                  rn_pointer_based = False, rn_data = \<lparr>rd_key = 0x1000, rd_value = Some 3\<rparr>\<rparr>,
                             2 \<mapsto> \<lparr>rn_parent = Some 1, rn_left = None, rn_right = None, rn_rank = 0,
                                  rn_pointer_based = False, rn_data = \<lparr>rd_key = 0x3000, rd_value = Some 4\<rparr>\<rparr>]\<rparr>,
      c_free = \<lparr>ravl_root = None, ravl_compare = coarse_ravl_comp, ravl_data_size = 16, ravl_nodes = Map.empty\<rparr>,
      c_used_size = 0x3000, c_alloc_size = 0x3000,
      c_blocks = [3 \<mapsto> \<lparr>b_size = 0x2000, b_data = 0x1000, b_used = Some True, b_free_list_ptr = None\<rparr>,
                  4 \<mapsto> \<lparr>b_size = 0x1000, b_data = 0x3000, b_used = Some True, b_free_list_ptr = None\<rparr>],
      c_heads = Map.empty, c_elems = Map.empty, c_host = \<lparr>next_id = 10, oom = [], lock_fail = []\<rparr>\<rparr>"

definition demo_blocks :: "ablk list" where
  "demo_blocks =
     [\<lparr>ab_node = 1, ab_blk = 3, ab_data = 0x1000, ab_size = 0x2000, ab_used = Some True\<rparr>,
      \<lparr>ab_node = 2, ab_blk = 4, ab_data = 0x3000, ab_size = 0x1000, ab_used = Some True\<rparr>]"

lemma demo_index: "ravl_index rd_key (c_all demo) (map aentry demo_blocks)"
  unfolding ravl_index_def
  by (intro conjI exI [of _ "RNode RLeaf 1 1 False \<lparr>rd_key = 0x1000, rd_value = Some 3\<rparr>
                              (RNode RLeaf 2 0 False \<lparr>rd_key = 0x3000, rd_value = Some 4\<rparr> RLeaf)"])
     (auto simp: demo_def demo_blocks_def cmp_by_def sorted_keys_def ravl_rep_def aentry_def coarse_ravl_comp_def)

lemma demo_free: "free_inv demo {}"
proof -
  have "ravl_index rd_key (c_free demo) []"
    unfolding ravl_index_def
    by (intro conjI exI [of _ RLeaf]) (auto simp: demo_def cmp_by_def sorted_keys_def ravl_rep_def coarse_ravl_comp_def)
  then have "free_rep demo []"
    by (simp add: free_rep_def lists_rep_def felems_def) (simp add: demo_def)
  then show ?thesis unfolding free_inv_def by (intro exI [of _ "[]"]) (simp add: felems_def)
qed

lemma demo_ok: "coarse_ok demo demo_blocks"
proof -
  have "all_rep demo demo_blocks"
    using demo_index by (simp add: all_rep_def) (auto simp: demo_def demo_blocks_def block_core_def)
  moreover have "fresh_ids demo" by (auto simp: fresh_ids_def demo_def)
  ultimately have "crep demo demo_blocks {}" using demo_free by (simp add: crep_def)
  moreover have "free_blks demo_blocks = {}" by (auto simp: demo_blocks_def free_blks_def)
  moreover have "blocks_wf demo_blocks" by (simp add: demo_blocks_def blocks_wf_def)
  moreover have "\<forall>a\<in>set demo_blocks. ab_used a \<noteq> None" by (auto simp: demo_blocks_def)
  moreover have "c_used_size demo = (\<Sum>a\<leftarrow>demo_blocks. used_size a)" "c_alloc_size demo = (\<Sum>a\<leftarrow>demo_blocks. ab_size a)"
    by (simp_all add: demo_def demo_blocks_def used_size_def)
  ultimately have "coarse_inv demo demo_blocks" by (simp add: coarse_inv_def cinv_def)
  then show ?thesis by (simp add: coarse_ok_def) (simp add: demo_def demo_cb_def IS_POWER_OF_2_def)
qed

lemma demo_fields:
  "c_provider demo = ()" "c_cb demo = demo_cb" "c_used_size demo = 0x3000" "c_alloc_size demo = 0x3000"
  "lock_fail (c_host demo) = []" "c_page_size demo = 0x1000"
  by (simp_all add: demo_def)

lemma demo_lock: "lock_ok demo"
  by (simp add: lock_ok_def demo_def mutex_lock_def)

lemma demo_view: "used_view demo_blocks = [(0x1000, 0x2000), (0x3000, 0x1000)]"
  by (simp add: demo_blocks_def used_view_def)

section \<open>Theorems\<close>



text \<open>
  C23. A request to free that is not for a block in use is refused: for an address that was
  never handed out or has been freed already, and for a size other than that of the block,
  \<open>coarse_free\<close> returns \<open>UMF_RESULT_ERROR_INVALID_ARGUMENT\<close> and changes nothing.
\<close>

theorem coarse_free_refuses:
  assumes ok: "coarse_ok c bs" and lk: "lock_ok c" and p: "p \<noteq> 0"
    and no: "\<forall>n. (p, n) \<in> set (used_view bs) \<longrightarrow> bytes \<noteq> 0 \<and> bytes \<noteq> n"
  shows "coarse_free c p bytes = Some (UMF_RESULT_ERROR_INVALID_ARGUMENT, locked c)"
proof (cases "\<exists>a\<in>set bs. ab_data a = p")
  case True
  then obtain xs a ys where bs: "bs = xs @ a # ys" and a: "ab_data a = p" by (metis split_list)
  have "coarse_ok (locked c) (xs @ a # ys)" using ok bs by simp
  note D = coarse_okD [OF this]
  obtain blk where blk: "c_blocks c (ab_blk a) = Some blk" "b_size blk = ab_size a" "b_used blk = ab_used a"
    using crep_block [OF D(2), of a] by auto
  obtain u where u: "ab_used a = Some u" using D(1) by (auto simp: coarse_inv_def cinv_def)
  have "u \<Longrightarrow> bytes \<noteq> 0 \<and> bytes \<noteq> ab_size a" using no bs a u by simp
  then have "u \<Longrightarrow> 0 < bytes \<and> bytes \<noteq> ab_size a" by (simp add: word_neq_0_conv)
  then show ?thesis
    using p lk D(5) a u blk crep_find [OF D(2)] crep_node [OF D(2)]
    by (cases u) (simp_all add: coarse_free_def mutex_lock_eq coarse_ravl_find_node_def)
next
  case False
  have "coarse_ok (locked c) bs" using ok by simp
  note D = coarse_okD [OF this]
  show ?thesis using p lk D(5) False crep_find_none [OF D(2), of p]
    by (simp add: coarse_free_def mutex_lock_eq coarse_ravl_find_node_def)
qed

theorem coarse_free_refuses_witness:
  "coarse_free demo 0x3000 0x500 = Some (UMF_RESULT_ERROR_INVALID_ARGUMENT, locked demo) \<and>
   coarse_free demo 0x2000 0 = Some (UMF_RESULT_ERROR_INVALID_ARGUMENT, locked demo)"
  using coarse_free_refuses [OF demo_ok demo_lock, of "0x3000" "0x500"] coarse_free_refuses [OF demo_ok demo_lock, of "0x2000" 0]
  by (simp add: demo_view)

text \<open>
  C20. Splitting a block in use at \<open>firstSize\<close>, when the upstream provider can split it:
  \<open>coarse_split\<close> succeeds and replaces it in place by two adjacent blocks in use of the
  requested sizes. Nothing else changes.
\<close>

theorem coarse_split_splits:
  assumes "coarse_ok c bs" "lock_ok c" "used_view bs = us @ (p, totalSize) # vs"
    and "0 < firstSize" "firstSize < totalSize" "cb_split (c_cb c) = Some sp"
    and "sp (c_provider c) p totalSize firstSize = (UMF_RESULT_SUCCESS, q)"
  shows "\<exists>c' bs'. coarse_split c p totalSize firstSize = Some (UMF_RESULT_SUCCESS, c') \<and> coarse_ok c' bs' \<and>
    used_view bs' = us @ (p, firstSize) # (p + firstSize, totalSize - firstSize) # vs \<and>
    all_bytes bs' = all_bytes bs \<and> c_used_size c' = c_used_size c \<and> c_alloc_size c' = c_alloc_size c"
proof -
  obtain xs a ys where a: "bs = xs @ a # ys" "ab_data a = p" "ab_size a = totalSize" "ab_used a = Some True"
    "used_view xs = us" "used_view ys = vs" using used_view_at [OF assms(3)] .
  then obtain c' a1 a2 where c': "coarse_split c p totalSize firstSize = Some (UMF_RESULT_SUCCESS, c')"
    "coarse_ok c' (xs @ a1 # a2 # ys)" "same_env (locked c) c'" "halves a a1 a2" "ab_size a1 = firstSize"
    "ab_used a1 = Some True" "ab_used a2 = Some True"
    using split_used [of c xs a ys firstSize sp q] assms by auto
  then have "(ab_data a1, ab_size a1) = (p, firstSize)" "(ab_data a2, ab_size a2) = (p + firstSize, totalSize - firstSize)"
    using halves_second [OF c'(4)] a by (auto simp: halves_def)
  then show ?thesis
    using a c' halves_bytes [OF c'(4)] by (intro exI [of _ c'] exI [of _ "xs @ a1 # a2 # ys"]) (auto simp: same_env_def)
qed

theorem coarse_split_splits_witness:
  "\<exists>c' bs'. coarse_split demo 0x1000 0x2000 0x800 = Some (UMF_RESULT_SUCCESS, c') \<and> coarse_ok c' bs' \<and>
    used_view bs' = [(0x1000, 0x800), (0x1800, 0x1800), (0x3000, 0x1000)] \<and> all_bytes bs' = all_bytes demo_blocks \<and>
    c_used_size c' = c_used_size demo \<and> c_alloc_size c' = c_alloc_size demo"
  using coarse_split_splits [OF demo_ok demo_lock, of "[]" "0x1000" "0x2000" "[(0x3000, 0x1000)]" "0x800"
      "\<lambda>p a tot sz. (UMF_RESULT_SUCCESS, p)" "()"] demo_view
  by (simp add: demo_fields demo_cb_def)

text \<open>
  C21. Merging two blocks in use that touch each other, when the upstream provider can merge
  them: \<open>coarse_merge\<close> succeeds and replaces them by one block in use of the total size.
\<close>

theorem coarse_merge_merges:
  assumes "coarse_ok c bs" "lock_ok c" "used_view bs = us @ (p, n1) # (p + n1, n2) # vs"
    and "cb_merge (c_cb c) = Some m" "m (c_provider c) p (p + n1) (n1 + n2) = (UMF_RESULT_SUCCESS, q)"
  shows "\<exists>c' bs'. coarse_merge c p (p + n1) (n1 + n2) = Some (UMF_RESULT_SUCCESS, c') \<and> coarse_ok c' bs' \<and>
    used_view bs' = us @ (p, n1 + n2) # vs \<and> all_bytes bs' = all_bytes bs \<and>
    c_used_size c' = c_used_size c \<and> c_alloc_size c' = c_alloc_size c"
proof -
  have wf: "blocks_wf bs" using coarse_okD(3) [OF assms(1)] .
  obtain xs a1 a2 ys where a: "bs = xs @ a1 # a2 # ys" "mergeable a1 a2 True" "ab_data a1 = p" "ab_size a1 = n1"
    "ab_size a2 = n2" "used_view xs = us" "used_view ys = vs" using touching_neighbours [OF wf assms(3)] .
  then have "ab_data a2 = p + n1" by (simp add: mergeable_def)
  then obtain c' ys2 where c': "coarse_merge c p (p + n1) (n1 + n2) = Some (UMF_RESULT_SUCCESS, c')"
    "coarse_ok c' (xs @ a1\<lparr>ab_size := n1 + n2\<rparr> # ys2)" "same_env (locked c) c'" "map acore ys2 = map acore ys"
    using merge_used [of c xs a1 a2 ys m q] a assms by auto
  have "block_bytes (a1\<lparr>ab_size := n1 + n2\<rparr>) = block_bytes a1 \<union> block_bytes a2"
    using halves_bytes [OF mergeable_halves [OF a(2) wf [unfolded a(1)]]] a(4,5) by simp
  then show ?thesis
    using a c' acore_cong [OF c'(4)]
    by (intro exI [of _ c'] exI [of _ "xs @ a1\<lparr>ab_size := n1 + n2\<rparr> # ys2"]) (auto simp: same_env_def mergeable_def)
qed

theorem coarse_merge_merges_witness:
  "\<exists>c' bs'. coarse_merge demo 0x1000 0x3000 0x3000 = Some (UMF_RESULT_SUCCESS, c') \<and> coarse_ok c' bs' \<and>
    used_view bs' = [(0x1000, 0x3000)] \<and> all_bytes bs' = all_bytes demo_blocks \<and>
    c_used_size c' = c_used_size demo \<and> c_alloc_size c' = c_alloc_size demo"
  using coarse_merge_merges [OF demo_ok demo_lock, of "[]" "0x1000" "0x2000" "0x1000" "[]"
      "\<lambda>p lo hi tot. (UMF_RESULT_SUCCESS, p)" "()"] demo_view
  by (simp add: demo_fields demo_cb_def)

text \<open>
  C22. Splitting a block and merging the two parts again, when the upstream provider agrees
  to both, gives back the blocks in use of the start.
\<close>

theorem coarse_split_merge_roundtrip:
  assumes "coarse_ok c bs" "lock_fail (c_host c) = []" "(p, totalSize) \<in> set (used_view bs)"
    and "0 < firstSize" "firstSize < totalSize"
    and "cb_split (c_cb c) = Some (\<lambda>pr a tot sz. (UMF_RESULT_SUCCESS, pr))"
    and "cb_merge (c_cb c) = Some (\<lambda>pr lo hi tot. (UMF_RESULT_SUCCESS, pr))"
  shows "\<exists>c1 c2 bs'. coarse_split c p totalSize firstSize = Some (UMF_RESULT_SUCCESS, c1) \<and>
    coarse_merge c1 p (p + firstSize) totalSize = Some (UMF_RESULT_SUCCESS, c2) \<and>
    coarse_ok c2 bs' \<and> used_view bs' = used_view bs \<and> all_bytes bs' = all_bytes bs"
proof -
  obtain us vs where v: "used_view bs = us @ (p, totalSize) # vs" using split_list [OF assms(3)] by blast
  obtain xs a ys where a: "bs = xs @ a # ys" "ab_data a = p" "ab_size a = totalSize" "ab_used a = Some True"
    using used_view_at [OF v] .
  have lk: "lock_ok k" if "lock_fail (c_host k) = []" for k :: "'a coarse_t"
    using that by (simp add: lock_ok_def mutex_lock_def)
  have lkf: "lock_fail (c_host (locked c)) = []" using assms(2) by (simp add: locked_def mutex_lock_def)
  obtain c1 a1 a2 where c1: "coarse_split c p totalSize firstSize = Some (UMF_RESULT_SUCCESS, c1)"
    "coarse_ok c1 (xs @ a1 # a2 # ys)" "same_env (locked c) c1" "halves a a1 a2" "ab_size a1 = firstSize"
    "ab_used a1 = Some True" "ab_used a2 = Some True"
    using split_used [of c xs a ys firstSize "\<lambda>pr a tot sz. (UMF_RESULT_SUCCESS, pr)" "c_provider c"] assms a
      lk [OF assms(2)] by auto
  note h2 = halves_second [OF c1(4)]
  have mg: "mergeable a1 a2 True" using c1(4,6,7) h2(1) by (simp add: mergeable_def halves_def)
  have e: "ab_data a1 = p" "ab_data a2 = p + firstSize" "ab_size a1 + ab_size a2 = totalSize"
    using c1(4,5) h2 a halves_size [OF c1(4)] by (simp_all add: halves_def)
  have "lock_ok c1" using c1(3) lkf by (intro lk) (simp add: same_env_def)
  moreover have "cb_merge (c_cb c1) = Some (\<lambda>pr lo hi tot. (UMF_RESULT_SUCCESS, pr))"
    using c1(3) assms(7) by (simp add: same_env_def)
  ultimately obtain c2 ys2 where c2: "coarse_merge c1 p (p + firstSize) totalSize = Some (UMF_RESULT_SUCCESS, c2)"
    "coarse_ok c2 (xs @ a1\<lparr>ab_size := totalSize\<rparr> # ys2)" "map acore ys2 = map acore ys"
    using merge_used [OF c1(2) mg, of "\<lambda>pr lo hi tot. (UMF_RESULT_SUCCESS, pr)" "c_provider c1"] e by auto
  have "block_bytes (a1\<lparr>ab_size := totalSize\<rparr>) = block_bytes a" using e(1) a by (simp add: block_bytes_def)
  then show ?thesis
    using c1(1,6) c2(1,2) acore_cong(3,4) [OF c2(3)] a e(1)
    by (intro exI [of _ c1] exI [of _ c2] exI [of _ "xs @ a1\<lparr>ab_size := totalSize\<rparr> # ys2"]) simp
qed

theorem coarse_split_merge_roundtrip_witness:
  "\<exists>c1 c2 bs'. coarse_split demo 0x1000 0x2000 0x1000 = Some (UMF_RESULT_SUCCESS, c1) \<and>
    coarse_merge c1 0x1000 0x2000 0x2000 = Some (UMF_RESULT_SUCCESS, c2) \<and>
    coarse_ok c2 bs' \<and> used_view bs' = used_view demo_blocks \<and> all_bytes bs' = all_bytes demo_blocks"
  using coarse_split_merge_roundtrip [OF demo_ok, of "0x1000" "0x2000" "0x1000"] demo_view
  by (simp add: demo_fields demo_cb_def)

end
