(* ===== verification/Coarse_Alloc.thy ===== *)
theory Coarse_Alloc
  imports Coarse_Ops
begin

text \<open>
  Allocation from the coarse allocator: the search of a free block under the three
  strategies, the request to the upstream provider, the alignment and the split of the block
  found, and the two ways to add memory. The theorems state that an allocation is aligned,
  has the requested size and does not overlap any other block in use.
\<close>

section \<open>The block being allocated\<close>

text \<open>
  \<open>held c xs a ys\<close>: the block \<open>a\<close> has been taken out of the free lists. Its \<^verbatim>\<open>used\<close> field is
  not constrained, since \<open>create_aligned_block\<close> leaves it unset in a new block.
\<close>

definition held :: "'p coarse_t \<Rightarrow> ablk list \<Rightarrow> ablk \<Rightarrow> ablk list \<Rightarrow> bool" where
  "held c xs a ys \<longleftrightarrow>
     crep c (xs @ a # ys) (free_blks (xs @ ys)) \<and> blocks_wf (xs @ a # ys) \<and>
     (\<forall>x\<in>set (xs @ ys). ab_used x \<noteq> None) \<and>
     c_used_size c = (\<Sum>x\<leftarrow>xs @ ys. used_size x) \<and> c_alloc_size c = (\<Sum>x\<leftarrow>xs @ a # ys. ab_size x)"

lemma loose_held:
  assumes "loose c xs a ys"
  shows "held c xs a ys"
proof -
  have "free_blks (xs @ a # ys) - {ab_blk a} = free_blks (xs @ ys)"
    using not_in_free_blks [OF loose_crep [OF assms]] by (auto simp: free_blks_simps)
  then show ?thesis using assms by (auto simp: held_def loose_def cinv_def used_size_def)
qed

lemma held_not_free: "held c xs a ys \<Longrightarrow> ab_blk a \<notin> free_blks (xs @ ys)"
  using not_in_free_blks [of c xs a ys "free_blks (xs @ ys)"] by (simp add: held_def free_blks_append)

lemma held_block:
  assumes "held c xs a ys"
  obtains blk where "c_blocks c (ab_blk a) = Some blk" "b_size blk = ab_size a"
    "b_data blk = ab_data a" "b_used blk = ab_used a"
proof -
  have "crep c (xs @ a # ys) (free_blks (xs @ ys))" using assms by (simp add: held_def)
  then show thesis using crep_block [of c _ _ a] that by (metis in_set_conv_decomp)
qed

section \<open>Alignment of the block\<close>

lemma ALIGN_UP_aligned:
  assumes "IS_POWER_OF_2 al" "IS_ALIGNED v al"
  shows "ALIGN_UP v al = v"
proof -
  obtain k where k: "al - 1 = mask k" using assms(1) by (elim IS_POWER_OF_2_E)
  have "v AND mask k = 0" using assms k by (auto simp: IS_ALIGNED_def IS_POWER_OF_2_def)
  then have "v + mask k = v OR mask k" by (rule disjunctive_add_eq_or)
  then have "ALIGN_UP v al = (v OR mask k) AND NOT (mask k)"
    using k by (simp add: ALIGN_UP_def add_diff_eq [symmetric])
  also have "\<dots> = v"
  proof (rule bit_word_eqI)
    fix n assume "n < LENGTH(64)"
    have "\<not> (bit v n \<and> bit (mask k :: u64) n)" using \<open>v AND mask k = 0\<close> by (metis bit_0_eq bit_and_iff bot_apply bot_bool_def)
    then show "bit ((v OR mask k) AND NOT (mask k)) n = bit v n" using \<open>n < LENGTH(64)\<close> by (auto simp: bit_simps)
  qed
  finally show ?thesis .
qed

text \<open>The rest of the block after the padding becomes the block that is held.\<close>

lemma create_aligned_ok:
  assumes hd: "held c xs a ys" and oom: "oom (c_host c) = []" and al: "IS_POWER_OF_2 al"
    and sp: "cb_split (c_cb c) = Some sp" "\<And>p d t f. fst (sp p d t f) = UMF_RESULT_SUCCESS"
    and room: "sz \<le> ab_size a" "IS_ALIGNED (ab_data a) al \<or> unat sz + unat al \<le> unat (ab_size a)"
  shows "\<exists>c' xs' a'. create_aligned_block c sz al (ab_blk a) = Some (UMF_RESULT_SUCCESS, ab_blk a', c') \<and>
    held c' xs' a' ys \<and> same_env c c' \<and> IS_ALIGNED (ab_data a') al \<and> sz \<le> ab_size a' \<and>
    (ab_size a = sz \<longrightarrow> ab_size a' = sz) \<and> (sz < ab_size a \<longrightarrow> sz < ab_size a') \<and>
    used_view xs' = used_view xs \<and> all_bytes xs' \<union> block_bytes a' = all_bytes xs \<union> block_bytes a"
proof -
  let ?F = "free_blks (xs @ ys)"
  obtain blk where blk: "c_blocks c (ab_blk a) = Some blk" "b_size blk = ab_size a" "b_data blk = ab_data a"
    "b_used blk = ab_used a" using hd by (rule held_block)
  have rep: "crep c (xs @ a # ys) ?F" and wf: "blocks_wf (xs @ a # ys)" using hd by (simp_all add: held_def)
  have end_le: "unat (ab_data a) + unat (ab_size a) \<le> 2 ^ 64" using wf unfolding blocks_wf_mid by simp
  have al0: "0 < unat al" "al \<noteq> 0" "0 < al" using pred_unat_pow2 [OF al] by (auto simp: word_neq_0_conv [symmetric])
  show ?thesis
  proof (cases "ALIGN_UP (ab_data a) al - ab_data a = 0")
    case True
    have "IS_ALIGNED (ab_data a) al"
    proof (cases "IS_ALIGNED (ab_data a) al")
      case False
      then have "unat (ab_data a) + unat al - 1 < 2 ^ 64" using room(2) end_le al0 by linarith
      then have "unat al dvd unat (ALIGN_UP (ab_data a) al)" by (simp add: unat_ALIGN_UP [OF al])
      then show ?thesis using True by (simp add: IS_ALIGNED_pow2 [OF al])
    qed
    moreover have "create_aligned_block c sz al (ab_blk a) = Some (UMF_RESULT_SUCCESS, ab_blk a, c)"
      using blk True by (simp add: create_aligned_block_def Let_def)
    ultimately show ?thesis using hd room by (intro exI [of _ c] exI [of _ xs] exI [of _ a]) simp
  next
    case False
    then have "\<not> IS_ALIGNED (ab_data a) al" using ALIGN_UP_aligned [OF al] by auto
    then have rm: "unat sz + unat al \<le> unat (ab_size a)" using room(2) by simp
    then have nw: "unat (ab_data a) + unat al - 1 < 2 ^ 64" using end_le al0 by linarith
    define pad where "pad = ALIGN_UP (ab_data a) al - ab_data a"
    have up: "unat (ALIGN_UP (ab_data a) al) = (unat (ab_data a) + unat al - 1) div unat al * unat al"
      by (rule unat_ALIGN_UP [OF al nw])
    note bd = round_up_bounds [OF al0(1), of "unat (ab_data a)"]
    have "unat pad = unat (ALIGN_UP (ab_data a) al) - unat (ab_data a)"
      unfolding pad_def using up bd by (intro unat_minus_u64) simp
    then have pad: "unat pad < unat al" "pad \<noteq> 0" "ab_data a + pad = ALIGN_UP (ab_data a) al"
      using up bd False al0 by (auto simp: pad_def)
    then have pos: "0 < pad" "pad < ab_size a" using rm by (simp_all add: word_less_nat_alt word_neq_0_conv)
    obtain q where q: "sp (c_provider c) (ab_data a) (ab_size a) pad = (UMF_RESULT_SUCCESS, q)" using sp(2) by (metis prod.collapse)
    let ?k = "c\<lparr>c_provider := q\<rparr>"
    have "crep ?k (xs @ a # ys) ?F" "oom (c_host ?k) = []" using rep oom by simp_all
    then obtain n b c2 where c2: "coarse_ravl_add_new ?k (ab_data a + pad) (ab_size a - pad) = Some (Some b, Some n, c2)"
      "crep c2 (xs @ a # \<lparr>ab_node = n, ab_blk = b, ab_data = ab_data a + pad, ab_size = ab_size a - pad, ab_used = None\<rparr> # ys) ?F"
      "b \<notin> ?F" "b \<noteq> ab_blk a" "same_env ?k c2"
      using add_new_half [of ?k xs a ys ?F pad] wf held_not_free [OF hd] pos by auto
    let ?h = "\<lparr>ab_node = n, ab_blk = b, ab_data = ab_data a + pad, ab_size = ab_size a - pad, ab_used = None\<rparr>"
    let ?a1 = "a\<lparr>ab_size := pad, ab_used := Some False\<rparr>"
    obtain c3 where c3: "upd_block (\<lambda>b. b\<lparr>b_used := Some False, b_size := pad\<rparr>) (ab_blk a) c2 = Some c3"
      "crep c3 (xs @ ?a1 # ?h # ys) ?F" "same_env c2 c3"
      using crep_upd_block [OF c2(2) held_not_free [OF hd], of "\<lambda>b. b\<lparr>b_used := Some False, b_size := pad\<rparr>" pad "Some False"]
      by auto
    have "oom (c_host c3) = []" using oom c2(5) c3(3) by (simp add: same_env_def)
    then obtain c4 where c4: "free_blocks_add c3 (ab_blk a) = Some (0, c4)" "crep c4 (xs @ ?a1 # ?h # ys) (insert (ab_blk a) ?F)"
      "same_env c3 c4"
      using crep_add_free [OF c3(2), of ?a1] held_not_free [OF hd] by auto
    have env: "same_env c c4" using c2(5) c3(3) c4(3) by (simp add: same_env_def)
    have h: "halves a ?a1 ?h" by (rule split_halves [OF wf pos]) simp_all
    obtain nb where nb: "c_blocks c4 b = Some nb" "b_size nb = ab_size a - pad"
      using crep_block [OF c4(2), of ?h] by auto
    have szp: "unat (ab_size a - pad) = unat (ab_size a) - unat pad" using pos by (intro unat_minus_u64) (simp add: word_less_nat_alt)
    then have lt: "sz < ab_size a - pad" using rm pad(1) by (simp add: word_less_nat_alt)
    have "create_aligned_block c sz al (ab_blk a) = Some (UMF_RESULT_SUCCESS, ab_blk ?h, c4)"
      using blk al0 pos c2(1) c3(1) c4(1) nb q sp(1) less_imp_le [OF lt] pad_def
      by (simp add: create_aligned_block_def can_provider_split_def Let_def)
    moreover have "held c4 (xs @ [?a1]) ?h ys"
    proof -
      have "insert (ab_blk a) ?F = free_blks ((xs @ [?a1]) @ ys)" by (auto simp: free_blks_simps)
      then have "crep c4 ((xs @ [?a1]) @ ?h # ys) (free_blks ((xs @ [?a1]) @ ys))" using c4(2) by simp
      moreover have "blocks_wf ((xs @ [?a1]) @ ?h # ys)" using halves_wf [OF h, of xs ys] wf by simp
      moreover have "\<forall>x\<in>set ((xs @ [?a1]) @ ys). ab_used x \<noteq> None" using hd by (auto simp: held_def)
      moreover have "c_used_size c4 = (\<Sum>x\<leftarrow>(xs @ [?a1]) @ ys. used_size x)"
        "c_alloc_size c4 = (\<Sum>x\<leftarrow>(xs @ [?a1]) @ ?h # ys. ab_size x)"
        using hd env halves_size [OF h] by (simp_all add: held_def same_env_def used_size_def add.assoc)
      ultimately show ?thesis by (simp add: held_def)
    qed
    moreover have "IS_ALIGNED (ab_data ?h) al" using pad(3) up by (simp add: IS_ALIGNED_pow2 [OF al])
    moreover have "ab_size a \<noteq> sz" using rm al0 by auto
    moreover have "all_bytes (xs @ [?a1]) \<union> block_bytes ?h = all_bytes xs \<union> block_bytes a"
      using halves_bytes [OF h] by (auto simp: all_bytes_def)
    moreover have "used_view (xs @ [?a1]) = used_view xs" by (simp add: used_view_def)
    ultimately show ?thesis using env lt by (intro exI [of _ c4] exI [of _ "xs @ [?a1]"] exI [of _ ?h]) auto
  qed
qed

section \<open>Taking the block\<close>

lemma take_whole:
  assumes hd: "held c xs a ys" and sz: "ab_size a = sz"
  shows "\<exists>c'. upd_block (\<lambda>b. b\<lparr>b_used := Some True\<rparr>) (ab_blk a) c = Some c' \<and> same_env c c' \<and>
    coarse_inv (c'\<lparr>c_used_size := c_used_size c' + sz\<rparr>) (xs @ a\<lparr>ab_used := Some True\<rparr> # ys) \<and>
    (\<exists>blk. c_blocks c' (ab_blk a) = Some blk \<and> b_data blk = ab_data a)"
proof -
  let ?F = "free_blks (xs @ ys)" and ?a = "a\<lparr>ab_used := Some True\<rparr>"
  have rep: "crep c (xs @ a # ys) ?F" using hd by (simp add: held_def)
  obtain c' where c': "upd_block (\<lambda>b. b\<lparr>b_used := Some True\<rparr>) (ab_blk a) c = Some c'"
    "crep c' (xs @ a\<lparr>ab_size := ab_size a, ab_used := Some True\<rparr> # ys) ?F" "same_env c c'"
    using crep_upd_block [OF rep held_not_free [OF hd], of "\<lambda>b. b\<lparr>b_used := Some True\<rparr>" "ab_size a" "Some True"] by auto
  have rep': "crep c' (xs @ ?a # ys) ?F" using c'(2) by simp
  have "?F = free_blks (xs @ ?a # ys)" by (simp add: free_blks_simps)
  then have "crep (c'\<lparr>c_used_size := c_used_size c' + sz\<rparr>) (xs @ ?a # ys) (free_blks (xs @ ?a # ys))"
    using rep' by simp
  moreover have "blocks_wf (xs @ ?a # ys)" using hd unfolding held_def blocks_wf_mid by simp
  moreover have "\<forall>x\<in>set (xs @ ?a # ys). ab_used x \<noteq> None" using hd by (auto simp: held_def)
  moreover have "c_used_size c' + sz = (\<Sum>x\<leftarrow>xs @ ?a # ys. used_size x)" "c_alloc_size c' = (\<Sum>x\<leftarrow>xs @ ?a # ys. ab_size x)"
    using hd c'(3) sz by (simp_all add: held_def same_env_def used_size_def)
  ultimately have "coarse_inv (c'\<lparr>c_used_size := c_used_size c' + sz\<rparr>) (xs @ ?a # ys)"
    by (simp add: coarse_inv_def cinv_def)
  moreover obtain blk where "c_blocks c' (ab_blk a) = Some blk" "b_data blk = ab_data a"
    using crep_block [OF rep', of ?a] by auto
  ultimately show ?thesis using c'(1,3) by blast
qed

lemma take_part:
  assumes hd: "held c xs a ys" and sz: "0 < sz" "sz < ab_size a" and oom: "oom (c_host c) = []"
    and sp: "cb_split (c_cb c) = Some sp" "\<And>p d t f. fst (sp p d t f) = UMF_RESULT_SUCCESS"
  shows "\<exists>c2 c3 a1 a2. split_current_block c (ab_blk a) sz = Some (UMF_RESULT_SUCCESS, c2) \<and>
    upd_block (\<lambda>b. b\<lparr>b_size := sz\<rparr>) (ab_blk a) c2 = Some c3 \<and> held c3 xs a1 (a2 # ys) \<and> same_env c c3 \<and>
    halves a a1 a2 \<and> ab_size a1 = sz \<and> ab_used a2 = Some False \<and> ab_blk a1 = ab_blk a"
proof -
  let ?F = "free_blks (xs @ ys)"
  obtain blk where blk: "c_blocks c (ab_blk a) = Some blk" "b_size blk = ab_size a" "b_data blk = ab_data a"
    "b_used blk = ab_used a" using hd by (rule held_block)
  have rep: "crep c (xs @ a # ys) ?F" and wf: "blocks_wf (xs @ a # ys)" using hd by (simp_all add: held_def)
  obtain q where q: "sp (c_provider c) (ab_data a) (ab_size a) sz = (UMF_RESULT_SUCCESS, q)" using sp(2) by (metis prod.collapse)
  let ?k = "c\<lparr>c_provider := q\<rparr>"
  have "crep ?k (xs @ a # ys) ?F" "oom (c_host ?k) = []" using rep oom by simp_all
  then obtain n b c1 where c1: "coarse_ravl_add_new ?k (ab_data a + sz) (ab_size a - sz) = Some (Some b, Some n, c1)"
    "crep c1 (xs @ a # \<lparr>ab_node = n, ab_blk = b, ab_data = ab_data a + sz, ab_size = ab_size a - sz, ab_used = None\<rparr> # ys) ?F"
    "b \<notin> ?F" "b \<noteq> ab_blk a" "same_env ?k c1"
    using add_new_half [of ?k xs a ys ?F sz] wf held_not_free [OF hd] sz by auto
  let ?h = "\<lparr>ab_node = n, ab_blk = b, ab_data = ab_data a + sz, ab_size = ab_size a - sz, ab_used = None\<rparr>"
  let ?a1 = "a\<lparr>ab_size := sz, ab_used := ab_used a\<rparr>" and ?a2 = "?h\<lparr>ab_size := ab_size a - sz, ab_used := Some False\<rparr>"
  have "crep c1 ((xs @ [a]) @ ?h # ys) ?F" using c1(2) by simp
  then obtain c2 where c2: "upd_block (\<lambda>b. b\<lparr>b_used := Some False\<rparr>) b c1 = Some c2" "crep c2 ((xs @ [a]) @ ?a2 # ys) ?F"
    "same_env c1 c2"
    using crep_upd_block [of c1 "xs @ [a]" ?h ys ?F "\<lambda>b. b\<lparr>b_used := Some False\<rparr>" "ab_size a - sz" "Some False"] c1(3) by auto
  have "oom (c_host c2) = []" using oom c1(5) c2(3) by (simp add: same_env_def)
  then obtain c3 where c3: "free_blocks_add c2 b = Some (0, c3)" "crep c3 ((xs @ [a]) @ ?a2 # ys) (insert b ?F)" "same_env c2 c3"
    using crep_add_free [OF c2(2), of ?a2] c1(3) by auto
  have node: "get_node_block (c_all c2) n = Some b" using crep_node [OF c2(2)] by simp
  have split: "split_current_block c (ab_blk a) sz = Some (UMF_RESULT_SUCCESS, c3)"
    using blk q sp(1) c1(1) c2(1) c3(1) node by (simp add: split_current_block_def can_provider_split_def)
  have "crep c3 (xs @ a # ?a2 # ys) (insert b ?F)" using c3(2) by simp
  moreover have nf: "ab_blk a \<notin> insert b ?F" using c1(4) held_not_free [OF hd] by auto
  ultimately obtain c4 where c4: "upd_block (\<lambda>b. b\<lparr>b_size := sz\<rparr>) (ab_blk a) c3 = Some c4"
    "crep c4 (xs @ ?a1 # ?a2 # ys) (insert b ?F)" "same_env c3 c4"
    using crep_upd_block [of c3 xs a "?a2 # ys" "insert b ?F" "\<lambda>b. b\<lparr>b_size := sz\<rparr>" sz "ab_used a"] by auto
  have env: "same_env c c4" using c1(5) c2(3) c3(3) c4(3) by (simp add: same_env_def)
  have h: "halves a ?a1 ?a2" by (rule split_halves [OF wf sz]) simp_all
  have "held c4 xs ?a1 (?a2 # ys)"
  proof -
    have "insert b ?F = free_blks (xs @ ?a2 # ys)" by (auto simp: free_blks_simps)
    then have "crep c4 (xs @ ?a1 # ?a2 # ys) (free_blks (xs @ ?a2 # ys))" using c4(2) by simp
    moreover have "blocks_wf (xs @ ?a1 # ?a2 # ys)" using halves_wf [OF h, of xs ys] wf by simp
    moreover have "\<forall>x\<in>set (xs @ ?a2 # ys). ab_used x \<noteq> None" using hd by (auto simp: held_def)
    moreover have "c_used_size c4 = (\<Sum>x\<leftarrow>xs @ ?a2 # ys. used_size x)"
      "c_alloc_size c4 = (\<Sum>x\<leftarrow>xs @ ?a1 # ?a2 # ys. ab_size x)"
      using hd env halves_size [OF h] by (simp_all add: held_def same_env_def used_size_def add.assoc)
    ultimately show ?thesis by (simp add: held_def)
  qed
  moreover have "ab_size ?a1 = sz" "ab_used ?a2 = Some False" "ab_blk ?a1 = ab_blk a" by simp_all
  ultimately show ?thesis using split c4(1) env h by blast
qed

text \<open>The whole of \<open>alloc_use_block\<close> on a block that is large enough.\<close>

lemma use_block_ok:
  assumes lo: "loose c xs a ys" and oom: "oom (c_host c) = []" and al: "IS_POWER_OF_2 al" and sz: "0 < sz"
    and sp: "cb_split (c_cb c) = Some sp" "\<And>p d t f. fst (sp p d t f) = UMF_RESULT_SUCCESS"
    and room: "sz \<le> ab_size a" "IS_ALIGNED (ab_data a) al \<or> unat sz + unat al \<le> unat (ab_size a)"
  shows "\<exists>d c' bs us vs. alloc_use_block c sz al (ab_blk a) r = Some (UMF_RESULT_SUCCESS, d, c') \<and> coarse_inv c' bs \<and>
    same_env (c\<lparr>c_used_size := c_used_size c + sz\<rparr>) c' \<and> IS_ALIGNED d al \<and>
    used_view (xs @ a # ys) = us @ vs \<and> used_view bs = us @ (d, sz) # vs \<and> all_bytes bs = all_bytes (xs @ a # ys)"
proof -
  obtain blk where blk: "c_blocks c (ab_blk a) = Some blk" "b_size blk = ab_size a" "b_data blk = ab_data a"
    "b_used blk = ab_used a" using loose_held [OF lo] by (rule held_block)
  have u: "ab_used a = Some False" using lo by (simp add: loose_def)
  have al0: "0 < al" using pred_unat_pow2 [OF al] by (auto simp: word_less_nat_alt)
  obtain c1 xs' a' where c1: "create_aligned_block c sz al (ab_blk a) = Some (UMF_RESULT_SUCCESS, ab_blk a', c1)"
    "held c1 xs' a' ys" "same_env c c1" "IS_ALIGNED (ab_data a') al" "sz \<le> ab_size a'"
    "ab_size a = sz \<longrightarrow> ab_size a' = sz" "sz < ab_size a \<longrightarrow> sz < ab_size a'" "used_view xs' = used_view xs"
    "all_bytes xs' \<union> block_bytes a' = all_bytes xs \<union> block_bytes a"
    using create_aligned_ok [OF loose_held [OF lo] oom al sp room] by blast
  have view: "used_view (xs @ a # ys) = used_view xs' @ used_view ys" using u c1(8) by simp
  show ?thesis
  proof (cases "sz < ab_size a")
    case False
    then have eq: "ab_size a = sz" "ab_size a' = sz" using room(1) c1(6) by auto
    obtain c2 blk2 where c2: "upd_block (\<lambda>b. b\<lparr>b_used := Some True\<rparr>) (ab_blk a') c1 = Some c2" "same_env c1 c2"
      "coarse_inv (c2\<lparr>c_used_size := c_used_size c2 + sz\<rparr>) (xs' @ a'\<lparr>ab_used := Some True\<rparr> # ys)"
      "c_blocks c2 (ab_blk a') = Some blk2" "b_data blk2 = ab_data a'"
      using take_whole [OF c1(2) eq(2)] by blast
    let ?c = "c2\<lparr>c_used_size := c_used_size c2 + sz\<rparr>" and ?bs = "xs' @ a'\<lparr>ab_used := Some True\<rparr> # ys"
    have "alloc_use_block c sz al (ab_blk a) r = Some (UMF_RESULT_SUCCESS, ab_data a', ?c)"
      using blk u al0 eq(1) c1(1) c2(1,4,5) by (simp add: alloc_use_block_def Let_def)
    moreover have "used_view ?bs = used_view xs' @ (ab_data a', sz) # used_view ys" using eq(2) by simp
    moreover have "all_bytes ?bs = all_bytes (xs @ a # ys)" using c1(9) by (auto simp: block_bytes_def)
    moreover have "same_env (c\<lparr>c_used_size := c_used_size c + sz\<rparr>) ?c" using c1(3) c2(2) by (simp add: same_env_def)
    ultimately show ?thesis using c2(3) c1(4) view by blast
  next
    case True
    have k: "cb_split (c_cb c1) = Some sp" "oom (c_host c1) = []" using c1(3) sp(1) oom by (simp_all add: same_env_def)
    obtain c2 c3 a1 a2 where c2: "split_current_block c1 (ab_blk a') sz = Some (UMF_RESULT_SUCCESS, c2)"
      "upd_block (\<lambda>b. b\<lparr>b_size := sz\<rparr>) (ab_blk a') c2 = Some c3" "held c3 xs' a1 (a2 # ys)" "same_env c1 c3"
      "halves a' a1 a2" "ab_size a1 = sz" "ab_used a2 = Some False" "ab_blk a1 = ab_blk a'"
      using take_part [OF c1(2) sz _ k(2,1) sp(2)] c1(7) True by blast
    obtain c4 blk4 where c4: "upd_block (\<lambda>b. b\<lparr>b_used := Some True\<rparr>) (ab_blk a') c3 = Some c4" "same_env c3 c4"
      "coarse_inv (c4\<lparr>c_used_size := c_used_size c4 + sz\<rparr>) (xs' @ a1\<lparr>ab_used := Some True\<rparr> # a2 # ys)"
      "c_blocks c4 (ab_blk a') = Some blk4" "b_data blk4 = ab_data a1"
      using take_whole [OF c2(3,6)] c2(8) by auto
    let ?c = "c4\<lparr>c_used_size := c_used_size c4 + sz\<rparr>" and ?bs = "xs' @ a1\<lparr>ab_used := Some True\<rparr> # a2 # ys"
    have d: "ab_data a1 = ab_data a'" using c2(5) by (simp add: halves_def)
    have "\<not> ab_size a < sz" using True by auto
    then have "alloc_use_block c sz al (ab_blk a) r = Some (UMF_RESULT_SUCCESS, ab_data a', ?c)"
      using blk u al0 True c1(1) c2(1,2) c4(1,4,5) d by (simp add: alloc_use_block_def Let_def)
    moreover have "used_view ?bs = used_view xs' @ (ab_data a', sz) # used_view ys" using c2(6,7) d by simp
    moreover have "all_bytes ?bs = all_bytes (xs @ a # ys)"
      using c1(9) halves_bytes [OF c2(5)] by (auto simp: block_bytes_def)
    moreover have "same_env (c\<lparr>c_used_size := c_used_size c + sz\<rparr>) ?c"
      using c1(3) c2(4) c4(2) by (simp add: same_env_def)
    ultimately show ?thesis using c4(3) c1(4) view by blast
  qed
qed

section \<open>Finding a block\<close>

definition taken :: "'p coarse_t \<Rightarrow> 'p coarse_t \<Rightarrow> ablk list \<Rightarrow> ptr \<Rightarrow> (ablk \<Rightarrow> bool) \<Rightarrow> bool" where
  "taken c c1 bs b P \<longleftrightarrow>
     (\<exists>xs a ys. bs = xs @ a # ys \<and> b = ab_blk a \<and> loose c1 xs a ys \<and> same_env c c1 \<and>
        c_provider c1 = c_provider c \<and> P a)"

lemma rm_ge_taken:
  assumes inv: "coarse_inv c bs"
  shows "\<exists>r c1. free_blocks_rm_ge c sz al chk = Some (r, c1) \<and>
    (case r of
       None \<Rightarrow> c1 = c \<and> (al = 0 \<longrightarrow> (\<forall>a\<in>set bs. ab_used a = Some False \<longrightarrow> ab_size a < sz))
     | Some b \<Rightarrow> taken c c1 bs b (\<lambda>a. sz \<le> ab_size a \<and> IS_ALIGNED (ab_data a) al))"
proof -
  have rep: "crep c bs (free_blks bs)" using inv by (simp add: coarse_inv_def cinv_def)
  then obtain r c1 where r: "free_blocks_rm_ge c sz al chk = Some (r, c1)"
    "case r of None \<Rightarrow> c1 = c \<and> (al = 0 \<longrightarrow> (\<forall>b\<in>free_blks bs. \<forall>blk. c_blocks c b = Some blk \<longrightarrow> b_size blk < sz))
     | Some b \<Rightarrow> b \<in> free_blks bs \<and> free_inv c1 (free_blks bs - {b}) \<and> free_frame c c1 \<and> fresh_ids c1 \<and>
         (\<exists>blk. c_blocks c b = Some blk \<and> sz \<le> b_size blk \<and> IS_ALIGNED (b_data blk) al)"
    using free_blocks_rm_ge_ok [of c "free_blks bs" sz al chk] unfolding crep_def by blast
  show ?thesis
  proof (cases r)
    case None
    have "ab_size a < sz" if z: "al = 0" "a \<in> set bs" "ab_used a = Some False" for a
    proof -
      obtain blk where "c_blocks c (ab_blk a) = Some blk" "b_size blk = ab_size a" using crep_block [OF rep z(2)] .
      moreover have "ab_blk a \<in> free_blks bs" using z by (auto simp: free_blks_def)
      ultimately show ?thesis using r(2) None z(1) by auto
    qed
    then show ?thesis using r None by auto
  next
    case (Some b)
    then obtain a where a: "a \<in> set bs" "ab_used a = Some False" "b = ab_blk a" using r(2) by (auto simp: free_blks_def)
    obtain xs ys where bs: "bs = xs @ a # ys" using split_list [OF a(1)] by blast
    obtain blk where blk: "c_blocks c b = Some blk" "sz \<le> b_size blk" "IS_ALIGNED (b_data blk) al" using r(2) Some by auto
    then have "sz \<le> ab_size a" "IS_ALIGNED (ab_data a) al" using crep_block [OF rep a(1)] a(3) by (metis option.inject)+
    moreover have c1: "crep c1 bs (free_blks bs - {b}) \<and> same_env c c1 \<and> c_provider c1 = c_provider c \<and> c_all c1 = c_all c"
      using r(2) Some by (intro crep_free_frame [OF rep]) auto
    moreover have "cinv c1 bs (free_blks bs - {b})" using c1 inv by (intro cinv_same_env [of c1 _ _ c]) (auto simp: coarse_inv_def)
    then have "loose c1 xs a ys" using a bs by (simp add: loose_def)
    ultimately have "taken c c1 bs b (\<lambda>a. sz \<le> ab_size a \<and> IS_ALIGNED (ab_data a) al)"
      unfolding taken_def using bs a(3) by blast
    then show ?thesis using r(1) Some by simp
  qed
qed

lemma taken_mono: "taken c c1 bs b P \<Longrightarrow> (\<And>a. a \<in> set bs \<Longrightarrow> P a \<Longrightarrow> Q a) \<Longrightarrow> taken c c1 bs b Q"
  unfolding taken_def by (metis in_set_conv_decomp)

abbreviation fits :: "u64 \<Rightarrow> u64 \<Rightarrow> ablk \<Rightarrow> bool" where
  "fits sz al a \<equiv> sz \<le> ab_size a \<and> (IS_ALIGNED (ab_data a) al \<or> unat sz + unat al \<le> unat (ab_size a))"

text \<open>The search with room for the padding, which every strategy ends with.\<close>

lemma rm_ge_padded:
  assumes inv: "coarse_inv c bs"
  shows "\<exists>r c1. (if sz + al < sz then Some (None, c) else free_blocks_rm_ge c (sz + al) 0 chk) = Some (r, c1) \<and>
    (case r of
       None \<Rightarrow> c1 = c \<and> (\<forall>a\<in>set bs. ab_used a = Some False \<longrightarrow> unat (ab_size a) < unat sz + unat al)
     | Some b \<Rightarrow> taken c c1 bs b (fits sz al))"
proof (cases "sz + al < sz")
  case True
  then have "unat (ab_size a) < unat sz + unat al" for a :: ablk
    using plus_wraps_iff [of sz al] unat_less_u64 [of "ab_size a"] by linarith
  then show ?thesis using True by simp
next
  case False
  then have sum: "unat (sz + al) = unat sz + unat al"
    using plus_wraps_iff [of sz al] by (intro unat_plus_u64) linarith
  obtain r c1 where r: "free_blocks_rm_ge c (sz + al) 0 chk = Some (r, c1)"
    "case r of None \<Rightarrow> c1 = c \<and> ((0::u64) = 0 \<longrightarrow> (\<forall>a\<in>set bs. ab_used a = Some False \<longrightarrow> ab_size a < sz + al))
     | Some b \<Rightarrow> taken c c1 bs b (\<lambda>a. sz + al \<le> ab_size a \<and> IS_ALIGNED (ab_data a) 0)"
    using rm_ge_taken [OF inv, of "sz + al" 0 chk] by blast
  show ?thesis
  proof (cases r)
    case None
    then show ?thesis using r False sum by (auto simp: word_less_nat_alt)
  next
    case (Some b)
    have "taken c c1 bs b (fits sz al)"
      by (rule taken_mono [of c c1 bs b "\<lambda>a. sz + al \<le> ab_size a \<and> IS_ALIGNED (ab_data a) 0"])
         (use r Some sum in \<open>auto simp: word_le_nat_alt\<close>)
    then show ?thesis using r(1) Some False by simp
  qed
qed

lemma find_free_block_ok:
  assumes inv: "coarse_inv c bs"
  shows "\<exists>r c1. find_free_block c sz al st = Some (r, c1) \<and>
    (case r of
       None \<Rightarrow> c1 = c \<and> (\<forall>a\<in>set bs. ab_used a = Some False \<longrightarrow> unat (ab_size a) < unat sz + unat al)
     | Some b \<Rightarrow> taken c c1 bs b (fits sz al))"
proof -
  have two: "\<exists>r c1. (do { (block, c1) \<leftarrow> free_blocks_rm_ge c sz al chk;
        if block \<noteq> None then Some (block, c1) else if sz + al < sz then Some (None, c1)
        else free_blocks_rm_ge c1 (sz + al) 0 CHECK_ONLY_THE_FIRST_BLOCK }) = Some (r, c1) \<and>
    (case r of
       None \<Rightarrow> c1 = c \<and> (\<forall>a\<in>set bs. ab_used a = Some False \<longrightarrow> unat (ab_size a) < unat sz + unat al)
     | Some b \<Rightarrow> taken c c1 bs b (fits sz al))" for chk
  proof -
    obtain r c1 where r: "free_blocks_rm_ge c sz al chk = Some (r, c1)"
      "case r of None \<Rightarrow> c1 = c \<and> (al = 0 \<longrightarrow> (\<forall>a\<in>set bs. ab_used a = Some False \<longrightarrow> ab_size a < sz))
       | Some b \<Rightarrow> taken c c1 bs b (\<lambda>a. sz \<le> ab_size a \<and> IS_ALIGNED (ab_data a) al)"
      using rm_ge_taken [OF inv, of sz al chk] by blast
    show ?thesis
    proof (cases r)
      case None
      then show ?thesis using r rm_ge_padded [OF inv, of sz al CHECK_ONLY_THE_FIRST_BLOCK] by simp
    next
      case (Some b)
      have "taken c c1 bs b (fits sz al)"
        by (rule taken_mono [of c c1 bs b "\<lambda>a. sz \<le> ab_size a \<and> IS_ALIGNED (ab_data a) al"]) (use r Some in auto)
      then show ?thesis using r(1) Some by simp
    qed
  qed
  show ?thesis
  proof (cases st)
    case UMF_COARSE_MEMORY_STRATEGY_FASTEST_BUT_ONE
    then show ?thesis using two [of CHECK_ONLY_THE_FIRST_BLOCK] by (simp add: find_free_block_def Let_def)
  next
    case UMF_COARSE_MEMORY_STRATEGY_FASTEST
    then show ?thesis
      using rm_ge_padded [OF inv, of sz al CHECK_ONLY_THE_FIRST_BLOCK] by (simp add: find_free_block_def Let_def)
  next
    case UMF_COARSE_MEMORY_STRATEGY_CHECK_ALL_SIZE
    then show ?thesis using two [of CHECK_ALL_BLOCKS_OF_SIZE] by (simp add: find_free_block_def Let_def)
  qed
qed

section \<open>New memory\<close>

text \<open>A range that does not overlap the blocks has a place between them.\<close>

lemma range_position:
  assumes wf: "blocks_wf bs" and s: "0 < s" and dis: "{d ..< d + s} \<inter> all_bytes bs = {}"
  shows "\<exists>xs ys. bs = xs @ ys \<and> (\<forall>x\<in>set xs. unat (ab_data x) + unat (ab_size x) \<le> d) \<and>
    (\<forall>y\<in>set ys. d + s \<le> unat (ab_data y))"
  using wf dis
proof (induction bs)
  case (Cons b bs)
  have wfb: "blocks_wf bs" "ab_size b \<noteq> 0" "\<forall>y\<in>set bs. unat (ab_data b) + unat (ab_size b) \<le> unat (ab_data y)"
    using Cons.prems(1) unfolding blocks_wf_Cons by blast+
  have "0 < unat (ab_size b)" using wfb(2) by (simp add: unat_gt_0)
  show ?case
  proof (cases "unat (ab_data b) < d")
    case True
    have "unat (ab_data b) + unat (ab_size b) \<le> d"
    proof (rule ccontr)
      assume "\<not> unat (ab_data b) + unat (ab_size b) \<le> d"
      then have "d \<in> {d ..< d + s} \<inter> all_bytes (b # bs)" using True s by (auto simp: block_bytes_def)
      then show False using Cons.prems(2) by blast
    qed
    moreover have "{d ..< d + s} \<inter> all_bytes bs = {}" using Cons.prems(2) by (auto simp: all_bytes_def)
    then obtain xs ys where "bs = xs @ ys" "\<forall>x\<in>set xs. unat (ab_data x) + unat (ab_size x) \<le> d"
      "\<forall>y\<in>set ys. d + s \<le> unat (ab_data y)" using Cons.IH wfb(1) by blast
    ultimately show ?thesis by (intro exI [of _ "b # xs"] exI [of _ ys]) auto
  next
    case False
    have "d + s \<le> unat (ab_data b)"
    proof (rule ccontr)
      assume "\<not> d + s \<le> unat (ab_data b)"
      then have "unat (ab_data b) \<in> {d ..< d + s} \<inter> all_bytes (b # bs)"
        using False \<open>0 < unat (ab_size b)\<close> by (auto simp: block_bytes_def)
      then show False using Cons.prems(2) by blast
    qed
    then show ?thesis using wfb(3) by (intro exI [of _ "[]"] exI [of _ "b # bs"]) auto
  qed
qed (intro exI [of _ "[]"], simp)

lemma add_block_ok:
  assumes inv: "coarse_inv c bs" and oom: "oom (c_host c) = []" and nz: "d \<noteq> 0" "s \<noteq> 0"
    and fit: "unat d + unat s \<le> 2 ^ 64" and dis: "{unat d ..< unat d + unat s} \<inter> all_bytes bs = {}"
  shows "\<exists>n b c1 c2 xs ys. coarse_ravl_add_new c d s = Some (Some b, Some n, c1) \<and>
    upd_block (\<lambda>x. x\<lparr>b_used := Some u\<rparr>) b c1 = Some c2 \<and> bs = xs @ ys \<and> same_env c c2 \<and> c_provider c2 = c_provider c \<and>
    crep c2 (xs @ \<lparr>ab_node = n, ab_blk = b, ab_data = d, ab_size = s, ab_used = Some u\<rparr> # ys) (free_blks bs) \<and>
    blocks_wf (xs @ \<lparr>ab_node = n, ab_blk = b, ab_data = d, ab_size = s, ab_used = Some u\<rparr> # ys)"
proof -
  have rep: "crep c bs (free_blks bs)" and wf: "blocks_wf bs" using inv by (simp_all add: coarse_inv_def cinv_def)
  have s0: "0 < unat s" using nz by (simp add: unat_gt_0)
  obtain xs ys where bs: "bs = xs @ ys" and pos: "\<forall>x\<in>set xs. unat (ab_data x) + unat (ab_size x) \<le> unat d"
    "\<forall>y\<in>set ys. unat d + unat s \<le> unat (ab_data y)" using range_position [OF wf s0 dis] by blast
  have wfs: "blocks_wf xs" "blocks_wf ys" "\<forall>x\<in>set xs. \<forall>y\<in>set ys. unat (ab_data x) + unat (ab_size x) \<le> unat (ab_data y)"
    using wf bs by (auto simp: blocks_wf_def sorted_wrt_append)
  have lt: "\<forall>a\<in>set xs. ab_data a < d" "\<forall>a\<in>set ys. d < ab_data a"
  proof -
    have "ab_size a \<noteq> 0" if "a \<in> set xs" for a using wfs(1) that by (simp add: blocks_wf_def)
    then have "0 < unat (ab_size a)" if "a \<in> set xs" for a using that by (simp add: unat_gt_0)
    then show "\<forall>a\<in>set xs. ab_data a < d" using pos(1) by (force simp: word_less_nat_alt)
    show "\<forall>a\<in>set ys. d < ab_data a" using pos(2) s0 by (force simp: word_less_nat_alt)
  qed
  obtain n b c1 where c1: "coarse_ravl_add_new c d s = Some (Some b, Some n, c1)"
    "crep c1 (xs @ \<lparr>ab_node = n, ab_blk = b, ab_data = d, ab_size = s, ab_used = None\<rparr> # ys) (free_blks bs)"
    "b \<notin> free_blks bs" "same_env c c1" "c_provider c1 = c_provider c"
    using crep_add_new [of c xs ys "free_blks bs" d s] rep bs oom nz lt by auto
  let ?h = "\<lparr>ab_node = n, ab_blk = b, ab_data = d, ab_size = s, ab_used = None\<rparr>"
  obtain c2 where c2: "upd_block (\<lambda>x. x\<lparr>b_used := Some u\<rparr>) b c1 = Some c2"
    "crep c2 (xs @ ?h\<lparr>ab_size := s, ab_used := Some u\<rparr> # ys) (free_blks bs)" "same_env c1 c2" "c_provider c2 = c_provider c"
    using crep_upd_block [OF c1(2), of "\<lambda>x. x\<lparr>b_used := Some u\<rparr>" s "Some u"] c1(3,5) by auto
  have "same_env c c2" using c1(4) c2(3) by (rule same_env_trans)
  moreover have "blocks_wf (xs @ ?h\<lparr>ab_size := s, ab_used := Some u\<rparr> # ys)"
    unfolding blocks_wf_mid using wfs pos nz fit by simp
  ultimately show ?thesis using c1(1) c2 bs by (intro exI [of _ n] exI [of _ b]) (simp, blast)
qed

text \<open>
  What the allocator relies on: a successful \<^verbatim>\<open>alloc\<close> callback returns aligned memory
  inside the address space that does not overlap the memory handed out before.
\<close>

definition provider_alloc_ok :: "'p coarse_t \<Rightarrow> ablk list \<Rightarrow> bool" where
  "provider_alloc_ok c bs \<longleftrightarrow>
     (\<forall>alloc s a d q. cb_alloc (c_cb c) = Some alloc \<longrightarrow> alloc (c_provider c) s a = (UMF_RESULT_SUCCESS, d, q) \<longrightarrow>
        d \<noteq> 0 \<and> IS_ALIGNED d a \<and> unat d + unat s \<le> 2 ^ 64 \<and> {unat d ..< unat d + unat s} \<inter> all_bytes bs = {})"

lemma alloc_from_provider_ok:
  assumes inv: "coarse_inv c bs" and oom: "oom (c_host c) = []" and al: "IS_POWER_OF_2 al"
    and pr: "provider_alloc_ok c bs"
  shows "(\<exists>rc res q. alloc_from_provider c sz al = Some (Inl (rc, res), c\<lparr>c_provider := q\<rparr>) \<and> rc \<noteq> UMF_RESULT_SUCCESS) \<or>
    (\<exists>c' xs a ys. alloc_from_provider c sz al = Some (Inr (ab_blk a), c') \<and> loose c' xs a ys \<and>
       bs = xs @ ys \<and> same_env (c\<lparr>c_alloc_size := c_alloc_size c + ab_size a\<rparr>) c' \<and>
       IS_ALIGNED (ab_data a) al \<and> sz \<le> ab_size a \<and> cb_alloc (c_cb c) \<noteq> None)"
proof (cases "cb_alloc (c_cb c)")
  case None
  then have "alloc_from_provider c sz al = Some (Inl (UMF_RESULT_ERROR_OUT_OF_HOST_MEMORY, 0), c\<lparr>c_provider := c_provider c\<rparr>)"
    by (simp add: alloc_from_provider_def)
  then show ?thesis by blast
next
  case (Some alloc)
  let ?s = "ALIGN_UP_SAFE sz al"
  obtain rc d q where call: "alloc (c_provider c) ?s al = (rc, d, q)" by (cases "alloc (c_provider c) ?s al")
  consider "?s = 0" | "?s \<noteq> 0" "rc \<noteq> UMF_RESULT_SUCCESS" | "?s \<noteq> 0" "rc = UMF_RESULT_SUCCESS" by blast
  then show ?thesis
  proof cases
    case 1
    then have "alloc_from_provider c sz al = Some (Inl (UMF_RESULT_ERROR_INVALID_ARGUMENT, 0), c\<lparr>c_provider := c_provider c\<rparr>)"
      using Some by (simp add: alloc_from_provider_def)
    then show ?thesis by blast
  next
    case 2
    then have "alloc_from_provider c sz al = Some (Inl (rc, d), c\<lparr>c_provider := q\<rparr>)"
      using Some call by (simp add: alloc_from_provider_def)
    then show ?thesis using 2(2) by blast
  next
    case 3
    let ?k = "c\<lparr>c_provider := q\<rparr>"
    have d: "d \<noteq> 0" "IS_ALIGNED d al" "unat d + unat ?s \<le> 2 ^ 64" "{unat d ..< unat d + unat ?s} \<inter> all_bytes bs = {}"
      using pr Some call 3(2) unfolding provider_alloc_ok_def by blast+
    have invk: "coarse_inv ?k bs" "oom (c_host ?k) = []" using inv oom by (simp_all add: coarse_inv_def)
    obtain n b c1 c2 xs ys where c2: "coarse_ravl_add_new ?k d ?s = Some (Some b, Some n, c1)"
      "upd_block (\<lambda>x. x\<lparr>b_used := Some False\<rparr>) b c1 = Some c2" "bs = xs @ ys" "same_env ?k c2"
      "crep c2 (xs @ \<lparr>ab_node = n, ab_blk = b, ab_data = d, ab_size = ?s, ab_used = Some False\<rparr> # ys) (free_blks bs)"
      "blocks_wf (xs @ \<lparr>ab_node = n, ab_blk = b, ab_data = d, ab_size = ?s, ab_used = Some False\<rparr> # ys)"
      using add_block_ok [OF invk d(1) 3(1) d(3,4), of False] by blast
    let ?a = "\<lparr>ab_node = n, ab_blk = b, ab_data = d, ab_size = ?s, ab_used = Some False\<rparr>"
    let ?c = "c2\<lparr>c_alloc_size := c_alloc_size c2 + ?s\<rparr>"
    have "alloc_from_provider c sz al = Some (Inr (ab_blk ?a), ?c)"
      using Some call 3 d(2) c2(1,2) by (simp add: alloc_from_provider_def coarse_add_free_block_def Let_def)
    moreover have "loose ?c xs ?a ys"
    proof -
      have "free_blks bs = free_blks (xs @ ?a # ys) - {ab_blk ?a}"
        using not_in_free_blks [OF c2(5)] c2(3) by (auto simp: free_blks_simps)
      then have "crep ?c (xs @ ?a # ys) (free_blks (xs @ ?a # ys) - {ab_blk ?a})" using c2(5) by simp
      moreover have "\<forall>x\<in>set (xs @ ?a # ys). ab_used x \<noteq> None" using inv c2(3) by (auto simp: coarse_inv_def cinv_def)
      moreover have "c_used_size ?c = (\<Sum>x\<leftarrow>xs @ ?a # ys. used_size x)" "c_alloc_size ?c = (\<Sum>x\<leftarrow>xs @ ?a # ys. ab_size x)"
        using inv c2(3,4) by (simp_all add: coarse_inv_def cinv_def same_env_def used_size_def)
      ultimately show ?thesis using c2(6) by (simp add: loose_def cinv_def)
    qed
    moreover have "sz \<le> ?s" using ALIGN_UP_SAFE_correct(2) [OF al 3(1)] by (simp add: word_le_nat_alt)
    moreover have "same_env (c\<lparr>c_alloc_size := c_alloc_size c + ab_size ?a\<rparr>) ?c" using c2(4) by (simp add: same_env_def)
    moreover have "IS_ALIGNED (ab_data ?a) al" "sz \<le> ab_size ?a" using d(2) calculation(3) by simp_all
    ultimately show ?thesis using c2(3) Some by blast
  qed
qed

section \<open>Allocation\<close>

lemma IS_POWER_OF_2_less_dvd:
  assumes "IS_POWER_OF_2 a" "IS_POWER_OF_2 b" "\<not> unat b dvd unat a"
  shows "unat a dvd unat b" "unat a < unat b"
proof -
  obtain i where i: "unat a = 2 ^ i" using assms(1) by (elim IS_POWER_OF_2_E)
  obtain j where j: "unat b = 2 ^ j" using assms(2) by (elim IS_POWER_OF_2_E)
  have "\<not> j \<le> i" using assms(3) i j by (auto simp: le_imp_power_dvd)
  then show "unat a dvd unat b" "unat a < unat b" using i j by (simp_all add: le_imp_power_dvd)
qed

lemma ALIGN_UP_SAFE_below:
  assumes "IS_POWER_OF_2 a" "IS_POWER_OF_2 v" "unat v \<le> unat a"
  shows "ALIGN_UP_SAFE v a = a"
proof -
  have half: "unat w \<le> 2 ^ 63" if w: "IS_POWER_OF_2 w" for w
  proof -
    obtain k where "k < 64" "unat w = 2 ^ k" using w by (elim IS_POWER_OF_2_E)
    then show ?thesis using power_increasing [of k 63 "2 :: nat"] by simp
  qed
  have "unat v + unat a - 1 < 2 ^ 64" using half [OF assms(1)] half [OF assms(2)] pred_unat_pow2 [OF assms(1)] by simp
  then have "unat (ALIGN_UP_SAFE v a) = (unat v + unat a - 1) div unat a * unat a"
    by (rule ALIGN_UP_SAFE_no_overflow [OF assms(1)])
  also have "(unat v + unat a - 1) div unat a = 1"
    using assms(3) pred_unat_pow2 [OF assms(1)] pred_unat_pow2 [OF assms(2)] by (intro div_nat_eqI) simp_all
  finally show ?thesis by (simp add: word_unat_eq_iff)
qed

lemma alloc_alignment_ok:
  assumes ps: "IS_POWER_OF_2 ps" and r: "alloc_alignment ps al0 = Some al"
  shows "IS_POWER_OF_2 al" "unat ps dvd unat al" "unat al0 dvd unat al \<or> al0 = 0"
proof -
  have "IS_POWER_OF_2 al \<and> unat ps dvd unat al \<and> (unat al0 dvd unat al \<or> al0 = 0)"
  proof (cases "al0 = 0")
    case True
    then show ?thesis using assms by (simp add: alloc_alignment_def)
  next
    case False
    then have p0: "IS_POWER_OF_2 al0" using r by (auto simp: alloc_alignment_def IS_POWER_OF_2_def split: if_splits)
    show ?thesis
    proof (cases "IS_ALIGNED al0 ps")
      case True
      then have "al = al0" using False r by (auto simp: alloc_alignment_def IS_NOT_ALIGNED_iff split: if_splits)
      then show ?thesis using p0 True by (simp add: IS_ALIGNED_pow2 [OF ps])
    next
      case na: False
      then have nd: "\<not> unat ps dvd unat al0" by (simp add: IS_ALIGNED_pow2 [OF ps])
      note d = IS_POWER_OF_2_less_dvd [OF p0 ps nd]
      have "al = ALIGN_UP_SAFE al0 ps" using na False r by (auto simp: alloc_alignment_def IS_NOT_ALIGNED_iff split: if_splits)
      then have "al = ps" using ALIGN_UP_SAFE_below [OF ps p0] d(2) by simp
      then show ?thesis using ps d(1) by simp
    qed
  qed
  then show "IS_POWER_OF_2 al" "unat ps dvd unat al" "unat al0 dvd unat al \<or> al0 = 0" by blast+
qed

lemma IS_ALIGNED_0 [simp]: "IS_ALIGNED v 0"
  by (simp add: IS_ALIGNED_def)

text \<open>A power of two is an acceptable alignment, and nothing else but 0 is.\<close>

lemma alloc_alignment_None:
  assumes ps: "IS_POWER_OF_2 ps"
  shows "alloc_alignment ps al0 = None \<longleftrightarrow> al0 \<noteq> 0 \<and> \<not> IS_POWER_OF_2 al0"
proof -
  have "al0 mod ps = 0 \<or> ps mod al0 = 0" if "IS_POWER_OF_2 al0"
  proof (cases "unat ps dvd unat al0")
    case True
    then show ?thesis by (simp add: word_unat_eq_iff unat_mod dvd_eq_mod_eq_0)
  next
    case False
    then show ?thesis using IS_POWER_OF_2_less_dvd(1) [OF that ps] by (simp add: word_unat_eq_iff unat_mod dvd_eq_mod_eq_0)
  qed
  then show ?thesis by (auto simp: alloc_alignment_def IS_POWER_OF_2_def)
qed

definition splits_ok :: "'p coarse_t \<Rightarrow> bool" where
  "splits_ok c \<longleftrightarrow> (\<exists>sp. cb_split (c_cb c) = Some sp \<and> (\<forall>p d t f. fst (sp p d t f) = UMF_RESULT_SUCCESS))"

definition alloc_result ::
  "'p coarse_t \<Rightarrow> ablk list \<Rightarrow> u64 \<Rightarrow> u64 \<Rightarrow> umf_result \<Rightarrow> addr \<Rightarrow> 'p coarse_t \<Rightarrow> ablk list \<Rightarrow> bool" where
  "alloc_result c bs sz al rc r c' bs' \<longleftrightarrow>
     coarse_inv c' bs' \<and> c_cb c' = c_cb c \<and> c_page_size c' = c_page_size c \<and> c_strategy c' = c_strategy c \<and>
     oom (c_host c') = oom (c_host c) \<and> lock_fail (c_host c') = lock_fail (c_host c) \<and>
     (if rc = UMF_RESULT_SUCCESS
      then IS_ALIGNED r al \<and> all_bytes bs \<subseteq> all_bytes bs' \<and> c_used_size c' = c_used_size c + sz \<and>
        (\<exists>us vs. used_view bs = us @ vs \<and> used_view bs' = us @ (r, sz) # vs)
      else bs' = bs \<and> c_used_size c' = c_used_size c) \<and>
     (cb_alloc (c_cb c) = None \<longrightarrow> all_bytes bs' = all_bytes bs \<and> c_alloc_size c' = c_alloc_size c) \<and>
     ((\<exists>a\<in>set bs. ab_used a = Some False \<and> unat sz + unat al \<le> unat (ab_size a)) \<longrightarrow>
        rc = UMF_RESULT_SUCCESS \<and> all_bytes bs' = all_bytes bs \<and> c_alloc_size c' = c_alloc_size c)"

text \<open>The body of \<open>coarse_alloc\<close> after the lock has been taken.\<close>

lemma alloc_body_ok:
  assumes inv: "coarse_inv c bs" and oom: "oom (c_host c) = []" and al: "IS_POWER_OF_2 al" and sz: "0 < sz"
    and sp: "splits_ok c" and pr: "provider_alloc_ok c bs"
  shows "\<exists>cur c1 rc r c2 bs'. find_free_block c sz al (c_strategy c) = Some (cur, c1) \<and>
    (case cur of
       Some b \<Rightarrow> alloc_use_block c1 sz al b 0
     | None \<Rightarrow> do {
         (r, c') \<leftarrow> alloc_from_provider c1 sz al;
         (case r of Inl (rc, res) \<Rightarrow> Some (rc, res, c')
          | Inr b \<Rightarrow> do { blk \<leftarrow> c_blocks c' b; alloc_use_block c' sz al b (b_data blk) }) }) = Some (rc, r, c2) \<and>
    alloc_result c bs sz al rc r c2 bs'"
proof -
  obtain sc where sc: "cb_split (c_cb c) = Some sc" "\<And>p d t f. fst (sc p d t f) = UMF_RESULT_SUCCESS"
    using sp by (auto simp: splits_ok_def)
  obtain cur c1 where f: "find_free_block c sz al (c_strategy c) = Some (cur, c1)"
    "case cur of
       None \<Rightarrow> c1 = c \<and> (\<forall>a\<in>set bs. ab_used a = Some False \<longrightarrow> unat (ab_size a) < unat sz + unat al)
     | Some b \<Rightarrow> taken c c1 bs b (fits sz al)"
    using find_free_block_ok [OF inv, of sz al "c_strategy c"] by blast
  show ?thesis
  proof (cases cur)
    case (Some b)
    then obtain xs a ys where a: "bs = xs @ a # ys" "b = ab_blk a" "loose c1 xs a ys" "same_env c c1" "fits sz al a"
      using f(2) by (auto simp: taken_def)
    have k: "oom (c_host c1) = []" "cb_split (c_cb c1) = Some sc" using a(4) oom sc(1) by (simp_all add: same_env_def)
    obtain d c2 bs' us vs where u: "alloc_use_block c1 sz al (ab_blk a) 0 = Some (UMF_RESULT_SUCCESS, d, c2)"
      "coarse_inv c2 bs'" "same_env (c1\<lparr>c_used_size := c_used_size c1 + sz\<rparr>) c2" "IS_ALIGNED d al"
      "used_view (xs @ a # ys) = us @ vs" "used_view bs' = us @ (d, sz) # vs" "all_bytes bs' = all_bytes (xs @ a # ys)"
      using use_block_ok [OF a(3) k(1) al sz k(2) sc(2), of 0] a(5) by blast
    have "\<exists>us vs. used_view bs = us @ vs \<and> used_view bs' = us @ (d, sz) # vs" using u(5,6) a(1) by blast
    then show ?thesis
      using f(1) Some u a(1,2,4) k
      by (intro exI [of _ cur] exI [of _ c1] exI [of _ UMF_RESULT_SUCCESS] exI [of _ d] exI [of _ c2] exI [of _ bs'])
         (simp add: same_env_def alloc_result_def)
  next
    case None
    then have c1: "c1 = c" and small: "\<not> (\<exists>a\<in>set bs. ab_used a = Some False \<and> unat sz + unat al \<le> unat (ab_size a))"
      using f(2) by (auto simp: not_le)
    from alloc_from_provider_ok [OF inv oom al pr, of sz] show ?thesis
    proof (elim disjE exE conjE)
      fix rc res q assume "alloc_from_provider c sz al = Some (Inl (rc, res), c\<lparr>c_provider := q\<rparr>)" "rc \<noteq> UMF_RESULT_SUCCESS"
      then show ?thesis
        using f(1) None c1 small inv oom
        by (intro exI [of _ cur] exI [of _ c1] exI [of _ rc] exI [of _ res] exI [of _ "c\<lparr>c_provider := q\<rparr>"] exI [of _ bs])
           (simp add: coarse_inv_def alloc_result_def)
    next
      fix c' xs a ys
      assume a: "alloc_from_provider c sz al = Some (Inr (ab_blk a), c')" "loose c' xs a ys" "bs = xs @ ys"
        "same_env (c\<lparr>c_alloc_size := c_alloc_size c + ab_size a\<rparr>) c'" "IS_ALIGNED (ab_data a) al" "sz \<le> ab_size a"
        "cb_alloc (c_cb c) \<noteq> None"
      obtain blk where blk: "c_blocks c' (ab_blk a) = Some blk" using loose_held [OF a(2)] by (rule held_block)
      have k: "oom (c_host c') = []" "cb_split (c_cb c') = Some sc" using a(4) oom sc(1) by (simp_all add: same_env_def)
      obtain d c2 bs' us vs where u: "alloc_use_block c' sz al (ab_blk a) (b_data blk) = Some (UMF_RESULT_SUCCESS, d, c2)"
        "coarse_inv c2 bs'" "same_env (c'\<lparr>c_used_size := c_used_size c' + sz\<rparr>) c2" "IS_ALIGNED d al"
        "used_view (xs @ a # ys) = us @ vs" "used_view bs' = us @ (d, sz) # vs" "all_bytes bs' = all_bytes (xs @ a # ys)"
        using use_block_ok [OF a(2) k(1) al sz k(2) sc(2), of "b_data blk"] a(5,6) by blast
      have "ab_used a = Some False" using a(2) by (simp add: loose_def)
      then have "\<exists>us vs. used_view bs = us @ vs \<and> used_view bs' = us @ (d, sz) # vs" using u(5,6) a(3) by auto
      then show ?thesis
        using f(1) None c1 small u a blk k
        by (intro exI [of _ cur] exI [of _ c1] exI [of _ UMF_RESULT_SUCCESS] exI [of _ d] exI [of _ c2] exI [of _ bs'])
           (auto simp: same_env_def alloc_result_def)
    qed
  qed
qed

lemma coarse_alloc_locked:
  assumes ok: "coarse_ok c bs" and lk: "lock_ok c" and sz: "sz \<noteq> 0" and al: "alloc_alignment (c_page_size c) al0 = Some al"
    and sp: "splits_ok c" and pr: "provider_alloc_ok c bs"
  shows "\<exists>rc r c' bs'. coarse_alloc c sz al0 = Some (rc, Some r, c') \<and> coarse_ok c' bs' \<and> c_cb c' = c_cb c \<and>
    c_page_size c' = c_page_size c \<and> lock_fail (c_host c') = lock_fail (c_host (locked c)) \<and>
    (if rc = UMF_RESULT_SUCCESS
     then IS_ALIGNED r al \<and> all_bytes bs \<subseteq> all_bytes bs' \<and> c_used_size c' = c_used_size c + sz \<and>
       (\<exists>us vs. used_view bs = us @ vs \<and> used_view bs' = us @ (r, sz) # vs)
     else bs' = bs \<and> c_used_size c' = c_used_size c) \<and>
    (cb_alloc (c_cb c) = None \<longrightarrow> all_bytes bs' = all_bytes bs \<and> c_alloc_size c' = c_alloc_size c) \<and>
    ((\<exists>a\<in>set bs. ab_used a = Some False \<and> unat sz + unat al \<le> unat (ab_size a)) \<longrightarrow>
       rc = UMF_RESULT_SUCCESS \<and> all_bytes bs' = all_bytes bs \<and> c_alloc_size c' = c_alloc_size c)"
proof -
  let ?c = "locked c"
  have okl: "coarse_ok ?c bs" using ok by simp
  note D = coarse_okD [OF okl]
  have p2: "IS_POWER_OF_2 al" using alloc_alignment_ok(1) [OF _ al] ok by (simp add: coarse_ok_def)
  have "0 < sz" using sz by (simp add: word_neq_0_conv)
  moreover have "splits_ok ?c" "provider_alloc_ok ?c bs" using sp pr by (simp_all add: splits_ok_def provider_alloc_ok_def)
  ultimately obtain cur c1 rc r c2 bs' where b: "find_free_block ?c sz al (c_strategy ?c) = Some (cur, c1)"
    "(case cur of
       Some b \<Rightarrow> alloc_use_block c1 sz al b 0
     | None \<Rightarrow> do {
         (r, c') \<leftarrow> alloc_from_provider c1 sz al;
         (case r of Inl (rc, res) \<Rightarrow> Some (rc, res, c')
          | Inr b \<Rightarrow> do { blk \<leftarrow> c_blocks c' b; alloc_use_block c' sz al b (b_data blk) }) }) = Some (rc, r, c2)"
    "alloc_result ?c bs sz al rc r c2 bs'"
    using alloc_body_ok [OF D(1) D(4) p2, of sz] by blast
  have inv: "coarse_inv c2 bs'" using b(3) by (simp add: alloc_result_def)
  have "coarse_alloc c sz al0 = Some (rc, Some r, c2)"
    using al lk D(5) b(1,2) debug_check_ok [OF inv] by (simp add: coarse_alloc_def mutex_lock_eq Let_def)
  moreover have "coarse_ok c2 bs'"
    using b(3) D(4) by (intro coarse_ok_env [OF okl inv]) (simp_all add: alloc_result_def)
  ultimately show ?thesis
    using b(3) by (intro exI [of _ rc] exI [of _ r] exI [of _ c2] exI [of _ bs']) (simp add: alloc_result_def)
qed

end
