(* ===== verification/Coarse_Mem.thy ===== *)
theory Coarse_Mem
  imports Coarse_Alloc
begin

text \<open>
  The life of a coarse allocator: creation, the two ways to add memory, and deletion, with
  the theorems on allocation.
\<close>

section \<open>Blocks in use do not overlap\<close>

definition disjoint_view :: "(addr \<times> u64) list \<Rightarrow> bool" where
  "disjoint_view v \<longleftrightarrow> sorted_wrt (\<lambda>(p, n) (q, m). unat p + unat n \<le> unat q) v"

lemma used_view_disjoint: "blocks_wf bs \<Longrightarrow> disjoint_view (used_view bs)"
proof (induction bs)
  case (Cons a bs)
  then have "disjoint_view (used_view bs)" by (simp add: blocks_wf_Cons)
  moreover have "\<forall>(q, m) \<in> set (used_view bs). unat (ab_data a) + unat (ab_size a) \<le> unat q"
    using Cons.prems by (auto simp: blocks_wf_Cons used_view_def)
  ultimately show ?case by (auto simp: disjoint_view_def)
qed (simp add: disjoint_view_def used_view_def)

section \<open>Creation\<close>

lemma new_tree:
  "ravl_index rd_key \<lparr>ravl_root = None, ravl_compare = coarse_ravl_comp, ravl_data_size = 16, ravl_nodes = Map.empty\<rparr> []"
  unfolding ravl_index_def
  by (intro conjI exI [of _ RLeaf]) (auto simp: cmp_by_def sorted_keys_def ravl_rep_def coarse_ravl_comp_def)

lemma empty_inv:
  assumes "ravl_index rd_key (c_all c) []" "ravl_index rd_key (c_free c) []" "c_blocks c = Map.empty"
    "c_heads c = Map.empty" "c_elems c = Map.empty" "c_used_size c = 0" "c_alloc_size c = 0"
  shows "coarse_inv c []"
proof -
  have "free_rep c []" using assms by (simp add: free_rep_def lists_rep_def felems_def)
  then have "free_inv c {}" unfolding free_inv_def by (intro exI [of _ "[]"]) (simp add: felems_def)
  moreover have "fresh_ids c"
    using index_dom [OF assms(1)] index_dom [OF assms(2)] assms by (simp add: fresh_ids_def)
  moreover have "all_rep c []" using assms by (simp add: all_rep_def)
  ultimately show ?thesis
    using assms by (simp add: coarse_inv_def cinv_def crep_def free_blks_def)
qed

lemma coarse_new_Some:
  assumes ok: "oom s = []" "fst (mutex_init s)" and ps: "cp_page_size ps \<noteq> 0" "cp_provider ps = Some pr"
    "cb_split (cp_cb ps) \<noteq> None" "cb_merge (cp_cb ps) \<noteq> None"
  shows "\<exists>c s'. coarse_new (Some ps) s = Some (UMF_RESULT_SUCCESS, Some c, s') \<and> coarse_inv c [] \<and> c_provider c = pr \<and>
    c_cb c = cp_cb ps \<and> c_strategy c = cp_strategy ps \<and> c_page_size c = cp_page_size ps \<and> oom (c_host c) = [] \<and>
    lock_fail (c_host c) = tl (lock_fail s)"
proof -
  let ?next = "\<lambda>v :: host. v\<lparr>next_id := Suc (next_id v)\<rparr>"
  let ?t = "\<lparr>ravl_root = None, ravl_compare = coarse_ravl_comp, ravl_data_size = 16, ravl_nodes = Map.empty\<rparr>"
  have al: "ba_global_alloc v = (Some (next_id v), ?next v)" if "oom v = []" for v :: host
    using that by (rule ba_global_alloc_no_oom)
  have new: "ravl_new_sized coarse_ravl_comp 16 v = (Some ?t, ?next v)" if "oom v = []" for v :: host
    using al [OF that] by (simp add: ravl_new_sized_def)
  let ?s3 = "?next (?next (?next s))"
  obtain s4 where s4: "mutex_init ?s3 = (True, s4)" "oom s4 = []" "lock_fail s4 = tl (lock_fail s)"
  proof (cases "lock_fail s")
    case Nil
    then show thesis using ok(1) by (intro that [of ?s3]) (simp_all add: mutex_init_def mutex_lock_def)
  next
    case (Cons x xs)
    then show thesis
      using ok by (intro that [of "?s3\<lparr>lock_fail := xs\<rparr>"]) (simp_all add: mutex_init_def mutex_lock_def)
  qed
  let ?c = "\<lparr>c_provider = pr, c_cb = cp_cb ps, c_strategy = cp_strategy ps, c_page_size = cp_page_size ps,
             c_all = ?t, c_free = ?t, c_used_size = 0, c_alloc_size = 0, c_blocks = Map.empty,
             c_heads = Map.empty, c_elems = Map.empty, c_host = s4\<rparr>"
  have inv: "coarse_inv ?c []" using new_tree by (intro empty_inv) simp_all
  have "coarse_new (Some ps) s = Some (UMF_RESULT_SUCCESS, Some ?c, s4)"
    using ps ok(1) s4(1) debug_check_ok [OF inv] by (simp add: coarse_new_def al new)
  then show ?thesis using inv s4(2,3) by (intro exI [of _ ?c] exI [of _ s4]) simp
qed

section \<open>Adding memory\<close>

lemma add_used_block_ok:
  assumes ok: "coarse_ok c bs" and nz: "d \<noteq> 0" "s \<noteq> 0"
    and fit: "unat d + unat s \<le> 2 ^ 64" and dis: "{unat d ..< unat d + unat s} \<inter> all_bytes bs = {}"
  shows "\<exists>c' xs a ys. coarse_add_used_block c d s = Some (UMF_RESULT_SUCCESS, c') \<and> coarse_ok c' (xs @ a # ys) \<and>
    same_env (c\<lparr>c_alloc_size := c_alloc_size c + s, c_used_size := c_used_size c + s\<rparr>) c' \<and>
    bs = xs @ ys \<and> ab_data a = d \<and> ab_size a = s \<and> ab_used a = Some True"
proof -
  note D = coarse_okD [OF ok]
  obtain n b c1 c2 xs ys where c2: "coarse_ravl_add_new c d s = Some (Some b, Some n, c1)"
    "upd_block (\<lambda>x. x\<lparr>b_used := Some True\<rparr>) b c1 = Some c2" "bs = xs @ ys" "same_env c c2"
    "crep c2 (xs @ \<lparr>ab_node = n, ab_blk = b, ab_data = d, ab_size = s, ab_used = Some True\<rparr> # ys) (free_blks bs)"
    "blocks_wf (xs @ \<lparr>ab_node = n, ab_blk = b, ab_data = d, ab_size = s, ab_used = Some True\<rparr> # ys)"
    using add_block_ok [OF D(1,4) nz fit dis, of True] by blast
  let ?a = "\<lparr>ab_node = n, ab_blk = b, ab_data = d, ab_size = s, ab_used = Some True\<rparr>"
  let ?c = "c2\<lparr>c_alloc_size := c_alloc_size c2 + s, c_used_size := c_used_size c2 + s\<rparr>"
  have "free_blks bs = free_blks (xs @ ?a # ys)" using c2(3) by (simp add: free_blks_simps)
  then have "crep ?c (xs @ ?a # ys) (free_blks (xs @ ?a # ys))" using c2(5) by simp
  moreover have "\<forall>x\<in>set (xs @ ?a # ys). ab_used x \<noteq> None" using D(1) c2(3) by (auto simp: coarse_inv_def cinv_def)
  moreover have "c_used_size ?c = (\<Sum>x\<leftarrow>xs @ ?a # ys. used_size x)" "c_alloc_size ?c = (\<Sum>x\<leftarrow>xs @ ?a # ys. ab_size x)"
    using D(1) c2(3,4) by (simp_all add: coarse_inv_def cinv_def same_env_def used_size_def)
  ultimately have inv: "coarse_inv ?c (xs @ ?a # ys)" using c2(6) by (simp add: coarse_inv_def cinv_def)
  have "coarse_add_used_block c d s = Some (UMF_RESULT_SUCCESS, ?c)" using c2(1,2) by (simp add: coarse_add_used_block_def)
  moreover have "coarse_ok ?c (xs @ ?a # ys)" using c2(4) by (intro coarse_ok_env [OF ok inv]) (simp_all add: same_env_def)
  ultimately show ?thesis
    using c2(3,4) by (intro exI [of _ ?c] exI [of _ xs] exI [of _ ?a] exI [of _ ys]) (simp add: same_env_def)
qed

lemma add_fixed_ok:
  assumes ok: "coarse_ok c bs" and lk: "lock_fail (c_host c) = []" and nz: "d \<noteq> 0" "s \<noteq> 0"
    and cb: "cb_alloc (c_cb c) = None" "cb_free (c_cb c) = None"
    and fit: "unat d + unat s \<le> 2 ^ 64" and dis: "{unat d ..< unat d + unat s} \<inter> all_bytes bs = {}"
  shows "\<exists>c' bs'. coarse_add_memory_fixed c d s = Some (UMF_RESULT_SUCCESS, c') \<and> coarse_ok c' bs' \<and>
    used_view bs' = used_view bs \<and> all_bytes bs' = all_bytes bs \<union> {unat d ..< unat d + unat s} \<and>
    c_used_size c' = c_used_size c \<and> c_alloc_size c' = c_alloc_size c + s \<and> c_cb c' = c_cb c"
proof -
  have lkc: "lock_ok c" "lock_fail (c_host (locked c)) = []" using lk by (simp_all add: lock_ok_def locked_def mutex_lock_def)
  have okl: "coarse_ok (locked c) bs" using ok by simp
  obtain c1 xs a ys where c1: "coarse_add_used_block (locked c) d s = Some (UMF_RESULT_SUCCESS, c1)"
    "coarse_ok c1 (xs @ a # ys)" "bs = xs @ ys" "ab_data a = d" "ab_size a = s" "ab_used a = Some True"
    "same_env ((locked c)\<lparr>c_alloc_size := c_alloc_size c + s, c_used_size := c_used_size c + s\<rparr>) c1"
    using add_used_block_ok [OF okl nz fit dis] by auto
  have "lock_ok c1" using c1(7) lkc(2) by (simp add: same_env_def lock_ok_def mutex_lock_def)
  then obtain c2 bs' where c2: "coarse_free c1 d s = Some (UMF_RESULT_SUCCESS, c2)" "coarse_ok c2 bs'" "c_cb c2 = c_cb c1"
    "c_alloc_size c2 = c_alloc_size c1" "c_used_size c2 = c_used_size c1 - s"
    "used_view bs' = used_view xs @ used_view ys" "all_bytes bs' = all_bytes (xs @ a # ys)"
    using free_used [OF c1(2,6), of s] c1(4,5) by auto
  have "coarse_add_memory_fixed c d s = Some (UMF_RESULT_SUCCESS, c2)"
    using nz cb lkc(1) coarse_okD(5) [OF okl] coarse_okD(5) [OF c1(2)] c1(1) c2(1)
    by (simp add: coarse_add_memory_fixed_def mutex_lock_eq)
  moreover have "all_bytes bs' = all_bytes bs \<union> {unat d ..< unat d + unat s}"
    using c2(7) c1(3-5) by (auto simp: block_bytes_def)
  moreover have "c_used_size c2 = c_used_size c" "c_alloc_size c2 = c_alloc_size c + s" "c_cb c2 = c_cb c"
    using c2(3-5) c1(7) by (simp_all add: same_env_def)
  ultimately show ?thesis using c2(2,6) c1(3) by (intro exI [of _ c2] exI [of _ bs']) simp
qed

section \<open>Deletion\<close>

text \<open>
  While \<open>coarse_delete\<close> walks the tree of all blocks it releases them one by one; the tree
  itself is released at the end. \<open>remaining c bs\<close> describes the blocks that are left.
\<close>

definition remaining :: "'p coarse_t \<Rightarrow> ablk list \<Rightarrow> bool" where
  "remaining c bs \<longleftrightarrow>
     distinct (map ab_blk bs) \<and> dom (c_blocks c) = ab_blk ` set bs \<and>
     (\<forall>a\<in>set bs. map_option block_core (c_blocks c (ab_blk a)) = Some (ab_size a, ab_data a, ab_used a)) \<and>
     free_inv c (free_blks bs) \<and> fresh_ids c \<and> blocks_wf bs \<and> (\<forall>a\<in>set bs. ab_used a \<noteq> None) \<and>
     c_used_size c = (\<Sum>a\<leftarrow>bs. used_size a) \<and> c_alloc_size c = (\<Sum>a\<leftarrow>bs. ab_size a)"

definition give_back :: "'p coarse_callbacks_t \<Rightarrow> ablk \<Rightarrow> 'p \<Rightarrow> 'p" where
  "give_back cb a p = (case cb_free cb of None \<Rightarrow> p | Some f \<Rightarrow> snd (f p (ab_data a) (ab_size a)))"

text \<open>The release of one block whose list element is gone already.\<close>

lemma drop_block:
  assumes rem: "distinct (map ab_blk (a # bs))" "dom (c_blocks c) = ab_blk ` set (a # bs)"
    "\<forall>x\<in>set (a # bs). map_option block_core (c_blocks c (ab_blk x)) = Some (ab_size x, ab_data x, ab_used x)"
    and free: "free_inv c (free_blks bs)" and fresh: "fresh_ids c" and wf: "blocks_wf (a # bs)"
    and used: "\<forall>x\<in>set bs. ab_used x \<noteq> None" "c_used_size c = (\<Sum>x\<leftarrow>bs. used_size x)"
    and alloc: "c_alloc_size c = (\<Sum>x\<leftarrow>a # bs. ab_size x)"
  shows "remaining (c\<lparr>c_provider := q, c_alloc_size := c_alloc_size c - ab_size a,
      c_blocks := (c_blocks c)(ab_blk a := None)\<rparr>) bs"
proof -
  let ?c = "c\<lparr>c_provider := q, c_alloc_size := c_alloc_size c - ab_size a, c_blocks := (c_blocks c)(ab_blk a := None)\<rparr>"
  have na: "ab_blk a \<notin> ab_blk ` set bs" using rem(1) by simp
  then have nf: "ab_blk a \<notin> free_blks bs" using free_blks_subset [of bs] by blast
  have "free_inv ?c (free_blks bs)"
  proof (rule free_inv_blocks [OF free])
    show "\<forall>x\<in>free_blks bs. c_blocks ?c x = c_blocks c x" using nf by auto
    show "b_free_list_ptr y = None" if "c_blocks ?c x = Some y" "x \<notin> free_blks bs" for x y
      using that free_inv_unlinked [OF free, of x] by (auto split: if_splits)
  qed simp_all
  moreover have "fresh_ids ?c" by (rule fresh_ids_mono [OF fresh]) auto
  moreover have "\<forall>x\<in>set bs. map_option block_core (c_blocks ?c (ab_blk x)) = Some (ab_size x, ab_data x, ab_used x)"
  proof
    fix x assume x: "x \<in> set bs"
    then have "ab_blk x \<noteq> ab_blk a" using na by (metis image_eqI)
    then show "map_option block_core (c_blocks ?c (ab_blk x)) = Some (ab_size x, ab_data x, ab_used x)"
      using rem(3) x by simp
  qed
  moreover have "dom (c_blocks ?c) = ab_blk ` set bs" using rem(2) na by auto
  ultimately show ?thesis using rem(1) wf used alloc by (simp add: remaining_def blocks_wf_Cons)
qed

lemma rm_block_step:
  assumes rem: "remaining c (a # bs)"
  shows "\<exists>c'. coarse_ravl_cb_rm_all_blocks_node (snd (aentry a)) c = Some c' \<and> remaining c' bs \<and>
    c_all c' = c_all c \<and> c_cb c' = c_cb c \<and> c_provider c' = give_back (c_cb c) a (c_provider c)"
proof -
  have parts: "distinct (map ab_blk (a # bs))" "dom (c_blocks c) = ab_blk ` set (a # bs)"
    "\<forall>x\<in>set (a # bs). map_option block_core (c_blocks c (ab_blk x)) = Some (ab_size x, ab_data x, ab_used x)"
    and free: "free_inv c (free_blks (a # bs))" and fresh: "fresh_ids c" and wf: "blocks_wf (a # bs)"
    and un: "ab_used a \<noteq> None" and used: "\<forall>x\<in>set bs. ab_used x \<noteq> None"
    and sums: "c_used_size c = (\<Sum>x\<leftarrow>a # bs. used_size x)" "c_alloc_size c = (\<Sum>x\<leftarrow>a # bs. ab_size x)"
    using rem by (simp_all add: remaining_def)
  obtain blk where blk: "c_blocks c (ab_blk a) = Some blk" "b_size blk = ab_size a" "b_data blk = ab_data a"
    "b_used blk = ab_used a"
  proof -
    have "map_option block_core (c_blocks c (ab_blk a)) = Some (ab_size a, ab_data a, ab_used a)" using parts(3) by simp
    then show thesis by (rule block_coreD) (rule that)
  qed
  let ?q = "give_back (c_cb c) a (c_provider c)"
  have nf: "ab_blk a \<notin> free_blks bs" using parts(1) free_blks_subset [of bs] by auto
  have le: "ab_size a \<le> c_alloc_size c" using alloc_block_le [OF wf, of a] sums(2) by simp
  show ?thesis
  proof (cases "ab_used a = Some True")
    case True
    have lu: "ab_size a \<le> c_used_size c" using used_block_le [OF wf _ True] sums(1) by simp
    have fb: "free_blks (a # bs) = free_blks bs" using True by (simp add: free_blks_simps)
    then have "b_free_list_ptr blk = None" using free_inv_unlinked [OF free _ blk(1)] nf by simp
    let ?k = "c\<lparr>c_used_size := c_used_size c - ab_size a\<rparr>"
    have "free_inv ?k (free_blks bs)" by (rule free_inv_blocks [OF free [unfolded fb]]) (use free_inv_unlinked [OF free [unfolded fb]] in auto)
    moreover have "fresh_ids ?k" by (rule fresh_ids_mono [OF fresh]) auto
    ultimately have "remaining (?k\<lparr>c_provider := ?q, c_alloc_size := c_alloc_size ?k - ab_size a,
        c_blocks := (c_blocks ?k)(ab_blk a := None)\<rparr>) bs"
      using parts wf used sums True by (intro drop_block) (simp_all add: used_size_def)
    moreover have "coarse_ravl_cb_rm_all_blocks_node (snd (aentry a)) c =
      Some (?k\<lparr>c_provider := ?q, c_alloc_size := c_alloc_size ?k - ab_size a, c_blocks := (c_blocks ?k)(ab_blk a := None)\<rparr>)"
      using blk True lu le \<open>b_free_list_ptr blk = None\<close>
      by (cases "cb_free (c_cb c)") (simp_all add: coarse_ravl_cb_rm_all_blocks_node_def aentry_def give_back_def)
    ultimately show ?thesis by auto
  next
    case False
    then have u: "ab_used a = Some False" using un by (cases "ab_used a") auto
    have "ab_blk a \<in> free_blks (a # bs)" using u by (simp add: free_blks_simps)
    then obtain fls where fls: "free_rep c fls" "ab_blk a \<in> snd ` set (felems fls)" using free by (auto simp: free_inv_def)
    from fls obtain e where e: "b_free_list_ptr blk = Some e" by (rule free_rep_elem) (use blk(1) in auto)
    obtain c2 where c2: "free_blocks_rm_node c e = Some (ab_blk a, c2)" "free_inv c2 (free_blks (a # bs) - {ab_blk a})"
      "free_frame c c2" "fresh_ids c2" using free_blocks_rm_node_ok [OF free fresh blk(1) e] by blast
    have "free_blks (a # bs) - {ab_blk a} = free_blks bs" using nf by (auto simp: free_blks_simps)
    then have free2: "free_inv c2 (free_blks bs)" using c2(2) by simp
    have core: "map_option block_core (c_blocks c2 x) = map_option block_core (c_blocks c x)" for x
      using c2(3) by (simp add: free_frame_def)
    then have "c_blocks c2 x = None \<longleftrightarrow> c_blocks c x = None" for x by (metis map_option_is_None)
    then have "dom (c_blocks c2) = dom (c_blocks c)" by (simp add: dom_def)
    then have "remaining (c2\<lparr>c_provider := ?q, c_alloc_size := c_alloc_size c2 - ab_size a,
        c_blocks := (c_blocks c2)(ab_blk a := None)\<rparr>) bs"
      using parts core free2 c2(3,4) wf used sums u
      by (intro drop_block) (simp_all add: used_size_def free_frame_def)
    moreover have "coarse_ravl_cb_rm_all_blocks_node (snd (aentry a)) c =
      Some (c2\<lparr>c_provider := ?q, c_alloc_size := c_alloc_size c2 - ab_size a, c_blocks := (c_blocks c2)(ab_blk a := None)\<rparr>)"
      using blk u e le c2(1,3)
      by (cases "cb_free (c_cb c)")
         (simp_all add: coarse_ravl_cb_rm_all_blocks_node_def aentry_def give_back_def free_frame_def)
    ultimately show ?thesis using c2(3) by (auto simp: free_frame_def)
  qed
qed

lemma rm_all_blocks:
  assumes "remaining c bs"
  shows "\<exists>c'. fold_cb coarse_ravl_cb_rm_all_blocks_node (map snd (map aentry bs)) c = Some c' \<and> remaining c' [] \<and>
    c_all c' = c_all c \<and> c_cb c' = c_cb c \<and> c_provider c' = fold (give_back (c_cb c)) bs (c_provider c)"
  using assms
proof (induction bs arbitrary: c)
  case (Cons a bs)
  obtain c1 where c1: "coarse_ravl_cb_rm_all_blocks_node (snd (aentry a)) c = Some c1" "remaining c1 bs"
    "c_all c1 = c_all c" "c_cb c1 = c_cb c" "c_provider c1 = give_back (c_cb c) a (c_provider c)"
    using rm_block_step [OF Cons.prems] by blast
  then show ?case using Cons.IH [OF c1(2)] by auto
qed simp

lemma free_inv_empty:
  assumes "free_inv c {}"
  shows "c_heads c = Map.empty" "c_elems c = Map.empty" "ravl_index rd_key (c_free c) []"
proof -
  obtain fls where fls: "free_rep c fls" "felems fls = []" using assms by (auto simp: free_inv_def)
  have "fls = []"
  proof (cases fls)
    case (Cons f gs)
    then show ?thesis using fls by (simp add: free_rep_def lists_rep_def list_ok_def felems_def)
  qed
  then show "c_heads c = Map.empty" "c_elems c = Map.empty" "ravl_index rd_key (c_free c) []"
    using fls(1) by (simp_all add: free_rep_def lists_rep_def felems_def)
qed

lemma coarse_delete_ok:
  assumes inv: "coarse_inv c bs"
  shows "\<exists>c'. coarse_delete c = Some c' \<and> c_blocks c' = Map.empty \<and> c_heads c' = Map.empty \<and> c_elems c' = Map.empty \<and>
    ravl_nodes (c_all c') = Map.empty \<and> ravl_nodes (c_free c') = Map.empty \<and>
    c_provider c' = fold (give_back (c_cb c)) bs (c_provider c)"
proof -
  have rep: "all_rep c bs" "free_inv c (free_blks bs)" "fresh_ids c" using inv by (simp_all add: coarse_inv_def cinv_def crep_def)
  then have idx: "ravl_index rd_key (c_all c) (map aentry bs)" by (simp add: all_rep_def)
  have "remaining c bs" using inv rep by (simp add: remaining_def all_rep_def coarse_inv_def cinv_def)
  then obtain c1 where c1: "fold_cb coarse_ravl_cb_rm_all_blocks_node (map snd (map aentry bs)) c = Some c1" "remaining c1 []"
    "c_all c1 = c_all c" "c_provider c1 = fold (give_back (c_cb c)) bs (c_provider c)"
    using rm_all_blocks by blast
  then have e: "free_inv c1 {}" "c_blocks c1 = Map.empty" "c_used_size c1 = 0" "c_alloc_size c1 = 0"
    by (simp_all add: remaining_def free_blks_def)
  note f = free_inv_empty [OF e(1)]
  have "ravl_delete (c_all c1) = Some (Map.empty, ())" "ravl_delete (c_free c1) = Some (Map.empty, ())"
    using index_delete [OF idx] index_delete [OF f(3)] c1(3) by simp_all
  then have "coarse_delete c = Some (c1\<lparr>c_all := (c_all c1)\<lparr>ravl_root := None, ravl_nodes := Map.empty\<rparr>,
      c_free := (c_free c1)\<lparr>ravl_root := None, ravl_nodes := Map.empty\<rparr>\<rparr>)"
    using c1(1) e(3,4) index_foreach [OF idx, of coarse_ravl_cb_rm_all_blocks_node c] by (simp add: coarse_delete_def)
  then show ?thesis using e(2) f(1,2) c1(4) by simp
qed

section \<open>Theorems\<close>

lemma IS_ALIGNED_dvd:
  assumes "IS_POWER_OF_2 al" "IS_ALIGNED r al" "IS_POWER_OF_2 b" "unat b dvd unat al"
  shows "IS_ALIGNED r b"
  using assms IS_ALIGNED_pow2 dvd_trans by metis


lemma demo_provider: "provider_alloc_ok demo demo_blocks" "splits_ok demo"
proof -
  have "all_bytes demo_blocks = {0x1000 ..< 0x4000}" by (auto simp: demo_blocks_def block_bytes_def all_bytes_def)
  moreover have "unat s \<le> 0x10000" if "s \<le> (0x10000 :: u64)" for s using that by (simp add: word_le_nat_alt)
  ultimately show "provider_alloc_ok demo demo_blocks"
    unfolding provider_alloc_ok_def by (auto simp: demo_fields demo_cb_def IS_ALIGNED_def split: if_splits) fastforce
  show "splits_ok demo" by (simp add: splits_ok_def demo_fields demo_cb_def)
qed



text \<open>An allocator over a fixed range, with one free block.\<close>

definition fixed_cb :: "unit coarse_callbacks_t" where
  "fixed_cb = demo_cb\<lparr>cb_alloc := None, cb_free := None\<rparr>"

definition demo_free_block :: "unit coarse_t" where
  "demo_free_block =
     \<lparr>c_provider = (), c_cb = fixed_cb, c_strategy = UMF_COARSE_MEMORY_STRATEGY_FASTEST, c_page_size = 0x1000,
      c_all = \<lparr>ravl_root = Some 1, ravl_compare = coarse_ravl_comp, ravl_data_size = 16,
               ravl_nodes = [1 \<mapsto> \<lparr>rn_parent = None, rn_left = None, rn_right = None, rn_rank = 0,
                                  rn_pointer_based = False, rn_data = \<lparr>rd_key = 0x1000, rd_value = Some 2\<rparr>\<rparr>]\<rparr>,
      c_free = \<lparr>ravl_root = Some 3, ravl_compare = coarse_ravl_comp, ravl_data_size = 16,
                ravl_nodes = [3 \<mapsto> \<lparr>rn_parent = None, rn_left = None, rn_right = None, rn_rank = 0,
                                   rn_pointer_based = False, rn_data = \<lparr>rd_key = 0x8000, rd_value = Some 4\<rparr>\<rparr>]\<rparr>,
      c_used_size = 0, c_alloc_size = 0x8000,
      c_blocks = [2 \<mapsto> \<lparr>b_size = 0x8000, b_data = 0x1000, b_used = Some False, b_free_list_ptr = Some 5\<rparr>],
      c_heads = [4 \<mapsto> Some 5], c_elems = [5 \<mapsto> \<lparr>fe_block = 2, fe_next = None, fe_prev = None\<rparr>],
      c_host = \<lparr>next_id = 10, oom = [], lock_fail = []\<rparr>\<rparr>"

definition free_block_list :: "ablk list" where
  "free_block_list = [\<lparr>ab_node = 1, ab_blk = 2, ab_data = 0x1000, ab_size = 0x8000, ab_used = Some False\<rparr>]"

lemma demo_free_block_ok: "coarse_ok demo_free_block free_block_list"
proof -
  let ?f = "\<lparr>fl_node = 3, fl_size = 0x8000, fl_head = 4, fl_elems = [(5, 2)]\<rparr>"
  have "ravl_index rd_key (c_all demo_free_block) (map aentry free_block_list)"
    unfolding ravl_index_def
    by (intro conjI exI [of _ "RNode RLeaf 1 0 False \<lparr>rd_key = 0x1000, rd_value = Some 2\<rparr> RLeaf"])
       (auto simp: demo_free_block_def free_block_list_def cmp_by_def sorted_keys_def ravl_rep_def aentry_def coarse_ravl_comp_def)
  then have all: "all_rep demo_free_block free_block_list"
    by (simp add: all_rep_def) (auto simp: demo_free_block_def free_block_list_def block_core_def)
  have "ravl_index rd_key (c_free demo_free_block) (map fentry [?f])"
    unfolding ravl_index_def
    by (intro conjI exI [of _ "RNode RLeaf 3 0 False \<lparr>rd_key = 0x8000, rd_value = Some 4\<rparr> RLeaf"])
       (auto simp: demo_free_block_def cmp_by_def sorted_keys_def ravl_rep_def fentry_def coarse_ravl_comp_def)
  then have "free_rep demo_free_block [?f]"
    by (simp add: free_rep_def lists_rep_def felems_def list_ok_def) (auto simp: demo_free_block_def)
  moreover have "free_blks free_block_list = snd ` set (felems [?f])"
    by (simp add: felems_def free_blks_Cons free_block_list_def) (simp add: free_blks_def)
  ultimately have "free_inv demo_free_block (free_blks free_block_list)" unfolding free_inv_def by blast
  moreover have "fresh_ids demo_free_block" by (auto simp: fresh_ids_def demo_free_block_def)
  ultimately have "crep demo_free_block free_block_list (free_blks free_block_list)" using all by (simp add: crep_def)
  moreover have "blocks_wf free_block_list" "\<forall>a\<in>set free_block_list. ab_used a \<noteq> None" by (auto simp: free_block_list_def blocks_wf_def)
  moreover have "c_used_size demo_free_block = (\<Sum>a\<leftarrow>free_block_list. used_size a)"
    "c_alloc_size demo_free_block = (\<Sum>a\<leftarrow>free_block_list. ab_size a)"
    by (simp_all add: demo_free_block_def free_block_list_def used_size_def)
  ultimately have "coarse_inv demo_free_block free_block_list" by (simp add: coarse_inv_def cinv_def)
  then show ?thesis by (simp add: coarse_ok_def) (simp add: demo_free_block_def fixed_cb_def demo_cb_def IS_POWER_OF_2_def)
qed

lemma demo_free_block_env:
  "lock_ok demo_free_block" "splits_ok demo_free_block" "cb_alloc (c_cb demo_free_block) = None"
  "c_page_size demo_free_block = 0x1000"
  by (simp_all add: lock_ok_def mutex_lock_def splits_ok_def demo_free_block_def fixed_cb_def demo_cb_def)


text \<open>A split at 0 would add a second block at the address of the first.\<close>

lemma split_at_zero:
  assumes hd: "held c xs a ys" and sp: "splits_ok c" and oom: "oom (c_host c) = []"
  shows "split_current_block c (ab_blk a) 0 = None"
proof -
  obtain blk where blk: "c_blocks c (ab_blk a) = Some blk" "b_size blk = ab_size a" "b_data blk = ab_data a"
    using hd by (rule held_block)
  obtain sc where sc: "cb_split (c_cb c) = Some sc" "\<And>p d t f. fst (sc p d t f) = UMF_RESULT_SUCCESS"
    using sp by (auto simp: splits_ok_def)
  obtain q where q: "sc (c_provider c) (ab_data a) (ab_size a) 0 = (UMF_RESULT_SUCCESS, q)" using sc(2) by (metis prod.collapse)
  have rep: "crep c (xs @ a # ys) (free_blks (xs @ ys))" and wf: "blocks_wf (xs @ a # ys)" using hd by (simp_all add: held_def)
  have nz: "ab_data a \<noteq> 0" "ab_size a \<noteq> 0" using wf unfolding blocks_wf_mid by simp_all
  show ?thesis
    using blk sc(1) q nz ba_global_alloc_no_oom [OF oom] crep_find [OF rep]
    by (simp add: split_current_block_def can_provider_split_def coarse_ravl_add_new_def Let_def)
qed

text \<open>
  C25. A request for zero bytes is not rejected: when a free block with room for the alignment
  exists, \<open>coarse_alloc\<close> goes on to split that block at offset 0 and fails the assertion that
  no block starts at the address of the second part. The value \<open>None\<close> is the failed assertion.
\<close>

theorem coarse_alloc_zero_size_asserts:
  assumes ok: "coarse_ok c bs" and lk: "lock_ok c" and al: "alloc_alignment (c_page_size c) al0 = Some al"
    and sp: "splits_ok c" and a: "a \<in> set bs" "ab_used a = Some False" "unat al \<le> unat (ab_size a)"
  shows "coarse_alloc c 0 al0 = None"
proof -
  let ?c = "locked c"
  have okl: "coarse_ok ?c bs" using ok by simp
  note D = coarse_okD [OF okl]
  have p2: "IS_POWER_OF_2 al" using alloc_alignment_ok(1) [OF _ al] ok by (simp add: coarse_ok_def)
  then have al0: "0 < al" using pred_unat_pow2 [OF p2] by (auto simp: word_less_nat_alt)
  obtain cur c1 where f: "find_free_block ?c 0 al (c_strategy ?c) = Some (cur, c1)"
    "case cur of None \<Rightarrow> c1 = ?c \<and> (\<forall>a\<in>set bs. ab_used a = Some False \<longrightarrow> unat (ab_size a) < unat (0::u64) + unat al)
     | Some b \<Rightarrow> taken ?c c1 bs b (fits 0 al)"
    using find_free_block_ok [OF D(1), of 0 al "c_strategy ?c"] by blast
  then obtain b where b: "cur = Some b" "taken ?c c1 bs b (fits 0 al)" using a by (cases cur) (auto simp: not_less)
  then obtain xs x ys where x: "b = ab_blk x" "loose c1 xs x ys" "same_env ?c c1" "fits 0 al x" by (auto simp: taken_def)
  have hd: "held c1 xs x ys" by (rule loose_held [OF x(2)])
  obtain blk where blk: "c_blocks c1 (ab_blk x) = Some blk" "b_size blk = ab_size x" "b_used blk = ab_used x"
    using hd by (rule held_block)
  have x2: "ab_used x = Some False" "ab_size x > 0"
    using x(2) by (auto simp: loose_def cinv_def blocks_wf_mid word_neq_0_conv)
  have sp1: "splits_ok c1" "oom (c_host c1) = []" using sp x(3) D(4) by (simp_all add: splits_ok_def same_env_def)
  then obtain sc where sc: "cb_split (c_cb c1) = Some sc" "\<And>p d t f. fst (sc p d t f) = UMF_RESULT_SUCCESS"
    by (auto simp: splits_ok_def)
  obtain c2 xs' x' where c2: "create_aligned_block c1 0 al (ab_blk x) = Some (UMF_RESULT_SUCCESS, ab_blk x', c2)"
    "held c2 xs' x' ys" "same_env c1 c2"
    using create_aligned_ok [OF hd sp1(2) p2 sc, of 0] x(4) by auto
  have "split_current_block c2 (ab_blk x') 0 = None"
    using split_at_zero [OF c2(2)] sp1 c2(3) by (simp add: splits_ok_def same_env_def)
  then have "alloc_use_block c1 0 al (ab_blk x) 0 = None"
    using blk x2 al0 c2(1) by (simp add: alloc_use_block_def Let_def)
  then show ?thesis using al lk D(5) f(1) b(1) x(1) by (simp add: coarse_alloc_def mutex_lock_eq Let_def)
qed

theorem coarse_alloc_zero_size_asserts_witness:
  "coarse_alloc demo_free_block 0 0 = None"
  using coarse_alloc_zero_size_asserts [OF demo_free_block_ok demo_free_block_env(1) _ demo_free_block_env(2), of 0 "0x1000"
      "\<lparr>ab_node = 1, ab_blk = 2, ab_data = 0x1000, ab_size = 0x8000, ab_used = Some False\<rparr>"]
  by (simp add: alloc_alignment_def demo_free_block_env(4) free_block_list_def)

text \<open>
  C24. An alignment that is neither 0 nor a power of two is refused with
  \<open>UMF_RESULT_ERROR_INVALID_ALIGNMENT\<close>; neither the state nor the result pointer is touched.
\<close>

theorem coarse_alloc_bad_alignment:
  assumes "IS_POWER_OF_2 (c_page_size c)" "al0 \<noteq> 0" "\<not> IS_POWER_OF_2 al0"
  shows "coarse_alloc c sz al0 = Some (UMF_RESULT_ERROR_INVALID_ALIGNMENT, None, c)"
  using alloc_alignment_None [OF assms(1), of al0] assms(2,3) by (simp add: coarse_alloc_def)

theorem coarse_alloc_bad_alignment_witness:
  "coarse_alloc demo 0x100 0x1800 = Some (UMF_RESULT_ERROR_INVALID_ALIGNMENT, None, demo)"
  using coarse_alloc_bad_alignment [of demo "0x1800" "0x100"] by (simp add: demo_fields IS_POWER_OF_2_def)

text \<open>
  C19. Creation and growth: from valid parameters \<open>coarse_new\<close> makes an allocator that
  satisfies the invariant with no blocks, and \<open>coarse_add_memory_fixed\<close> then adds a memory
  range to it as free memory: nothing is in use and exactly the bytes of the range are managed.
\<close>

theorem coarse_new_add_fixed:
  assumes "oom s = []" "lock_fail s = []" "IS_POWER_OF_2 (cp_page_size ps)" "cp_provider ps = Some p"
    and "cb_split (cp_cb ps) \<noteq> None" "cb_merge (cp_cb ps) \<noteq> None" "cb_alloc (cp_cb ps) = None" "cb_free (cp_cb ps) = None"
    and "d \<noteq> 0" "n \<noteq> 0" "unat d + unat n \<le> 2 ^ 64"
  shows "\<exists>c s' c' bs. coarse_new (Some ps) s = Some (UMF_RESULT_SUCCESS, Some c, s') \<and> coarse_ok c [] \<and>
    coarse_add_memory_fixed c d n = Some (UMF_RESULT_SUCCESS, c') \<and> coarse_ok c' bs \<and>
    used_view bs = [] \<and> all_bytes bs = {unat d ..< unat d + unat n} \<and> c_used_size c' = 0 \<and> c_alloc_size c' = n"
proof -
  have nz: "cp_page_size ps \<noteq> 0" using assms(3) by (simp add: IS_POWER_OF_2_def)
  have "fst (mutex_init s)" using assms(2) by (simp add: mutex_init_def mutex_lock_def)
  then obtain c s' where c: "coarse_new (Some ps) s = Some (UMF_RESULT_SUCCESS, Some c, s')" "coarse_inv c []"
    "c_cb c = cp_cb ps" "c_page_size c = cp_page_size ps" "oom (c_host c) = []" "lock_fail (c_host c) = []"
    using coarse_new_Some [OF assms(1) _ nz assms(4-6)] assms(2) by auto
  have ok: "coarse_ok c []" using c assms by (simp add: coarse_ok_def)
  have z: "c_used_size c = 0" "c_alloc_size c = 0" using c(2) by (simp_all add: coarse_inv_def cinv_def)
  obtain c' bs where "coarse_add_memory_fixed c d n = Some (UMF_RESULT_SUCCESS, c')" "coarse_ok c' bs"
    "used_view bs = used_view []" "all_bytes bs = all_bytes [] \<union> {unat d ..< unat d + unat n}"
    "c_used_size c' = c_used_size c" "c_alloc_size c' = c_alloc_size c + n"
    using add_fixed_ok [OF ok c(6) assms(9,10) _ _ assms(11)] c(3) assms(7,8) by (auto simp: all_bytes_def)
  then show ?thesis using c(1) ok z
    by (intro exI [of _ c] exI [of _ s'] exI [of _ c'] exI [of _ bs]) (simp add: used_view_def all_bytes_def)
qed

theorem coarse_new_add_fixed_witness:
  "\<exists>c s' c' bs. coarse_new (Some \<lparr>cp_provider = Some (), cp_cb = fixed_cb,
       cp_strategy = UMF_COARSE_MEMORY_STRATEGY_FASTEST, cp_page_size = 0x1000\<rparr>) \<lparr>next_id = 1, oom = [], lock_fail = []\<rparr> =
       Some (UMF_RESULT_SUCCESS, Some c, s') \<and> coarse_ok c [] \<and>
    coarse_add_memory_fixed c 0x5000 0x3000 = Some (UMF_RESULT_SUCCESS, c') \<and> coarse_ok c' bs \<and>
    used_view bs = [] \<and> all_bytes bs = {0x5000 ..< 0x8000} \<and> c_used_size c' = 0 \<and> c_alloc_size c' = 0x3000"
  using coarse_new_add_fixed [of "\<lparr>next_id = 1, oom = [], lock_fail = []\<rparr>" "\<lparr>cp_provider = Some (), cp_cb = fixed_cb,
       cp_strategy = UMF_COARSE_MEMORY_STRATEGY_FASTEST, cp_page_size = 0x1000\<rparr>" "()" "0x5000" "0x3000"]
  by (simp add: IS_POWER_OF_2_def fixed_cb_def demo_cb_def)

text \<open>
  C18. Deletion: \<open>coarse_delete\<close> of a consistent allocator passes its assertions, gives every
  block back to the upstream provider exactly once, in the order of the addresses, and leaves
  no block, list head, list element or tree node behind.
\<close>

theorem coarse_delete_releases_all:
  assumes "coarse_ok c bs"
  shows "\<exists>c'. coarse_delete c = Some c' \<and> c_blocks c' = Map.empty \<and> c_heads c' = Map.empty \<and> c_elems c' = Map.empty \<and>
    ravl_nodes (c_all c') = Map.empty \<and> ravl_nodes (c_free c') = Map.empty \<and>
    c_provider c' = fold (give_back (c_cb c)) bs (c_provider c)"
  using assms by (intro coarse_delete_ok) (simp add: coarse_ok_def)

theorem coarse_delete_releases_all_witness:
  "\<exists>c'. coarse_delete demo = Some c' \<and> c_blocks c' = Map.empty \<and> c_heads c' = Map.empty \<and> c_elems c' = Map.empty \<and>
    ravl_nodes (c_all c') = Map.empty \<and> ravl_nodes (c_free c') = Map.empty"
  using coarse_delete_releases_all [OF demo_ok] by blast

end
