(* ===== verification/Heap_Contract.thy ===== *)
theory Heap_Contract
  imports Utils
begin

text \<open>
  The contract of a memory provider as a client sees it: the state is the list of live
  allocations (address and size, in address order), and a call with its reply changes it in
  one of a few ways. The providers are shown to implement it, and the layers above rely on
  nothing else.
\<close>

type_synonym view = "(addr \<times> u64) list"

datatype heap_op =
    Op_Alloc u64 u64
  | Op_Free addr u64
  | Op_Split addr u64 u64
  | Op_Merge addr addr u64

text \<open>The result code, and the address that an allocation stores.\<close>

type_synonym reply = "umf_result \<times> addr option"

text \<open>How the list changes: one more allocation, or one allocation cut in two.\<close>

definition view_insert :: "addr \<Rightarrow> u64 \<Rightarrow> view \<Rightarrow> view \<Rightarrow> bool" where
  "view_insert p n v v' \<longleftrightarrow> (\<exists>us vs. v = us @ vs \<and> v' = us @ (p, n) # vs)"

definition view_split :: "addr \<Rightarrow> u64 \<Rightarrow> u64 \<Rightarrow> view \<Rightarrow> view \<Rightarrow> bool" where
  "view_split p n f v v' \<longleftrightarrow> (\<exists>us vs. v = us @ (p, n) # vs \<and> v' = us @ (p, f) # (p + f, n - f) # vs)"

lemma view_insertI: "v = us @ vs \<Longrightarrow> v' = us @ (p, n) # vs \<Longrightarrow> view_insert p n v v'"
  by (auto simp: view_insert_def)

lemma view_splitI: "v = us @ (p, n) # vs \<Longrightarrow> v' = us @ (p, f) # (p + f, n - f) # vs \<Longrightarrow> view_split p n f v v'"
  by (auto simp: view_split_def)

fun heap_spec :: "heap_op \<Rightarrow> reply \<Rightarrow> view \<Rightarrow> view \<Rightarrow> bool" where
  "heap_spec (Op_Alloc n al) (rc, r) v v' \<longleftrightarrow>
     (if rc = UMF_RESULT_SUCCESS then \<exists>p. r = Some p \<and> view_insert p n v v' \<and> IS_ALIGNED p al else v' = v)"
| "heap_spec (Op_Free p n) (rc, r) v v' \<longleftrightarrow>
     (if rc = UMF_RESULT_SUCCESS \<and> p \<noteq> 0 then \<exists>m. view_insert p m v' v \<and> (n = 0 \<or> n = m) else v' = v)"
| "heap_spec (Op_Split p t f) (rc, r) v v' \<longleftrightarrow>
     (if rc = UMF_RESULT_SUCCESS then view_split p t f v v' else v' = v)"
| "heap_spec (Op_Merge lo hi t) (rc, r) v v' \<longleftrightarrow>
     (if rc = UMF_RESULT_SUCCESS then view_split lo t (hi - lo) v' v else v' = v)"

fun heap_specs :: "heap_op list \<Rightarrow> reply list \<Rightarrow> view \<Rightarrow> view \<Rightarrow> bool" where
  "heap_specs [] [] v v' \<longleftrightarrow> v' = v"
| "heap_specs (op # ops) (r # rs) v v' \<longleftrightarrow> (\<exists>w. heap_spec op r v w \<and> heap_specs ops rs w v')"
| "heap_specs _ _ _ _ \<longleftrightarrow> False"

fun op_ok :: "heap_op \<Rightarrow> bool" where
  "op_ok (Op_Alloc n _) \<longleftrightarrow> n \<noteq> 0"
| "op_ok _ \<longleftrightarrow> True"

text \<open>Frees that name the address and the size of what they release.\<close>

fun free_exact :: "heap_op \<Rightarrow> bool" where
  "free_exact (Op_Free p n) \<longleftrightarrow> p \<noteq> 0 \<and> n \<noteq> 0"
| "free_exact _ \<longleftrightarrow> True"

end
