(* ===== verification/Coarse_Total.thy ===== *)
theory Coarse_Total
  imports Coarse_Mem Heap_Contract
begin

text \<open>
  The operations of the coarse allocator on arbitrary arguments: whatever a client passes,
  an operation returns, and the invariant and the managed bytes are kept. This covers every
  error path: invalid arguments, a lock that cannot be taken, unknown addresses, wrong
  sizes, and an upstream provider that refuses.
\<close>

lemma coarse_ok_provider [simp]: "coarse_ok (c\<lparr>c_provider := q\<rparr>) bs = coarse_ok c bs"
  by (simp add: coarse_ok_def coarse_inv_def)

lemma lock_failed: "\<not> lock_ok c \<Longrightarrow> mutex_lock (c_host c) = (False, c_host (locked c))"
  by (cases "mutex_lock (c_host c)") (simp add: lock_ok_def locked_def)

text \<open>Where an address is looked up: in no block, or at the start of one.\<close>

lemma at_address:
  assumes "coarse_ok c bs"
  obtains (none) "ravl_find (c_all c) (key_data p) RAVL_PREDICATE_EQUAL = Some None" "\<forall>a\<in>set bs. ab_data a \<noteq> p"
  | (block) xs a ys blk u where "bs = xs @ a # ys" "ab_data a = p" "ab_used a = Some u"
      "ravl_find (c_all c) (key_data p) RAVL_PREDICATE_EQUAL = Some (Some (ab_node a))"
      "get_node_block (c_all c) (ab_node a) = Some (ab_blk a)"
      "c_blocks c (ab_blk a) = Some blk" "b_size blk = ab_size a" "b_data blk = p" "b_used blk = Some u"
proof (cases "\<exists>a\<in>set bs. ab_data a = p")
  case True
  then obtain xs a ys where bs: "bs = xs @ a # ys" "ab_data a = p" by (metis split_list)
  have rep: "crep c (xs @ a # ys) (free_blks bs)" using coarse_okD(2) [OF assms] bs by simp
  obtain blk where blk: "c_blocks c (ab_blk a) = Some blk" "b_size blk = ab_size a" "b_data blk = ab_data a"
    "b_used blk = ab_used a" using crep_block [OF rep, of a] by auto
  obtain u where "ab_used a = Some u" using assms bs by (auto simp: coarse_ok_def coarse_inv_def cinv_def)
  then show thesis using block [OF bs] bs(2) blk crep_find [OF rep] crep_node [OF rep] by auto
next
  case False
  then show thesis using none crep_find_none [OF coarse_okD(2) [OF assms], of p] by auto
qed

definition stays_ok :: "'p coarse_t \<Rightarrow> ablk list \<Rightarrow> 'p coarse_t \<Rightarrow> ablk list \<Rightarrow> bool" where
  "stays_ok c bs c' bs' \<longleftrightarrow>
     coarse_ok c' bs' \<and> all_bytes bs' = all_bytes bs \<and> c_cb c' = c_cb c \<and> c_page_size c' = c_page_size c \<and>
     c_alloc_size c' = c_alloc_size c"

lemma stays_ok_refl: "coarse_ok c bs \<Longrightarrow> stays_ok c bs c bs"
  by (simp add: stays_ok_def)

lemma stays_ok_locked: "coarse_ok c bs \<Longrightarrow> stays_ok c bs (locked c) bs"
  by (simp add: stays_ok_def)

lemma stays_ok_locked_provider: "coarse_ok c bs \<Longrightarrow> stays_ok c bs ((locked c)\<lparr>c_provider := q\<rparr>) bs"
  by (simp add: stays_ok_def)

lemma unat_sum_eq: "unat (x :: u64) = unat y + unat z \<Longrightarrow> x = y + z \<and> z = x - y"
proof -
  assume a: "unat x = unat y + unat z"
  then have "x = y + z" using unat_plus_u64 [of y z] unat_less_u64 [of x] by (simp add: word_unat_eq_iff [of x])
  then show ?thesis by simp
qed

lemma split_total:
  assumes ok: "coarse_ok c bs"
  shows "\<exists>rc c' bs'. coarse_split c p totalSize firstSize = Some (rc, c') \<and> stays_ok c bs c' bs' \<and>
    (if rc = UMF_RESULT_SUCCESS
     then view_split p totalSize firstSize (used_view bs) (used_view bs')
     else bs' = bs) \<and> c_used_size c' = c_used_size c"
proof -
  obtain sp where cb: "cb_split (c_cb c) = Some sp" using ok by (auto simp: coarse_ok_def)
  have okl: "coarse_ok (locked c) bs" using ok by simp
  note dbg = coarse_okD(5) [OF okl]
  consider (args) "p = 0 \<or> firstSize \<ge> totalSize \<or> firstSize = 0 \<or> totalSize = 0"
    | (lock) "\<not> (p = 0 \<or> firstSize \<ge> totalSize \<or> firstSize = 0 \<or> totalSize = 0)" "\<not> lock_ok c"
    | (go) "\<not> (p = 0 \<or> firstSize \<ge> totalSize \<or> firstSize = 0 \<or> totalSize = 0)" "lock_ok c" by blast
  then show ?thesis
  proof cases
    case args
    then have "coarse_split c p totalSize firstSize = Some (UMF_RESULT_ERROR_INVALID_ARGUMENT, c)"
      by (simp only: coarse_split_def if_True)
    then show ?thesis using stays_ok_refl [OF ok] by auto
  next
    case lock
    then have "coarse_split c p totalSize firstSize = Some (UMF_RESULT_ERROR_UNKNOWN, locked c)"
      using lock_failed [OF lock(2)] by (simp add: coarse_split_def)
    then show ?thesis using stays_ok_locked [OF ok] by auto
  next
    case go
    from okl show ?thesis
    proof (cases rule: at_address [of "locked c" bs p])
      case none
      then have "coarse_split c p totalSize firstSize = Some (UMF_RESULT_ERROR_INVALID_ARGUMENT, locked c)"
        using go dbg by (simp add: coarse_split_def mutex_lock_eq coarse_ravl_find_node_def)
      then show ?thesis using stays_ok_locked [OF ok] by auto
    next
      case (block xs a ys blk u)
      obtain rc q where r: "sp (c_provider c) p totalSize firstSize = (rc, q)" by fastforce
      consider (bad) "ab_size a \<noteq> totalSize \<or> \<not> u" | (refused) "ab_size a = totalSize" u "rc \<noteq> UMF_RESULT_SUCCESS"
        | (fine) "ab_size a = totalSize" u "rc = UMF_RESULT_SUCCESS" by blast
      then show ?thesis
      proof cases
        case bad
        then have "coarse_split c p totalSize firstSize = Some (UMF_RESULT_ERROR_INVALID_ARGUMENT, locked c)"
          using go dbg block
          by (cases u; cases "ab_size a = totalSize")
             (simp_all add: coarse_split_def mutex_lock_eq coarse_ravl_find_node_def Let_def)
        then show ?thesis using stays_ok_locked [OF ok] by auto
      next
        case refused
        have "coarse_ok ((locked c)\<lparr>c_provider := q\<rparr>) bs" using okl by simp
        note dbg2 = coarse_okD(5) [OF this]
        have "coarse_split c p totalSize firstSize = Some (rc, (locked c)\<lparr>c_provider := q\<rparr>)"
          using go dbg block refused r cb dbg2
          by (simp add: coarse_split_def mutex_lock_eq coarse_ravl_find_node_def can_provider_split_def Let_def)
        then show ?thesis using stays_ok_locked_provider [OF ok] refused by auto
      next
        case fine
        have f: "0 < firstSize" "firstSize < ab_size a" using go(1) fine(1) by (auto simp: word_neq_0_conv)
        obtain c' a1 a2 where c': "coarse_split c p totalSize firstSize = Some (UMF_RESULT_SUCCESS, c')"
          "coarse_ok c' (xs @ a1 # a2 # ys)" "same_env (locked c) c'" "halves a a1 a2"
          "ab_size a1 = firstSize" "ab_used a1 = Some True" "ab_used a2 = Some True"
          using split_used [of c xs a ys firstSize sp q] ok block fine r cb go(2) f by auto
        have h0: "ab_data a1 = p" "unat (ab_data a2) = unat p + unat firstSize"
          "unat totalSize = unat firstSize + unat (ab_size a2)"
          using c'(4,5) block(2) fine(1) by (simp_all add: halves_def)
        note h = h0(1) unat_sum_eq [OF h0(2), THEN conjunct1] unat_sum_eq [OF h0(3), THEN conjunct2]
        have v: "used_view bs = used_view xs @ (p, totalSize) # used_view ys"
          "used_view (xs @ a1 # a2 # ys) = used_view xs @ (p, firstSize) # (p + firstSize, totalSize - firstSize) # used_view ys"
          using block(1-3) fine(1,2) h c'(5-7) by (simp_all add: used_view_def)
        have "stays_ok c bs c' (xs @ a1 # a2 # ys)" "c_used_size c' = c_used_size c"
          using c'(2,3) block(1) halves_bytes [OF c'(4)] by (auto simp: stays_ok_def same_env_def)
        moreover have "view_split p totalSize firstSize (used_view bs) (used_view (xs @ a1 # a2 # ys))"
          using v by (rule view_splitI)
        ultimately have "coarse_split c p totalSize firstSize = Some (UMF_RESULT_SUCCESS, c') \<and>
            stays_ok c bs c' (xs @ a1 # a2 # ys) \<and>
            (if UMF_RESULT_SUCCESS = UMF_RESULT_SUCCESS
             then view_split p totalSize firstSize (used_view bs) (used_view (xs @ a1 # a2 # ys))
             else (xs @ a1 # a2 # ys) = bs) \<and> c_used_size c' = c_used_size c"
          using c'(1) by (simp only: simp_thms if_True)
        then show ?thesis by blast
      qed
    qed
  qed
qed

lemma free_total:
  assumes ok: "coarse_ok c bs"
  shows "\<exists>rc c' bs'. coarse_free c p bytes = Some (rc, c') \<and> stays_ok c bs c' bs' \<and>
    (if rc = UMF_RESULT_SUCCESS \<and> p \<noteq> 0 then \<exists>n. view_insert p n (used_view bs') (used_view bs) \<and>
        c_used_size c' = c_used_size c - n \<and> (bytes = 0 \<or> bytes = n)
     else bs' = bs \<and> c_used_size c' = c_used_size c)"
proof -
  have okl: "coarse_ok (locked c) bs" using ok by simp
  note dbg = coarse_okD(5) [OF okl]
  consider (null) "p = 0" | (lock) "p \<noteq> 0" "\<not> lock_ok c" | (go) "p \<noteq> 0" "lock_ok c" by blast
  then show ?thesis
  proof cases
    case null
    then have "coarse_free c p bytes = Some (UMF_RESULT_SUCCESS, c)" by (simp add: coarse_free_def)
    then show ?thesis using stays_ok_refl [OF ok] null by auto
  next
    case lock
    then have "coarse_free c p bytes = Some (UMF_RESULT_ERROR_UNKNOWN, locked c)"
      using lock_failed [OF lock(2)] by (simp add: coarse_free_def)
    then show ?thesis using stays_ok_locked [OF ok] by auto
  next
    case go
    from okl show ?thesis
    proof (cases rule: at_address [of "locked c" bs p])
      case none
      then have "coarse_free c p bytes = Some (UMF_RESULT_ERROR_INVALID_ARGUMENT, locked c)"
        using go dbg by (simp add: coarse_free_def mutex_lock_eq coarse_ravl_find_node_def)
      then show ?thesis using stays_ok_locked [OF ok] by auto
    next
      case (block xs a ys blk u)
      show ?thesis
      proof (cases "u \<and> (bytes = 0 \<or> bytes = ab_size a)")
        case True
        then obtain c' bs' where c': "coarse_free c p bytes = Some (UMF_RESULT_SUCCESS, c')" "coarse_ok c' bs'"
          "c_cb c' = c_cb c" "c_alloc_size c' = c_alloc_size c" "c_used_size c' = c_used_size c - ab_size a"
          "used_view bs' = used_view xs @ used_view ys" "all_bytes bs' = all_bytes (xs @ a # ys)" "c_page_size c' = c_page_size c"
          using free_used [of c xs a ys bytes] ok block go(2) by auto
        moreover have "used_view bs = used_view xs @ (p, ab_size a) # used_view ys" using block True by simp
        then have "view_insert p (ab_size a) (used_view bs') (used_view bs)" by (rule view_insertI [OF c'(6)])
        ultimately show ?thesis using block(1) go(1) True
          by (intro exI [of _ UMF_RESULT_SUCCESS] exI [of _ c'] exI [of _ bs']) (auto simp: stays_ok_def)
      next
        case False
        then have "u \<Longrightarrow> 0 < bytes \<and> bytes \<noteq> ab_size a" by (simp add: word_neq_0_conv)
        then have "coarse_free c p bytes = Some (UMF_RESULT_ERROR_INVALID_ARGUMENT, locked c)"
          using go dbg block by (cases u) (simp_all add: coarse_free_def mutex_lock_eq coarse_ravl_find_node_def)
        then show ?thesis using stays_ok_locked [OF ok] by auto
      qed
    qed
  qed
qed

lemma alloc_total:
  assumes ok: "coarse_ok c bs" and sz: "sz \<noteq> 0" and sp: "splits_ok c" and cb: "cb_alloc (c_cb c) = None"
  shows "\<exists>rc r c' bs'. coarse_alloc c sz al0 = Some (rc, r, c') \<and> stays_ok c bs c' bs' \<and>
    (if rc = UMF_RESULT_SUCCESS
     then \<exists>p. r = Some p \<and> view_insert p sz (used_view bs) (used_view bs') \<and> IS_ALIGNED p al0 \<and>
        c_used_size c' = c_used_size c + sz
     else bs' = bs \<and> c_used_size c' = c_used_size c)"
proof -
  have ps: "IS_POWER_OF_2 (c_page_size c)" using ok by (simp add: coarse_ok_def)
  show ?thesis
  proof (cases "alloc_alignment (c_page_size c) al0")
    case None
    then have "coarse_alloc c sz al0 = Some (UMF_RESULT_ERROR_INVALID_ALIGNMENT, None, c)" by (simp add: coarse_alloc_def)
    then show ?thesis using stays_ok_refl [OF ok] by auto
  next
    case (Some al)
    show ?thesis
    proof (cases "lock_ok c")
      case False
      then have "coarse_alloc c sz al0 = Some (UMF_RESULT_ERROR_UNKNOWN, None, locked c)"
        using Some lock_failed [OF False] by (simp add: coarse_alloc_def)
      then show ?thesis using stays_ok_locked [OF ok] by auto
    next
      case True
      have pr: "provider_alloc_ok c bs" using cb by (simp add: provider_alloc_ok_def)
      obtain rc r c' bs' where c': "coarse_alloc c sz al0 = Some (rc, Some r, c')" "coarse_ok c' bs'" "c_cb c' = c_cb c"
        "c_page_size c' = c_page_size c"
        "if rc = UMF_RESULT_SUCCESS then IS_ALIGNED r al \<and> all_bytes bs \<subseteq> all_bytes bs' \<and> c_used_size c' = c_used_size c + sz \<and>
            (\<exists>us vs. used_view bs = us @ vs \<and> used_view bs' = us @ (r, sz) # vs)
          else bs' = bs \<and> c_used_size c' = c_used_size c"
        "all_bytes bs' = all_bytes bs" "c_alloc_size c' = c_alloc_size c"
        using coarse_alloc_locked [OF ok True sz Some sp pr] cb by blast
      note A = alloc_alignment_ok [OF ps Some]
      have "IS_ALIGNED r al0" if al: "IS_ALIGNED r al"
      proof (cases "al0 = 0")
        case False
        then have "IS_POWER_OF_2 al0" using alloc_alignment_None [OF ps, of al0] Some by auto
        then show ?thesis using IS_ALIGNED_dvd [OF A(1) al] A(3) False by blast
      qed simp
      then show ?thesis
        using c' by (intro exI [of _ rc] exI [of _ "Some r"] exI [of _ c'] exI [of _ bs']) (auto simp: stays_ok_def view_insert_def)
    qed
  qed
qed

text \<open>The body of \<open>coarse_merge\<close> once both blocks have been found in use.\<close>

lemma crep_same_node:
  assumes "crep c bs F" "a \<in> set bs" "b \<in> set bs" "ab_node a = ab_node b"
  shows "a = b"
proof -
  have "ravl_index rd_key (c_all c) (map aentry bs)" using assms(1) by (simp add: crep_def all_rep_def)
  then have "distinct (map fst (map aentry bs))" by (rule ravl_ix.idx_distinct)
  then have "distinct (map ab_node bs)" by (simp add: comp_def aentry_def)
  then show ?thesis using assms(2-4) by (simp add: distinct_map inj_on_def)
qed

lemma merge_total:
  assumes ok: "coarse_ok c bs"
  shows "\<exists>rc c' bs'. coarse_merge c lo hi totalSize = Some (rc, c') \<and> stays_ok c bs c' bs' \<and>
    (if rc = UMF_RESULT_SUCCESS
     then view_split lo totalSize (hi - lo) (used_view bs') (used_view bs)
     else bs' = bs) \<and> c_used_size c' = c_used_size c"
proof -
  obtain m where cb: "cb_merge (c_cb c) = Some m" using ok by (auto simp: coarse_ok_def)
  have okl: "coarse_ok (locked c) bs" using ok by simp
  note D = coarse_okD [OF okl]
  let ?bad = "lo = 0 \<or> hi = 0 \<or> totalSize = 0 \<or> hi \<le> lo \<or> hi - lo \<ge> totalSize"
  have inval: "\<exists>rc c' bs'. coarse_merge c lo hi totalSize = Some (rc, c') \<and> stays_ok c bs c' bs' \<and>
      (if rc = UMF_RESULT_SUCCESS
     then view_split lo totalSize (hi - lo) (used_view bs') (used_view bs)
     else bs' = bs) \<and> c_used_size c' = c_used_size c"
    if "coarse_merge c lo hi totalSize = Some (UMF_RESULT_ERROR_INVALID_ARGUMENT, locked c)"
    using that stays_ok_locked [OF ok] by auto
  consider (args) ?bad | (lock) "\<not> ?bad" "\<not> lock_ok c" | (go) "\<not> ?bad" "lock_ok c" by blast
  then show ?thesis
  proof cases
    case args
    then have "coarse_merge c lo hi totalSize = Some (UMF_RESULT_ERROR_INVALID_ARGUMENT, c)"
      by (simp only: coarse_merge_def if_True)
    then show ?thesis using stays_ok_refl [OF ok] by auto
  next
    case lock
    then have "coarse_merge c lo hi totalSize = Some (UMF_RESULT_ERROR_UNKNOWN, locked c)"
      using lock_failed [OF lock(2)] by (simp add: coarse_merge_def)
    then show ?thesis using stays_ok_locked [OF ok] by auto
  next
    case go
    from okl show ?thesis
    proof (cases rule: at_address [of "locked c" bs lo])
      case none
      then show ?thesis using go D(5) by (intro inval) (simp add: coarse_merge_def mutex_lock_eq coarse_ravl_find_node_def Let_def)
    next
      case (block xs a ys ba ua)
      note la = block
      show ?thesis
      proof (cases ua)
        case False
        then show ?thesis
          using go D(5) la by (intro inval) (simp add: coarse_merge_def mutex_lock_eq coarse_ravl_find_node_def Let_def)
      next
        case ua: True
        from okl show ?thesis
        proof (cases rule: at_address [of "locked c" bs hi])
          case none
          then show ?thesis using go D(5) la ua
            by (intro inval) (simp add: coarse_merge_def mutex_lock_eq coarse_ravl_find_node_def Let_def)
        next
          case (block xs' b ys' bb ub)
          note lb = block
          have nx: "get_node_next (c_all c) (ab_node a) = Some (case ys of [] \<Rightarrow> None | y # _ \<Rightarrow> Some (ab_node y))"
            using crep_next [of "locked c" xs a ys "free_blks bs"] D(2) la(1) by simp
          show ?thesis
          proof (cases "ub \<and> (case ys of [] \<Rightarrow> None | y # _ \<Rightarrow> Some (ab_node y)) = Some (ab_node b) \<and>
              hi = lo + ab_size a \<and> ab_size a + ab_size b = totalSize")
            case True
            then obtain y zs where ys: "ys = y # zs" "ab_node y = ab_node b" by (cases ys) auto
            have y: "y \<in> set bs" using ys la(1) by simp
            have "b \<in> set bs" using lb(1) by simp
            with y have "y = b" using crep_same_node [OF D(2)] ys(2) by blast
            then have bs: "bs = xs @ a # b # zs" using la(1) ys(1) by simp
            have mg: "mergeable a b True" using True la lb ua by (simp add: mergeable_def)
            obtain rc q where r: "m (c_provider c) lo hi totalSize = (rc, q)" by fastforce
            show ?thesis
            proof (cases "rc = UMF_RESULT_SUCCESS")
              case rcs: True
              obtain c' ys2 where c': "coarse_merge c lo hi totalSize = Some (UMF_RESULT_SUCCESS, c')"
                "coarse_ok c' (xs @ a\<lparr>ab_size := totalSize\<rparr> # ys2)" "same_env (locked c) c'" "map acore ys2 = map acore zs"
                using merge_used [of c xs a b zs m q] ok bs mg go(2) cb r rcs la(2) lb(2) True by auto
              have "block_bytes (a\<lparr>ab_size := totalSize\<rparr>) = block_bytes a \<union> block_bytes b"
                using halves_bytes [OF mergeable_halves [OF mg, of xs zs]] D(3) bs True by simp
              then have st: "stays_ok c bs c' (xs @ a\<lparr>ab_size := totalSize\<rparr> # ys2)" "c_used_size c' = c_used_size c"
                using c'(2,3) bs acore_cong(4) [OF c'(4)] by (auto simp: stays_ok_def same_env_def)
              have sz2: "ab_size b = totalSize - ab_size a" using True by (metis add_diff_cancel_left')
              have v1: "used_view bs = used_view xs @ (lo, hi - lo) # (lo + (hi - lo), totalSize - (hi - lo)) # used_view zs"
                using bs la(2,3) lb(2,3) ua True sz2 by (simp add: used_view_def)
              have v2: "used_view (xs @ a\<lparr>ab_size := totalSize\<rparr> # ys2) = used_view xs @ (lo, totalSize) # used_view zs"
                using la(2,3) ua acore_cong(3) [OF c'(4)] by (simp add: used_view_def)
              show ?thesis using c'(1) st view_splitI [OF v2 v1]
                by (intro exI [of _ UMF_RESULT_SUCCESS] exI [of _ c'] exI [of _ "xs @ a\<lparr>ab_size := totalSize\<rparr> # ys2"])
                   (simp only: simp_thms if_True)
            next
              case False
              have rep: "crep (locked c) (xs @ a # b # zs) (free_blks bs)" using D(2) bs by simp
              have ub: "user_block_merge (locked c) (ab_node a) (ab_node b) True = Some (rc, None, (locked c)\<lparr>c_provider := q\<rparr>)"
                using user_block_merge_failed [OF rep mg, of m rc q] cb r False la(2) lb(2) True by simp
              have "coarse_ok ((locked c)\<lparr>c_provider := q\<rparr>) bs" using okl by simp
              note dbg2 = coarse_okD(5) [OF this]
              have pv: "get_node_prev (c_all c) (ab_node b) = Some (Some (ab_node a))" using crep_prev [OF rep] by simp
              have "coarse_merge c lo hi totalSize = Some (rc, (locked c)\<lparr>c_provider := q\<rparr>)"
                using go D(5) la lb ua True nx pv ub False dbg2
                by (simp add: coarse_merge_def mutex_lock_eq coarse_ravl_find_node_def Let_def)
              then show ?thesis using stays_ok_locked_provider [OF ok] False by auto
            qed
          next
            case False
            have pv: "get_node_prev (c_all c) (ab_node b) = Some (Some (ab_node a))"
              if nn: "(case ys of [] \<Rightarrow> None | y # _ \<Rightarrow> Some (ab_node y)) = Some (ab_node b)"
            proof -
              obtain y zs where ys: "ys = y # zs" "ab_node y = ab_node b" using nn by (cases ys) auto
              then show ?thesis using crep_prev [of "locked c" xs a y zs "free_blks bs"] D(2) la(1) by simp
            qed
            show ?thesis
            proof (cases "ub \<and> (case ys of [] \<Rightarrow> None | y # _ \<Rightarrow> Some (ab_node y)) = Some (ab_node b) \<and> hi = lo + ab_size a")
              case True
              then have "ab_size a + ab_size b \<noteq> totalSize" using False by blast
              then show ?thesis
                using True go D(5) la lb ua nx pv
                by (intro inval) (simp add: coarse_merge_def mutex_lock_eq coarse_ravl_find_node_def Let_def)
            next
              case False
              then show ?thesis
                using go D(5) la lb ua nx
                by (intro inval) (cases ub; simp add: coarse_merge_def mutex_lock_eq coarse_ravl_find_node_def Let_def)
            qed
          qed
        qed
      qed
    qed
  qed
qed

end
