(* ===== verification/Concurrency.thy ===== *)
theory Concurrency
  imports Umf_Prelude
begin

text \<open>
  The atomic operations of \<^verbatim>\<open>src/utils/utils_concurrency.h\<close>, each as a function of the
  contents of the word it acts on. An operation that writes returns the new contents as its
  last component; the interleaving of several threads is left to the theories that use
  them, where one application of such a function is one indivisible step.
\<close>

definition utils_atomic_load_acquire_u64 :: "u64 \<Rightarrow> u64" where
  "utils_atomic_load_acquire_u64 v = v"

definition utils_atomic_increment_u64 :: "u64 \<Rightarrow> u64 \<times> u64" where
  "utils_atomic_increment_u64 v = (v + 1, v + 1)"

definition utils_atomic_decrement_u64 :: "u64 \<Rightarrow> u64 \<times> u64" where
  "utils_atomic_decrement_u64 v = (v - 1, v - 1)"

definition utils_fetch_and_add_u64 :: "u64 \<Rightarrow> u64 \<Rightarrow> u64 \<times> u64" where
  "utils_fetch_and_add_u64 v n = (v, v + n)"

definition utils_fetch_and_sub_u64 :: "u64 \<Rightarrow> u64 \<Rightarrow> u64 \<times> u64" where
  "utils_fetch_and_sub_u64 v n = (v, v - n)"

text \<open>A strong compare-exchange: success flag, the updated \<open>expected\<close>, the new contents.\<close>

definition utils_compare_exchange_u64 :: "u64 \<Rightarrow> u64 \<Rightarrow> u64 \<Rightarrow> bool \<times> u64 \<times> u64" where
  "utils_compare_exchange_u64 v expected desired =
     (if v = expected then (True, expected, desired) else (False, v, v))"

definition utils_atomic_load_acquire_size_t :: "u64 \<Rightarrow> u64" where
  "utils_atomic_load_acquire_size_t v = utils_atomic_load_acquire_u64 v"

definition utils_fetch_and_add_size_t :: "u64 \<Rightarrow> u64 \<Rightarrow> u64 \<times> u64" where
  "utils_fetch_and_add_size_t v n = utils_fetch_and_add_u64 v n"

definition utils_fetch_and_sub_size_t :: "u64 \<Rightarrow> u64 \<Rightarrow> u64 \<times> u64" where
  "utils_fetch_and_sub_size_t v n = utils_fetch_and_sub_u64 v n"

definition utils_compare_exchange_size_t :: "u64 \<Rightarrow> u64 \<Rightarrow> u64 \<Rightarrow> bool \<times> u64 \<times> u64" where
  "utils_compare_exchange_size_t v expected desired = utils_compare_exchange_u64 v expected desired"

lemmas atomic_defs =
  utils_atomic_load_acquire_u64_def utils_atomic_increment_u64_def utils_atomic_decrement_u64_def
  utils_fetch_and_add_u64_def utils_fetch_and_sub_u64_def utils_compare_exchange_u64_def
  utils_atomic_load_acquire_size_t_def utils_fetch_and_add_size_t_def
  utils_fetch_and_sub_size_t_def utils_compare_exchange_size_t_def

end
