(* ===== verification/Provider_Stats.thy ===== *)
theory Provider_Stats
  imports Concurrency
begin

text \<open>
  The memory counters that every provider embeds
  (\<^verbatim>\<open>src/provider/provider_ctl_stats_type.h\<close>, \<^verbatim>\<open>provider_ctl_stats_impl.h\<close>): the current amount
  of allocated memory and its peak, updated by lock-free loops. The operations are given
  twice: as the code of one thread that runs alone, and as a step relation in which the
  atomic accesses of several threads interleave. The lemmas relate the two, show that every
  interleaving ends, and that the peak is then exact.
\<close>

section \<open>The counters and their operations\<close>

record ctl_stats_t =
  allocated_memory :: u64
  peak_memory :: u64

definition read_peak_memory :: "ctl_stats_t \<Rightarrow> umf_result \<times> u64" where
  "read_peak_memory st = (UMF_RESULT_SUCCESS, utils_atomic_load_acquire_size_t (peak_memory st))"

definition read_allocated_memory :: "ctl_stats_t \<Rightarrow> umf_result \<times> u64" where
  "read_allocated_memory st = (UMF_RESULT_SUCCESS, utils_atomic_load_acquire_size_t (allocated_memory st))"

partial_function (option) reset_loop :: "u64 \<Rightarrow> ctl_stats_t \<Rightarrow> ctl_stats_t option" where
  "reset_loop current_peak st =
     (let allocated = utils_atomic_load_acquire_size_t (allocated_memory st);
          r = utils_compare_exchange_size_t (peak_memory st) current_peak allocated;
          st' = st\<lparr>peak_memory := snd (snd r)\<rparr>
      in if fst r then Some st' else reset_loop (fst (snd r)) st')"

definition stats_reset :: "ctl_stats_t \<Rightarrow> (umf_result \<times> ctl_stats_t) option" where
  "stats_reset st = do {
     st' \<leftarrow> reset_loop (utils_atomic_load_acquire_size_t (peak_memory st)) st;
     Some (UMF_RESULT_SUCCESS, st')
   }"

partial_function (option) stats_alloc_loop :: "u64 \<Rightarrow> u64 \<Rightarrow> ctl_stats_t \<Rightarrow> ctl_stats_t option" where
  "stats_alloc_loop allocated peak st =
     (if allocated > peak then
        (let r = utils_compare_exchange_size_t (peak_memory st) peak allocated;
             st' = st\<lparr>peak_memory := snd (snd r)\<rparr>
         in if fst r then Some st' else stats_alloc_loop allocated (fst (snd r)) st')
      else Some st)"

definition provider_ctl_stats_alloc :: "ctl_stats_t \<Rightarrow> u64 \<Rightarrow> ctl_stats_t option" where
  "provider_ctl_stats_alloc st sz =
     (let (old, new) = utils_fetch_and_add_size_t (allocated_memory st) sz;
          st1 = st\<lparr>allocated_memory := new\<rparr>
      in stats_alloc_loop (old + sz) (utils_atomic_load_acquire_size_t (peak_memory st1)) st1)"

definition provider_ctl_stats_free :: "ctl_stats_t \<Rightarrow> u64 \<Rightarrow> ctl_stats_t" where
  "provider_ctl_stats_free st sz =
     st\<lparr>allocated_memory := snd (utils_fetch_and_sub_size_t (allocated_memory st) sz)\<rparr>"

lemma stats_reset_eq: "stats_reset st = Some (UMF_RESULT_SUCCESS, st\<lparr>peak_memory := allocated_memory st\<rparr>)"
  by (simp add: stats_reset_def reset_loop.simps atomic_defs Let_def)

lemma stats_alloc_eq:
  "provider_ctl_stats_alloc st sz =
     Some \<lparr>allocated_memory = allocated_memory st + sz,
           peak_memory = max (peak_memory st) (allocated_memory st + sz)\<rparr>"
  by (cases st) (auto simp: provider_ctl_stats_alloc_def stats_alloc_loop.simps atomic_defs Let_def max_def)

lemma stats_free_eq: "provider_ctl_stats_free st sz = st\<lparr>allocated_memory := allocated_memory st - sz\<rparr>"
  by (simp add: provider_ctl_stats_free_def atomic_defs)

section \<open>Interleaved threads\<close>

text \<open>
  The control points of a thread, between its atomic accesses. The arguments are the
  values of its local variables.
\<close>

datatype stats_pc =
    Alloc_Start u64
  | Alloc_Load u64
  | Alloc_Cas u64 u64
  | Free_Start u64
  | Reset_Start
  | Reset_Load u64
  | Reset_Cas u64 u64
  | Finished

fun stats_next :: "ctl_stats_t \<Rightarrow> stats_pc \<Rightarrow> (ctl_stats_t \<times> stats_pc) option" where
  "stats_next st (Alloc_Start sz) =
     (let (old, new) = utils_fetch_and_add_size_t (allocated_memory st) sz
      in Some (st\<lparr>allocated_memory := new\<rparr>, Alloc_Load (old + sz)))"
| "stats_next st (Alloc_Load allocated) =
     Some (st, Alloc_Cas allocated (utils_atomic_load_acquire_size_t (peak_memory st)))"
| "stats_next st (Alloc_Cas allocated peak) =
     (if allocated > peak then
        (let (done', peak', new) = utils_compare_exchange_size_t (peak_memory st) peak allocated
         in Some (st\<lparr>peak_memory := new\<rparr>, if done' then Finished else Alloc_Cas allocated peak'))
      else Some (st, Finished))"
| "stats_next st (Free_Start sz) =
     Some (st\<lparr>allocated_memory := snd (utils_fetch_and_sub_size_t (allocated_memory st) sz)\<rparr>, Finished)"
| "stats_next st Reset_Start = Some (st, Reset_Load (utils_atomic_load_acquire_size_t (peak_memory st)))"
| "stats_next st (Reset_Load current_peak) =
     Some (st, Reset_Cas current_peak (utils_atomic_load_acquire_size_t (allocated_memory st)))"
| "stats_next st (Reset_Cas current_peak allocated) =
     (let (done', current_peak', new) = utils_compare_exchange_size_t (peak_memory st) current_peak allocated
      in Some (st\<lparr>peak_memory := new\<rparr>, if done' then Finished else Reset_Load current_peak'))"
| "stats_next st Finished = None"

type_synonym stats_state = "ctl_stats_t \<times> stats_pc list"

text \<open>
  A step of any one thread. The label is the value that an allocation gives to
  \<open>allocated_memory\<close>, when the step is the addition of an allocation.
\<close>

fun raised :: "ctl_stats_t \<Rightarrow> stats_pc \<Rightarrow> u64 list" where
  "raised st (Alloc_Start sz) = [allocated_memory st + sz]"
| "raised st _ = []"

inductive stats_step :: "stats_state \<Rightarrow> u64 list \<Rightarrow> stats_state \<Rightarrow> bool" where
  step: "i < length ts \<Longrightarrow> stats_next st (ts ! i) = Some (st', pc) \<Longrightarrow>
    stats_step (st, ts) (raised st (ts ! i)) (st', ts[i := pc])"

inductive_cases stats_stepE: "stats_step (st, ts) l s'"

inductive stats_trace :: "stats_state \<Rightarrow> u64 list \<Rightarrow> stats_state \<Rightarrow> bool" where
  nil: "stats_trace s [] s"
| snoc: "stats_trace s h s' \<Longrightarrow> stats_step s' l s'' \<Longrightarrow> stats_trace s (h @ l) s''"

text \<open>The run in which the threads move in a given order.\<close>

fun run_schedule :: "nat list \<Rightarrow> stats_state \<Rightarrow> (u64 list \<times> stats_state) option" where
  "run_schedule [] s = Some ([], s)"
| "run_schedule (i # is') (st, ts) =
     (if i < length ts then
        (case stats_next st (ts ! i) of
           None \<Rightarrow> None
         | Some (st', pc) \<Rightarrow>
             map_option (\<lambda>(h, s). (raised st (ts ! i) @ h, s)) (run_schedule is' (st', ts[i := pc])))
      else None)"

definition quiescent :: "stats_state \<Rightarrow> bool" where
  "quiescent s \<longleftrightarrow> list_all (\<lambda>pc. pc = Finished) (snd s)"

section \<open>Every interleaving ends\<close>

fun pc_rank :: "stats_pc \<Rightarrow> nat" where
  "pc_rank (Alloc_Start _) = 3"
| "pc_rank (Alloc_Load _) = 2"
| "pc_rank (Alloc_Cas _ _) = 1"
| "pc_rank (Free_Start _) = 1"
| "pc_rank Reset_Start = 2"
| "pc_rank (Reset_Load _) = 1"
| "pc_rank (Reset_Cas _ _) = 1"
| "pc_rank Finished = 0"

fun stale :: "ctl_stats_t \<Rightarrow> stats_pc \<Rightarrow> nat" where
  "stale st (Alloc_Cas _ p) = (if p = peak_memory st then 0 else 1)"
| "stale st (Reset_Load p) = (if p = peak_memory st then 0 else 1)"
| "stale st (Reset_Cas p _) = (if p = peak_memory st then 0 else 1)"
| "stale st _ = 0"

fun pc_fine :: "stats_pc \<Rightarrow> nat" where
  "pc_fine (Reset_Load _) = 1"
| "pc_fine _ = 0"

definition stats_measure :: "(stats_state \<times> stats_state) set" where
  "stats_measure = measures
     [\<lambda>(st, ts). sum_list (map pc_rank ts), \<lambda>(st, ts). sum_list (map (stale st) ts),
      \<lambda>(st, ts). sum_list (map pc_fine ts)]"

lemma sum_list_update_nat:
  "i < length xs \<Longrightarrow> sum_list (map f (xs[i := v])) + f (xs ! i) = sum_list (map f xs) + (f v :: nat)"
  by (induction xs arbitrary: i) (auto simp: nth_Cons split: nat.splits)

text \<open>
  A step either moves its thread forward, or it is a failed compare-exchange, which leaves
  the shared state as it is and refreshes the local copy, or it is the load in the loop of
  \<open>reset\<close>.
\<close>

lemma stats_next_progress:
  assumes "stats_next st pc = Some (st', pc')"
  shows "pc_rank pc' < pc_rank pc \<or>
    st' = st \<and> pc_rank pc' = pc_rank pc \<and>
      (stale st pc' < stale st pc \<or> stale st pc' = stale st pc \<and> pc_fine pc' < pc_fine pc)"
  using assms by (cases pc) (auto simp: atomic_defs Let_def split: if_splits)

lemma stats_step_measure: "stats_step s l s' \<Longrightarrow> (s', s) \<in> stats_measure"
proof (induction rule: stats_step.induct)
  case (step i ts st st' pc)
  note upd = sum_list_update_nat [OF step(1), of _ pc]
  from stats_next_progress [OF step(2)] show ?case
    using upd [of pc_rank] upd [of "stale st"] upd [of pc_fine] by (auto simp: stats_measure_def)
qed

lemma stats_step_iff: "(\<exists>l s'. stats_step s l s') \<longleftrightarrow> \<not> quiescent s"
proof
  assume "\<exists>l s'. stats_step s l s'"
  then show "\<not> quiescent s" by (auto simp: quiescent_def list_all_length elim!: stats_step.cases)
next
  assume "\<not> quiescent s"
  then obtain i where i: "i < length (snd s)" "snd s ! i \<noteq> Finished" by (auto simp: quiescent_def list_all_length)
  have "stats_next (fst s) (snd s ! i) \<noteq> None"
    using i(2) by (cases "snd s ! i") (simp_all add: atomic_defs Let_def)
  then obtain st' pc where "stats_next (fst s) (snd s ! i) = Some (st', pc)" by auto
  with i show "\<exists>l s'. stats_step s l s'" by (metis prod.collapse stats_step.step)
qed

text \<open>
  C13. Lock freedom of the counters: whatever the interleaving of allocations, frees and
  resets, no infinite run exists, and a state in which some operation is unfinished can
  always make a step; so every run reaches a state in which all operations have finished.
\<close>

theorem stats_always_finish:
  "wf {(s', s). \<exists>l. stats_step s l s'} \<and> (\<forall>s. (\<exists>l s'. stats_step s l s') \<longleftrightarrow> \<not> quiescent s)"
proof -
  have "wf stats_measure" by (simp add: stats_measure_def)
  then have "wf {(s', s). \<exists>l. stats_step s l s'}" by (rule wf_subset) (auto dest: stats_step_measure)
  then show ?thesis using stats_step_iff by blast
qed

section \<open>The final values of the counters\<close>

text \<open>
  While no reset takes part, the largest value reached so far is the recorded peak or is
  still carried by an allocation that has not finished.
\<close>

fun carried :: "stats_pc \<Rightarrow> u64 set" where
  "carried (Alloc_Load a) = {a}"
| "carried (Alloc_Cas a _) = {a}"
| "carried _ = {}"

fun pc_valid :: "u64 \<Rightarrow> stats_pc \<Rightarrow> bool" where
  "pc_valid t (Alloc_Cas _ p) = (p \<le> t)"
| "pc_valid t Reset_Start = False"
| "pc_valid t (Reset_Load _) = False"
| "pc_valid t (Reset_Cas _ _) = False"
| "pc_valid t _ = True"

definition high_water :: "u64 \<Rightarrow> stats_state \<Rightarrow> bool" where
  "high_water m s \<longleftrightarrow>
     (\<forall>pc\<in>set (snd s). pc_valid (peak_memory (fst s)) pc \<and> (\<forall>a\<in>carried pc. a \<le> m)) \<and>
     peak_memory (fst s) \<le> m \<and>
     (m = peak_memory (fst s) \<or> (\<exists>i < length (snd s). m \<in> carried (snd s ! i)))"

lemma stats_next_high_water:
  assumes "stats_next st pc = Some (st', pc')" "pc_valid (peak_memory st) pc"
    and "\<forall>a\<in>carried pc. a \<le> m" "peak_memory st \<le> m" and m': "m' = fold max (raised st pc) m"
  shows "peak_memory st \<le> peak_memory st'" "pc_valid (peak_memory st') pc'"
    "\<forall>a\<in>carried pc'. a \<le> m'" "peak_memory st' \<le> m'" "m \<le> m'"
    "m = peak_memory st \<or> m \<in> carried pc \<Longrightarrow> m' = peak_memory st' \<or> m' \<in> carried pc'"
    "m' \<noteq> m \<Longrightarrow> m' \<in> carried pc'"
  using assms by (cases pc; auto simp: atomic_defs Let_def max_def split: if_splits)+

lemma pc_valid_mono: "pc_valid t pc \<Longrightarrow> t \<le> t' \<Longrightarrow> pc_valid t' pc"
  by (cases pc) auto

lemma stats_step_high_water:
  assumes "stats_step s l s'" "high_water m s"
  shows "high_water (fold max l m) s'"
  using assms
proof (induction rule: stats_step.induct)
  case (step i ts st st' pc)
  let ?m = "fold max (raised st (ts ! i)) m"
  have hw: "\<forall>pc\<in>set ts. pc_valid (peak_memory st) pc \<and> (\<forall>a\<in>carried pc. a \<le> m)" "peak_memory st \<le> m"
      "m = peak_memory st \<or> (\<exists>j < length ts. m \<in> carried (ts ! j))"
    using step.prems by (auto simp: high_water_def)
  have pre: "pc_valid (peak_memory st) (ts ! i)" "\<forall>a\<in>carried (ts ! i). a \<le> m"
    using hw(1) step(1) by auto
  note N = stats_next_high_water [OF step(2) pre hw(2) refl]
  have old: "pc_valid (peak_memory st') q" "\<forall>a\<in>carried q. a \<le> ?m" if q: "q \<in> set ts" for q
    using hw(1) q N(1,5) pc_valid_mono order_trans by blast+
  have all: "\<forall>q\<in>set (ts[i := pc]). pc_valid (peak_memory st') q \<and> (\<forall>a\<in>carried q. a \<le> ?m)"
    using set_update_subset_insert [of ts i pc] old N(2,3) by blast
  have "?m = peak_memory st' \<or> (\<exists>j < length (ts[i := pc]). ?m \<in> carried (ts[i := pc] ! j))"
  proof (cases "m = peak_memory st \<or> m \<in> carried (ts ! i) \<or> ?m \<noteq> m")
    case True
    then have "?m = peak_memory st' \<or> ?m \<in> carried pc" using N(6,7) by blast
    then show ?thesis using step(1) by (metis length_list_update nth_list_update_eq)
  next
    case False
    then obtain j where j: "j < length ts" "m \<in> carried (ts ! j)" "j \<noteq> i" using hw(3) by blast
    then have "ts[i := pc] ! j = ts ! j" by simp
    with j False show ?thesis by (metis length_list_update)
  qed
  then show ?case using all N(4) by (simp add: high_water_def)
qed

lemma stats_trace_high_water:
  "stats_trace s h s' \<Longrightarrow> high_water m s \<Longrightarrow> high_water (fold max h m) s'"
  by (induction rule: stats_trace.induct) (auto dest: stats_step_high_water)

text \<open>The contribution that a thread still has to make to \<open>allocated_memory\<close>.\<close>

fun owed :: "stats_pc \<Rightarrow> u64" where
  "owed (Alloc_Start n) = n"
| "owed (Free_Start n) = - n"
| "owed _ = 0"

lemma sum_list_update_word:
  "i < length xs \<Longrightarrow> sum_list (map f (xs[i := v])) = sum_list (map f xs) - f (xs ! i) + (f v :: u64)"
  by (induction xs arbitrary: i) (auto simp: nth_Cons split: nat.splits)

lemma stats_step_owed:
  "stats_step s l s' \<Longrightarrow>
   allocated_memory (fst s') + sum_list (map owed (snd s')) = allocated_memory (fst s) + sum_list (map owed (snd s))"
proof (induction rule: stats_step.induct)
  case (step i ts st st' pc)
  then have "allocated_memory st' + owed pc = allocated_memory st + owed (ts ! i)"
    by (cases "ts ! i") (auto simp: atomic_defs Let_def split: if_splits)
  then show ?case using step(1) by (simp add: sum_list_update_word algebra_simps)
qed

lemma stats_trace_owed:
  "stats_trace s h s' \<Longrightarrow>
   allocated_memory (fst s') + sum_list (map owed (snd s')) = allocated_memory (fst s) + sum_list (map owed (snd s))"
  by (induction rule: stats_trace.induct) (auto dest: stats_step_owed)

lemma quiescent_sums:
  "quiescent s \<Longrightarrow> sum_list (map owed (snd s)) = 0"
  "quiescent s \<Longrightarrow> i < length (snd s) \<Longrightarrow> carried (snd s ! i) = {}"
proof -
  show "sum_list (map owed (snd s)) = 0" if "quiescent s"
  proof -
    have "map owed (snd s) = map (\<lambda>_. 0) (snd s)" using that by (auto simp: quiescent_def list_all_iff)
    then show ?thesis by (simp only: sum_list_0)
  qed
  show "carried (snd s ! i) = {}" if "quiescent s" "i < length (snd s)"
    using that by (simp add: quiescent_def list_all_length)
qed

fun starting :: "stats_pc \<Rightarrow> bool" where
  "starting (Alloc_Start _) = True"
| "starting (Free_Start _) = True"
| "starting _ = False"

lemma starting_high_water:
  assumes "\<forall>pc\<in>set ts. starting pc"
  shows "high_water (peak_memory st) (st, ts)"
proof -
  have "pc_valid t pc \<and> carried pc = {}" if "starting pc" for t pc using that by (cases pc) auto
  with assms show ?thesis by (auto simp: high_water_def)
qed

text \<open>
  C4. Any number of allocations and frees run concurrently. When all have finished,
  \<open>allocated_memory\<close> has changed by exactly the sum of the allocations minus the sum of the
  frees, and \<open>peak_memory\<close> is the largest of its old value and the values that the
  allocations gave to \<open>allocated_memory\<close>, in whatever order the accesses interleaved.
\<close>

theorem stats_concurrent_exact:
  assumes "\<forall>pc\<in>set ts. starting pc"
    and "stats_trace (st, ts) h s'" and "quiescent s'"
  shows "allocated_memory (fst s') = allocated_memory st + sum_list (map owed ts) \<and>
    peak_memory (fst s') = fold max h (peak_memory st)"
proof
  show "allocated_memory (fst s') = allocated_memory st + sum_list (map owed ts)"
    using stats_trace_owed [OF assms(2)] quiescent_sums(1) [OF assms(3)] by simp
  have "high_water (fold max h (peak_memory st)) s'"
    using stats_trace_high_water [OF assms(2) starting_high_water [OF assms(1)]] .
  then show "peak_memory (fst s') = fold max h (peak_memory st)"
    using quiescent_sums(2) [OF assms(3)] by (auto simp: high_water_def)
qed

lemma stats_trace_Cons:
  assumes "stats_step s l s'" "stats_trace s' h s''"
  shows "stats_trace s (l @ h) s''"
  using assms(2,1)
proof (induction rule: stats_trace.induct)
  case (nil t)
  then show ?case using stats_trace.snoc [OF stats_trace.nil, of s l t] by simp
next
  case (snoc t h t' l' t'')
  then show ?case using stats_trace.snoc by (metis append_assoc)
qed

lemma run_schedule_trace: "run_schedule order s = Some (h, s') \<Longrightarrow> stats_trace s h s'"
proof (induction order s arbitrary: h rule: run_schedule.induct)
  case (1 s)
  then show ?case by (simp add: stats_trace.nil)
next
  case (2 i is' st ts)
  then obtain st' pc h' where i: "i < length ts" "stats_next st (ts ! i) = Some (st', pc)"
    and r: "run_schedule is' (st', ts[i := pc]) = Some (h', s')" and h: "h = raised st (ts ! i) @ h'"
    by (auto split: if_splits option.splits)
  show ?case unfolding h
    using stats_trace_Cons [OF stats_step.step [OF i] 2(1) [OF i(1,2) refl r]] .
qed

theorem stats_concurrent_exact_witness:
  "peak_memory (fst (snd (the (run_schedule [0, 1, 2, 1, 1, 0, 0]
     (\<lparr>allocated_memory = 10, peak_memory = 12\<rparr>, [Alloc_Start 5, Alloc_Start 3, Free_Start 10]))))) = 18"
proof -
  let ?st = "\<lparr>allocated_memory = 10, peak_memory = 12\<rparr>" and ?ts = "[Alloc_Start 5, Alloc_Start 3, Free_Start 10]"
  have r: "run_schedule [0, 1, 2, 1, 1, 0, 0] (?st, ?ts) =
      Some ([15, 18], \<lparr>allocated_memory = 8, peak_memory = 18\<rparr>, [Finished, Finished, Finished])"
    by code_simp
  have "peak_memory (fst (\<lparr>allocated_memory = 8, peak_memory = 18\<rparr>, [Finished, Finished, Finished])) =
      fold max [15, 18] (peak_memory ?st)"
    using stats_concurrent_exact [of ?ts ?st "[15, 18]"
        "(\<lparr>allocated_memory = 8, peak_memory = 18\<rparr>, [Finished, Finished, Finished])"]
      run_schedule_trace [OF r] by (simp add: quiescent_def)
  then show ?thesis using r by (simp add: max_def)
qed


section \<open>One thread alone\<close>

lemma alone_step:
  "stats_step (st, [pc]) l s' \<longleftrightarrow> l = raised st pc \<and> (\<exists>st' pc'. stats_next st pc = Some (st', pc') \<and> s' = (st', [pc']))"
  using stats_step.step [of 0 "[pc]" st] by (auto elim!: stats_step.cases)

lemma alloc_alone_reaches:
  fixes st :: ctl_stats_t and n :: u64
  defines "a \<equiv> allocated_memory st + n"
  assumes "stats_trace (st, [Alloc_Start n]) h s'"
  shows "(h, s') \<in> {([], st, [Alloc_Start n]), ([a], st\<lparr>allocated_memory := a\<rparr>, [Alloc_Load a]),
    ([a], st\<lparr>allocated_memory := a\<rparr>, [Alloc_Cas a (peak_memory st)]),
    ([a], \<lparr>allocated_memory = a, peak_memory = max (peak_memory st) a\<rparr>, [Finished])}"
  using assms(2)
proof (induction "(st, [Alloc_Start n])" h s' rule: stats_trace.induct)
  case nil
  then show ?case by simp
next
  case (snoc h s' l s'')
  then show ?case
    by (cases st) (auto simp: alone_step a_def atomic_defs Let_def max_def split: if_splits)
qed


end
