(* ===== verification/Utils_Os.thy ===== *)
theory Utils_Os
  imports Utils
begin

text \<open>
  The string and flag helpers of \<^verbatim>\<open>src/utils/utils_common.c\<close> and the thin wrappers of
  \<^verbatim>\<open>src/utils/utils_posix_common.c\<close> around system calls. A C string is the list of the
  characters before its terminating null byte, and a pointer into it is an index. System
  calls are parameters; the numeric constants are those of the Linux headers.
\<close>

section \<open>Strings\<close>

text \<open>The result of \<^verbatim>\<open>strncpy (dst, src, n - 1); dst[n - 1] = 0\<close>, as in the setters of names.\<close>

definition strncpy_terminated :: "nat \<Rightarrow> string \<Rightarrow> string" where
  "strncpy_terminated n src = take (n - 1) src"

fun strstr :: "string \<Rightarrow> string \<Rightarrow> nat option" where
  "strstr s sub =
     (if take (length sub) s = sub then Some 0
      else case s of [] \<Rightarrow> None | _ # s' \<Rightarrow> map_option Suc (strstr s' sub))"

declare strstr.simps [simp del]

text \<open>The start of the option in \<open>var\<close>, and the start of its argument when one is asked for.\<close>

definition utils_parse_var :: "string \<Rightarrow> string \<Rightarrow> bool \<Rightarrow> (nat \<times> nat option) option" where
  "utils_parse_var var opt extraArg =
     (case strstr var opt of
        None \<Rightarrow> None
      | Some found \<Rightarrow>
          if found \<noteq> 0 \<and> var ! (found - 1) \<noteq> CHR '';'' then None
          else
           (let endFound = found + length opt
            in if \<not> extraArg then
                 (if endFound \<noteq> length var \<and> var ! endFound \<noteq> CHR '';'' then None else Some (found, None))
               else if endFound = length var \<or> var ! endFound \<noteq> CHR '','' then None
               else Some (found, Some (endFound + 1))))"

text \<open>With \<open>path_max\<close> 0 the code writes in front of the array.\<close>

definition utils_copy_path :: "string \<Rightarrow> u64 \<Rightarrow> (int \<times> string option) option" where
  "utils_copy_path in_path path_max =
     (let max_len = path_max - 1
      in if unat max_len < length in_path then Some (- 1, None)
         else if path_max = 0 then None
         else Some (0, Some (take (unat max_len) in_path)))"

lemma strstr_Some:
  "strstr s sub = Some i \<Longrightarrow> i + length sub \<le> length s \<and> take (length sub) (drop i s) = sub"
proof (induction s sub arbitrary: i rule: strstr.induct)
  case (1 s sub)
  show ?case
  proof (cases "take (length sub) s = sub")
    case True
    then have "length sub \<le> length s" by (metis length_take min.absorb_iff2 min.commute)
    then show ?thesis using 1(2) True by (simp add: strstr.simps [of s sub])
  next
    case False
    then obtain x s' j where s: "s = x # s'" "strstr s' sub = Some j" "i = Suc j"
      using 1(2) by (auto simp: strstr.simps [of s sub] split: list.splits)
    from 1(1) [OF False s(1,2)] show ?thesis using s by simp
  qed
qed

text \<open>
  C32. \<open>utils_parse_var\<close> reports an option only where the variable has it as an item of the
  semicolon-separated list: at the start or after a semicolon, and followed by the end or
  a semicolon, or by a comma when an argument is asked for, whose start is then returned.
\<close>

theorem utils_parse_var_sound:
  assumes "utils_parse_var var opt arg = Some (i, a)"
  shows "\<exists>pre post. var = pre @ opt @ post \<and> length pre = i \<and> (pre = [] \<or> last pre = CHR '';'') \<and>
    (if arg then post \<noteq> [] \<and> hd post = CHR '','' \<and> a = Some (i + length opt + 1)
     else (post = [] \<or> hd post = CHR '';'') \<and> a = None)"
proof -
  have s: "strstr var opt = Some i" using assms by (auto simp: utils_parse_var_def Let_def split: option.splits if_splits)
  note f = strstr_Some [OF s]
  let ?pre = "take i var" and ?post = "drop (i + length opt) var"
  have v: "var = ?pre @ opt @ ?post"
    by (metis add.commute append_take_drop_id drop_drop f)
  have l: "length ?pre = i" using f by simp
  have p: "?pre = [] \<or> last ?pre = CHR '';''"
    using assms s f by (cases i) (auto simp: utils_parse_var_def Let_def take_Suc_conv_app_nth split: if_splits)
  have h: "?post = [] \<longleftrightarrow> i + length opt = length var" "?post \<noteq> [] \<Longrightarrow> hd ?post = var ! (i + length opt)"
    using f by (auto simp: hd_drop_conv_nth)
  have "if arg then ?post \<noteq> [] \<and> hd ?post = CHR '','' \<and> a = Some (i + length opt + 1)
     else (?post = [] \<or> hd ?post = CHR '';'') \<and> a = None"
    using assms s h by (cases "?post = []") (auto simp: utils_parse_var_def Let_def split: if_splits)
  with v l p show ?thesis by blast
qed

theorem utils_parse_var_sound_witness:
  "\<exists>pre post. ''a;b,c'' = pre @ ''b'' @ post \<and> length pre = 2 \<and> (pre = [] \<or> last pre = CHR '';'') \<and>
    post \<noteq> [] \<and> hd post = CHR '',''"
proof -
  have "utils_parse_var ''a;b,c'' ''b'' True = Some (2, Some 4)" by code_simp
  from utils_parse_var_sound [OF this] show ?thesis by auto
qed


section \<open>Flags\<close>

partial_function (option) translate_flags_loop ::
  "(u32 \<Rightarrow> umf_result \<times> u32) \<Rightarrow> u32 \<Rightarrow> u32 \<Rightarrow> u32 \<Rightarrow> u32 \<Rightarrow> (umf_result \<times> u32 option) option" where
  "translate_flags_loop translate_flag m n in_flags out_f =
     (if n < m then
        (if in_flags AND n \<noteq> 0 then
           (let r = translate_flag n
            in if fst r \<noteq> UMF_RESULT_SUCCESS then Some (fst r, None)
               else translate_flags_loop translate_flag m (push_bit 1 n) (in_flags AND NOT n) (out_f OR snd r))
         else translate_flags_loop translate_flag m (push_bit 1 n) in_flags out_f)
      else if in_flags \<noteq> 0 then Some (UMF_RESULT_ERROR_INVALID_ARGUMENT, None)
      else Some (UMF_RESULT_SUCCESS, Some out_f))"

definition utils_translate_flags ::
  "u32 \<Rightarrow> u32 \<Rightarrow> (u32 \<Rightarrow> umf_result \<times> u32) \<Rightarrow> (umf_result \<times> u32 option) option" where
  "utils_translate_flags in_flags m translate_flag = translate_flags_loop translate_flag m 1 in_flags 0"

definition UMF_PROTECTION_NONE :: u32 where "UMF_PROTECTION_NONE = 1"
definition UMF_PROTECTION_READ :: u32 where "UMF_PROTECTION_READ = 2"
definition UMF_PROTECTION_WRITE :: u32 where "UMF_PROTECTION_WRITE = 4"
definition UMF_PROTECTION_EXEC :: u32 where "UMF_PROTECTION_EXEC = 8"
definition UMF_PROTECTION_MAX :: u32 where "UMF_PROTECTION_MAX = 9"

lemmas protection_defs =
  UMF_PROTECTION_NONE_def UMF_PROTECTION_READ_def UMF_PROTECTION_WRITE_def UMF_PROTECTION_EXEC_def UMF_PROTECTION_MAX_def

text \<open>\<^verbatim>\<open>PROT_NONE\<close>, \<^verbatim>\<open>PROT_READ\<close>, \<^verbatim>\<open>PROT_WRITE\<close> and \<^verbatim>\<open>PROT_EXEC\<close> are 0, 1, 2 and 4.\<close>

definition utils_translate_mem_protection_one_flag :: "u32 \<Rightarrow> umf_result \<times> u32" where
  "utils_translate_mem_protection_one_flag in_protection =
     (if in_protection = UMF_PROTECTION_NONE then (UMF_RESULT_SUCCESS, 0)
      else if in_protection = UMF_PROTECTION_READ then (UMF_RESULT_SUCCESS, 1)
      else if in_protection = UMF_PROTECTION_WRITE then (UMF_RESULT_SUCCESS, 2)
      else if in_protection = UMF_PROTECTION_EXEC then (UMF_RESULT_SUCCESS, 4)
      else (UMF_RESULT_ERROR_INVALID_ARGUMENT, 0))"

definition utils_translate_mem_protection_flags :: "u32 \<Rightarrow> (umf_result \<times> u32 option) option" where
  "utils_translate_mem_protection_flags in_protection =
     utils_translate_flags in_protection UMF_PROTECTION_MAX utils_translate_mem_protection_one_flag"

lemma translate_flags_next:
  assumes "n < m" "t n = (UMF_RESULT_SUCCESS, v)"
  shows "translate_flags_loop t m n g h =
    translate_flags_loop t m (push_bit 1 n) (g AND NOT n) (h OR (if g AND n = 0 then 0 else v))"
proof (cases "g AND n = 0")
  case True
  then have "g AND NOT n = g" by (simp add: bit_eq_iff bit_simps) blast
  then show ?thesis using assms True by (subst translate_flags_loop.simps) simp
next
  case False
  then show ?thesis using assms by (subst translate_flags_loop.simps) (simp add: Let_def)
qed

lemma flag_bits:
  fixes f :: u32
  shows "f AND 2 = 0 \<longleftrightarrow> \<not> bit f 1" "f AND 4 = 0 \<longleftrightarrow> \<not> bit f 2" "f AND 8 = 0 \<longleftrightarrow> \<not> bit f 3"
  using and_exp_eq_0_iff_not_bit [of f 1] and_exp_eq_0_iff_not_bit [of f 2] and_exp_eq_0_iff_not_bit [of f 3] by simp_all

lemma protection_bits:
  assumes "f AND NOT 15 = (0 :: u32)"
  shows "(if bit f 1 then 1 else 0) OR (if bit f 2 then 2 else 0) OR (if bit f 3 then 4 else 0) = drop_bit 1 f"
proof -
  have "f = (f AND 15) OR (f AND NOT 15)" by (simp flip: bit.conj_disj_distrib)
  then have "f = f AND 15" using assms by simp
  then have "unat f \<le> 15" using word_and_le1 [of f 15] by (simp add: word_le_nat_alt)
  then have "unat f \<in> set [0..<16]" by auto
  then have "(of_nat (unat f) :: u32) \<in> set (map of_nat [0..<16])" by (simp only: set_map imageI)
  then have "f \<in> set (map of_nat [0..<16])" by simp
  moreover have "list_all (\<lambda>f :: u32.
      (if bit f 1 then 1 else 0) OR (if bit f 2 then 2 else 0) OR (if bit f 3 then 4 else 0) = drop_bit 1 f) (map of_nat [0..<16])"
    by code_simp
  ultimately show ?thesis by (simp only: list_all_iff)
qed

text \<open>
  C34. The translation of the protection flags ends, accepts exactly the combinations of the
  four known flags, and maps them bit by bit to the flags of the system.
\<close>

theorem protection_flags_translated:
  "utils_translate_mem_protection_flags f =
     (if f AND NOT 15 = 0 then Some (UMF_RESULT_SUCCESS, Some (drop_bit 1 f))
      else Some (UMF_RESULT_ERROR_INVALID_ARGUMENT, None))"
proof -
  let ?t = utils_translate_mem_protection_one_flag
  have "utils_translate_mem_protection_flags f = translate_flags_loop ?t 9 16 (f AND NOT 1 AND NOT 2 AND NOT 4 AND NOT 8)
     ((if bit f 1 then 1 else 0) OR (if bit f 2 then 2 else 0) OR (if bit f 3 then 4 else 0))"
    unfolding utils_translate_mem_protection_flags_def utils_translate_flags_def
    by (simp add: translate_flags_next utils_translate_mem_protection_one_flag_def protection_defs and.assoc flag_bits)
  also have "f AND NOT 1 AND NOT 2 AND NOT 4 AND NOT 8 = f AND NOT 15"
    by (simp add: and.assoc)
  finally show ?thesis using protection_bits [of f] by (subst (asm) translate_flags_loop.simps) simp
qed

section \<open>System calls\<close>

datatype umf_purge_advise_t = UMF_PURGE_LAZY | UMF_PURGE_FORCE

text \<open>\<^verbatim>\<open>MADV_FREE\<close> is 8 and \<^verbatim>\<open>MADV_DONTNEED\<close> is 4.\<close>

definition utils_translate_purge_advise :: "umf_purge_advise_t \<Rightarrow> int" where
  "utils_translate_purge_advise advise = (case advise of UMF_PURGE_LAZY \<Rightarrow> 8 | UMF_PURGE_FORCE \<Rightarrow> 4)"

text \<open>\<open>madvise\<close> returns its result and the value of \<^verbatim>\<open>errno\<close> after the call.\<close>

definition utils_purge ::
  "(addr \<Rightarrow> u64 \<Rightarrow> int \<Rightarrow> int \<times> int) \<Rightarrow> addr \<Rightarrow> u64 \<Rightarrow> umf_purge_advise_t \<Rightarrow> int \<times> int" where
  "utils_purge madvise p len advice = madvise p len (utils_translate_purge_advise advice)"

text \<open>
  \<^verbatim>\<open>EPERM\<close> 1, \<^verbatim>\<open>ESRCH\<close> 3, \<^verbatim>\<open>EBADF\<close> 9, \<^verbatim>\<open>ENOMEM\<close> 12, \<^verbatim>\<open>ENODEV\<close> 19, \<^verbatim>\<open>EINVAL\<close> 22,
  \<^verbatim>\<open>EMFILE\<close> 24, \<^verbatim>\<open>ENOSYS\<close> 38, \<^verbatim>\<open>ENOTSUP\<close> 95.
\<close>

definition utils_errno_to_umf_result :: "int \<Rightarrow> umf_result" where
  "utils_errno_to_umf_result err =
     (if err = 9 \<or> err = 22 \<or> err = 3 \<or> err = 1 then UMF_RESULT_ERROR_INVALID_ARGUMENT
      else if err = 24 \<or> err = 12 then UMF_RESULT_ERROR_OUT_OF_HOST_MEMORY
      else if err = 19 \<or> err = 38 \<or> err = 95 then UMF_RESULT_ERROR_NOT_SUPPORTED
      else UMF_RESULT_ERROR_UNKNOWN)"

text \<open>
  \<open>strerror_r\<close> gives its result pointer's being non-null and the characters that it stores
  in the buffer, if it stores any; \<open>buf\<close> is the string that the buffer holds before.
\<close>

definition utils_strerror :: "(int \<Rightarrow> nat \<Rightarrow> string option) \<Rightarrow> int \<Rightarrow> string \<Rightarrow> nat \<Rightarrow> string" where
  "utils_strerror strerror_r errnum buf buflen =
     (case strerror_r errnum buflen of None \<Rightarrow> buf | Some txt \<Rightarrow> txt)"

end
