(* ===== verification/Memory_Provider.thy ===== *)
theory Memory_Provider
  imports Heap_Contract
begin

text \<open>
  The memory provider interface of the library (\<^verbatim>\<open>src/memory_provider.c\<close>): the table of
  operations, its validation and default entries, creation and destruction, and the
  wrappers that check arguments, call the operation and remember the last provider that
  failed. A null function pointer is \<open>None\<close>; an operation that goes wrong (see
  \<open>Umf_Prelude\<close>) returns \<open>None\<close>. \<open>'a\<close> is the type of the parameters
  of a provider and \<open>'p\<close> the type of its private state.
\<close>

section \<open>The table of operations\<close>

type_synonym ipc_data = "8 word list"

datatype umf_ctl_query_type_t = CTL_QUERY_READ | CTL_QUERY_WRITE | CTL_QUERY_RUNNABLE | CTL_QUERY_SUBTREE

text \<open>A control query: the name below the provider, the argument and the kind of access.\<close>

record ctl_request =
  cq_name :: string
  cq_arg :: addr
  cq_size :: u64
  cq_type :: umf_ctl_query_type_t

record ('a, 'p) umf_memory_provider_ops_t =
  op_version :: u32
  op_initialize :: "('a \<Rightarrow> host \<Rightarrow> (umf_result \<times> 'p option \<times> host) option) option"
  op_finalize :: "('p \<Rightarrow> umf_result option) option"
  op_alloc :: "('p \<Rightarrow> u64 \<Rightarrow> u64 \<Rightarrow> (umf_result \<times> addr option \<times> 'p) option) option"
  op_free :: "('p \<Rightarrow> addr \<Rightarrow> u64 \<Rightarrow> (umf_result \<times> 'p) option) option"
  op_get_last_native_error :: "('p \<Rightarrow> (umf_result \<times> (string \<times> int) \<times> 'p) option) option"
  op_get_recommended_page_size :: "('p \<Rightarrow> u64 \<Rightarrow> (umf_result \<times> u64 \<times> 'p) option) option"
  op_get_min_page_size :: "('p \<Rightarrow> addr \<Rightarrow> (umf_result \<times> u64 \<times> 'p) option) option"
  op_get_name :: "('p \<Rightarrow> (umf_result \<times> string option \<times> 'p) option) option"
  op_ext_purge_lazy :: "('p \<Rightarrow> addr \<Rightarrow> u64 \<Rightarrow> (umf_result \<times> 'p) option) option"
  op_ext_purge_force :: "('p \<Rightarrow> addr \<Rightarrow> u64 \<Rightarrow> (umf_result \<times> 'p) option) option"
  op_ext_allocation_merge :: "('p \<Rightarrow> addr \<Rightarrow> addr \<Rightarrow> u64 \<Rightarrow> (umf_result \<times> 'p) option) option"
  op_ext_allocation_split :: "('p \<Rightarrow> addr \<Rightarrow> u64 \<Rightarrow> u64 \<Rightarrow> (umf_result \<times> 'p) option) option"
  op_ext_get_ipc_handle_size :: "('p \<Rightarrow> (umf_result \<times> u64 option \<times> 'p) option) option"
  op_ext_get_ipc_handle :: "('p \<Rightarrow> addr \<Rightarrow> u64 \<Rightarrow> (umf_result \<times> ipc_data option \<times> 'p) option) option"
  op_ext_put_ipc_handle :: "('p \<Rightarrow> ipc_data \<Rightarrow> (umf_result \<times> 'p) option) option"
  op_ext_open_ipc_handle :: "('p \<Rightarrow> ipc_data \<Rightarrow> (umf_result \<times> addr option \<times> 'p) option) option"
  op_ext_close_ipc_handle :: "('p \<Rightarrow> addr \<Rightarrow> u64 \<Rightarrow> (umf_result \<times> 'p) option) option"
  op_ext_ctl :: "('p \<Rightarrow> ctl_request \<Rightarrow> (umf_result \<times> 'p) option) option"

record ('a, 'p) umf_memory_provider_t =
  provider_priv :: 'p
  pr_ops :: "('a, 'p) umf_memory_provider_ops_t"

text \<open>
  What the library keeps: its provider objects, the handle of the last provider that failed
  in this thread, and the host allocator.
\<close>

record ('a, 'p) umf_lib =
  lib_providers :: "('a, 'p) umf_memory_provider_t heap"
  last_failed :: ref
  lib_host :: host
  ba_destroyed :: bool

section \<open>Default operations\<close>

definition umfDefaultPurgeLazy :: "'p \<Rightarrow> addr \<Rightarrow> u64 \<Rightarrow> (umf_result \<times> 'p) option" where
  "umfDefaultPurgeLazy pr p sz = Some (UMF_RESULT_ERROR_NOT_SUPPORTED, pr)"

definition umfDefaultPurgeForce :: "'p \<Rightarrow> addr \<Rightarrow> u64 \<Rightarrow> (umf_result \<times> 'p) option" where
  "umfDefaultPurgeForce pr p sz = Some (UMF_RESULT_ERROR_NOT_SUPPORTED, pr)"

definition umfDefaultAllocationSplit :: "'p \<Rightarrow> addr \<Rightarrow> u64 \<Rightarrow> u64 \<Rightarrow> (umf_result \<times> 'p) option" where
  "umfDefaultAllocationSplit pr p totalSize firstSize = Some (UMF_RESULT_ERROR_NOT_SUPPORTED, pr)"

definition umfDefaultAllocationMerge :: "'p \<Rightarrow> addr \<Rightarrow> addr \<Rightarrow> u64 \<Rightarrow> (umf_result \<times> 'p) option" where
  "umfDefaultAllocationMerge pr lowPtr highPtr totalSize = Some (UMF_RESULT_ERROR_NOT_SUPPORTED, pr)"

definition umfDefaultGetIPCHandleSize :: "'p \<Rightarrow> (umf_result \<times> u64 option \<times> 'p) option" where
  "umfDefaultGetIPCHandleSize pr = Some (UMF_RESULT_ERROR_NOT_SUPPORTED, None, pr)"

definition umfDefaultGetIPCHandle :: "'p \<Rightarrow> addr \<Rightarrow> u64 \<Rightarrow> (umf_result \<times> ipc_data option \<times> 'p) option" where
  "umfDefaultGetIPCHandle pr p sz = Some (UMF_RESULT_ERROR_NOT_SUPPORTED, None, pr)"

definition umfDefaultPutIPCHandle :: "'p \<Rightarrow> ipc_data \<Rightarrow> (umf_result \<times> 'p) option" where
  "umfDefaultPutIPCHandle pr providerIpcData = Some (UMF_RESULT_ERROR_NOT_SUPPORTED, pr)"

definition umfDefaultOpenIPCHandle :: "'p \<Rightarrow> ipc_data \<Rightarrow> (umf_result \<times> addr option \<times> 'p) option" where
  "umfDefaultOpenIPCHandle pr providerIpcData = Some (UMF_RESULT_ERROR_NOT_SUPPORTED, None, pr)"

definition umfDefaultCloseIPCHandle :: "'p \<Rightarrow> addr \<Rightarrow> u64 \<Rightarrow> (umf_result \<times> 'p) option" where
  "umfDefaultCloseIPCHandle pr p sz = Some (UMF_RESULT_ERROR_NOT_SUPPORTED, pr)"

definition umfDefaultCtlHandle :: "'p \<Rightarrow> ctl_request \<Rightarrow> (umf_result \<times> 'p) option" where
  "umfDefaultCtlHandle pr q = Some (UMF_RESULT_ERROR_NOT_SUPPORTED, pr)"

text \<open>An assignment \<^verbatim>\<open>if (!ops->f) ops->f = d;\<close>.\<close>

definition or_default :: "'f option \<Rightarrow> 'f \<Rightarrow> 'f option" where
  "or_default f d = (case f of None \<Rightarrow> Some d | Some g \<Rightarrow> Some g)"

definition assignOpsExtDefaults :: "('a, 'p) umf_memory_provider_ops_t \<Rightarrow> ('a, 'p) umf_memory_provider_ops_t" where
  "assignOpsExtDefaults ops = ops\<lparr>
     op_ext_purge_lazy := or_default (op_ext_purge_lazy ops) umfDefaultPurgeLazy,
     op_ext_purge_force := or_default (op_ext_purge_force ops) umfDefaultPurgeForce,
     op_ext_allocation_split := or_default (op_ext_allocation_split ops) umfDefaultAllocationSplit,
     op_ext_allocation_merge := or_default (op_ext_allocation_merge ops) umfDefaultAllocationMerge,
     op_ext_ctl := or_default (op_ext_ctl ops) umfDefaultCtlHandle\<rparr>"

definition assignOpsIpcDefaults :: "('a, 'p) umf_memory_provider_ops_t \<Rightarrow> ('a, 'p) umf_memory_provider_ops_t" where
  "assignOpsIpcDefaults ops = ops\<lparr>
     op_ext_get_ipc_handle_size := or_default (op_ext_get_ipc_handle_size ops) umfDefaultGetIPCHandleSize,
     op_ext_get_ipc_handle := or_default (op_ext_get_ipc_handle ops) umfDefaultGetIPCHandle,
     op_ext_put_ipc_handle := or_default (op_ext_put_ipc_handle ops) umfDefaultPutIPCHandle,
     op_ext_open_ipc_handle := or_default (op_ext_open_ipc_handle ops) umfDefaultOpenIPCHandle,
     op_ext_close_ipc_handle := or_default (op_ext_close_ipc_handle ops) umfDefaultCloseIPCHandle\<rparr>"

definition validateOps :: "('a, 'p) umf_memory_provider_ops_t \<Rightarrow> bool" where
  "validateOps ops \<longleftrightarrow>
     op_alloc ops \<noteq> None \<and> op_free ops \<noteq> None \<and> op_get_recommended_page_size ops \<noteq> None \<and>
     op_get_min_page_size ops \<noteq> None \<and> op_initialize ops \<noteq> None \<and> op_finalize ops \<noteq> None \<and>
     op_get_last_native_error ops \<noteq> None \<and> op_get_name ops \<noteq> None \<and>
     (op_ext_allocation_split ops = None) = (op_ext_allocation_merge ops = None) \<and>
     (let ipcAllSet =
            op_ext_get_ipc_handle_size ops \<noteq> None \<and> op_ext_get_ipc_handle ops \<noteq> None \<and>
            op_ext_put_ipc_handle ops \<noteq> None \<and> op_ext_open_ipc_handle ops \<noteq> None \<and>
            op_ext_close_ipc_handle ops \<noteq> None;
          ipcAllNull =
            op_ext_get_ipc_handle_size ops = None \<and> op_ext_get_ipc_handle ops = None \<and>
            op_ext_put_ipc_handle ops = None \<and> op_ext_open_ipc_handle ops = None \<and>
            op_ext_close_ipc_handle ops = None
      in ipcAllSet \<or> ipcAllNull)"

section \<open>Creation and destruction\<close>

text \<open>
  \<open>hProvider\<close> says whether the output pointer is non-null; the handle that is stored in
  it is returned.
\<close>

definition umfMemoryProviderCreate ::
  "('a, 'p) umf_memory_provider_ops_t option \<Rightarrow> 'a \<Rightarrow> bool \<Rightarrow> ('a, 'p) umf_lib \<Rightarrow>
     (umf_result \<times> ref \<times> ('a, 'p) umf_lib) option" where
  "umfMemoryProviderCreate ops params hProvider lib =
     (case ops of
        None \<Rightarrow> Some (UMF_RESULT_ERROR_INVALID_ARGUMENT, None, lib)
      | Some ops \<Rightarrow>
          if \<not> hProvider \<or> \<not> validateOps ops then Some (UMF_RESULT_ERROR_INVALID_ARGUMENT, None, lib)
          else
           (case ba_global_alloc (lib_host lib) of
              (None, s) \<Rightarrow> Some (UMF_RESULT_ERROR_OUT_OF_HOST_MEMORY, None, lib\<lparr>lib_host := s\<rparr>)
            | (Some h, s) \<Rightarrow> do {
                let full = assignOpsIpcDefaults (assignOpsExtDefaults ops);
                initialize \<leftarrow> op_initialize ops;
                (ret, priv, s1) \<leftarrow> initialize params s;
                if ret \<noteq> UMF_RESULT_SUCCESS then Some (ret, None, lib\<lparr>lib_host := s1\<rparr>)
                else do {
                  priv \<leftarrow> priv;
                  get_name \<leftarrow> op_get_name full;
                  (_, _, priv1) \<leftarrow> get_name priv;
                  Some (UMF_RESULT_SUCCESS, Some h,
                    lib\<lparr>lib_host := s1,
                        lib_providers := (lib_providers lib)(h \<mapsto> \<lparr>provider_priv = priv1, pr_ops = full\<rparr>)\<rparr>)
                }
              }))"

definition umfMemoryProviderDestroy :: "ref \<Rightarrow> ('a, 'p) umf_lib \<Rightarrow> (umf_result \<times> ('a, 'p) umf_lib) option" where
  "umfMemoryProviderDestroy hProvider lib =
     (if ba_destroyed lib then Some (UMF_RESULT_ERROR_UNKNOWN, lib)
      else
       (case hProvider of
          None \<Rightarrow> Some (UMF_RESULT_SUCCESS, lib)
        | Some h \<Rightarrow> do {
            pr \<leftarrow> lib_providers lib h;
            finalize \<leftarrow> op_finalize (pr_ops pr);
            ret \<leftarrow> finalize (provider_priv pr);
            Some (ret, lib\<lparr>lib_providers := (lib_providers lib)(h := None)\<rparr>)
          }))"

section \<open>Wrappers\<close>

definition checkErrorAndSetLastProvider :: "umf_result \<Rightarrow> ptr \<Rightarrow> ('a, 'p) umf_lib \<Rightarrow> ('a, 'p) umf_lib" where
  "checkErrorAndSetLastProvider result h lib =
     (if result \<noteq> UMF_RESULT_SUCCESS then lib\<lparr>last_failed := Some h\<rparr> else lib)"

definition set_priv :: "ptr \<Rightarrow> ('a, 'p) umf_memory_provider_t \<Rightarrow> 'p \<Rightarrow> ('a, 'p) umf_lib \<Rightarrow> ('a, 'p) umf_lib" where
  "set_priv h pr priv lib = lib\<lparr>lib_providers := (lib_providers lib)(h \<mapsto> pr\<lparr>provider_priv := priv\<rparr>)\<rparr>"

text \<open>Dereference of a handle and call of one of its operations, with or without an output.\<close>

definition call_out ::
  "('a, 'p) umf_lib \<Rightarrow> ptr \<Rightarrow> (('a, 'p) umf_memory_provider_ops_t \<Rightarrow> 'f option) \<Rightarrow>
     ('f \<Rightarrow> 'p \<Rightarrow> (umf_result \<times> 'r \<times> 'p) option) \<Rightarrow> (umf_result \<times> 'r \<times> ('a, 'p) umf_lib) option" where
  "call_out lib h field apply = do {
     pr \<leftarrow> lib_providers lib h;
     f \<leftarrow> field (pr_ops pr);
     (res, out, priv) \<leftarrow> apply f (provider_priv pr);
     Some (res, out, checkErrorAndSetLastProvider res h (set_priv h pr priv lib))
   }"

definition call_op ::
  "('a, 'p) umf_lib \<Rightarrow> ptr \<Rightarrow> (('a, 'p) umf_memory_provider_ops_t \<Rightarrow> 'f option) \<Rightarrow>
     ('f \<Rightarrow> 'p \<Rightarrow> (umf_result \<times> 'p) option) \<Rightarrow> (umf_result \<times> ('a, 'p) umf_lib) option" where
  "call_op lib h field apply = do {
     pr \<leftarrow> lib_providers lib h;
     f \<leftarrow> field (pr_ops pr);
     (res, priv) \<leftarrow> apply f (provider_priv pr);
     Some (res, checkErrorAndSetLastProvider res h (set_priv h pr priv lib))
   }"

definition umfMemoryProviderAlloc ::
  "ref \<Rightarrow> u64 \<Rightarrow> u64 \<Rightarrow> bool \<Rightarrow> ('a, 'p) umf_lib \<Rightarrow> (umf_result \<times> addr option \<times> ('a, 'p) umf_lib) option" where
  "umfMemoryProviderAlloc hProvider sz alignment p lib =
     (case hProvider of
        None \<Rightarrow> Some (UMF_RESULT_ERROR_INVALID_ARGUMENT, None, lib)
      | Some h \<Rightarrow>
          if \<not> p then Some (UMF_RESULT_ERROR_INVALID_ARGUMENT, None, lib)
          else call_out lib h op_alloc (\<lambda>f priv. f priv sz alignment))"

definition umfMemoryProviderFree ::
  "ref \<Rightarrow> addr \<Rightarrow> u64 \<Rightarrow> ('a, 'p) umf_lib \<Rightarrow> (umf_result \<times> ('a, 'p) umf_lib) option" where
  "umfMemoryProviderFree hProvider p sz lib =
     (case hProvider of
        None \<Rightarrow> Some (UMF_RESULT_ERROR_INVALID_ARGUMENT, lib)
      | Some h \<Rightarrow> call_op lib h op_free (\<lambda>f priv. f priv p sz))"

text \<open>This wrapper does not record the provider when it fails.\<close>

definition umfMemoryProviderGetLastNativeError ::
  "ref \<Rightarrow> bool \<Rightarrow> bool \<Rightarrow> ('a, 'p) umf_lib \<Rightarrow> (umf_result \<times> (string \<times> int) option \<times> ('a, 'p) umf_lib) option" where
  "umfMemoryProviderGetLastNativeError hProvider ppMessage pError lib =
     (case hProvider of
        None \<Rightarrow> Some (UMF_RESULT_ERROR_INVALID_ARGUMENT, None, lib)
      | Some h \<Rightarrow>
          if \<not> ppMessage \<or> \<not> pError then Some (UMF_RESULT_ERROR_INVALID_ARGUMENT, None, lib)
          else do {
            pr \<leftarrow> lib_providers lib h;
            f \<leftarrow> op_get_last_native_error (pr_ops pr);
            (res, out, priv) \<leftarrow> f (provider_priv pr);
            Some (res, Some out, set_priv h pr priv lib)
          })"

definition umfMemoryProviderGetPriv :: "ref \<Rightarrow> ('a, 'p) umf_lib \<Rightarrow> 'p option option" where
  "umfMemoryProviderGetPriv hProvider lib =
     (case hProvider of
        None \<Rightarrow> Some None
      | Some h \<Rightarrow> do { pr \<leftarrow> lib_providers lib h; Some (Some (provider_priv pr)) })"

definition umfMemoryProviderGetRecommendedPageSize ::
  "ref \<Rightarrow> u64 \<Rightarrow> bool \<Rightarrow> ('a, 'p) umf_lib \<Rightarrow> (umf_result \<times> u64 option \<times> ('a, 'p) umf_lib) option" where
  "umfMemoryProviderGetRecommendedPageSize hProvider sz pageSize lib =
     (case hProvider of
        None \<Rightarrow> Some (UMF_RESULT_ERROR_INVALID_ARGUMENT, None, lib)
      | Some h \<Rightarrow>
          if \<not> pageSize then Some (UMF_RESULT_ERROR_INVALID_ARGUMENT, None, lib)
          else do {
            (res, out, lib1) \<leftarrow> call_out lib h op_get_recommended_page_size (\<lambda>f priv. f priv sz);
            Some (res, Some out, lib1)
          })"

definition umfMemoryProviderGetMinPageSize ::
  "ref \<Rightarrow> addr \<Rightarrow> bool \<Rightarrow> ('a, 'p) umf_lib \<Rightarrow> (umf_result \<times> u64 option \<times> ('a, 'p) umf_lib) option" where
  "umfMemoryProviderGetMinPageSize hProvider p pageSize lib =
     (case hProvider of
        None \<Rightarrow> Some (UMF_RESULT_ERROR_INVALID_ARGUMENT, None, lib)
      | Some h \<Rightarrow>
          if \<not> pageSize then Some (UMF_RESULT_ERROR_INVALID_ARGUMENT, None, lib)
          else do {
            (res, out, lib1) \<leftarrow> call_out lib h op_get_min_page_size (\<lambda>f priv. f priv p);
            Some (res, Some out, lib1)
          })"

definition umfMemoryProviderGetName ::
  "ref \<Rightarrow> bool \<Rightarrow> ('a, 'p) umf_lib \<Rightarrow> (umf_result \<times> string option \<times> ('a, 'p) umf_lib) option" where
  "umfMemoryProviderGetName hProvider name lib =
     (case hProvider of
        None \<Rightarrow> Some (UMF_RESULT_ERROR_INVALID_ARGUMENT, None, lib)
      | Some h \<Rightarrow>
          if \<not> name then Some (UMF_RESULT_ERROR_INVALID_ARGUMENT, None, lib)
          else call_out lib h op_get_name (\<lambda>f priv. f priv))"

definition umfMemoryProviderPurgeLazy ::
  "ref \<Rightarrow> addr \<Rightarrow> u64 \<Rightarrow> ('a, 'p) umf_lib \<Rightarrow> (umf_result \<times> ('a, 'p) umf_lib) option" where
  "umfMemoryProviderPurgeLazy hProvider p sz lib =
     (case hProvider of
        None \<Rightarrow> Some (UMF_RESULT_ERROR_INVALID_ARGUMENT, lib)
      | Some h \<Rightarrow>
          if p = 0 then Some (UMF_RESULT_ERROR_INVALID_ARGUMENT, lib)
          else call_op lib h op_ext_purge_lazy (\<lambda>f priv. f priv p sz))"

definition umfMemoryProviderPurgeForce ::
  "ref \<Rightarrow> addr \<Rightarrow> u64 \<Rightarrow> ('a, 'p) umf_lib \<Rightarrow> (umf_result \<times> ('a, 'p) umf_lib) option" where
  "umfMemoryProviderPurgeForce hProvider p sz lib =
     (case hProvider of
        None \<Rightarrow> Some (UMF_RESULT_ERROR_INVALID_ARGUMENT, lib)
      | Some h \<Rightarrow>
          if p = 0 then Some (UMF_RESULT_ERROR_INVALID_ARGUMENT, lib)
          else call_op lib h op_ext_purge_force (\<lambda>f priv. f priv p sz))"

definition umfGetLastFailedMemoryProvider :: "bool \<Rightarrow> ('a, 'p) umf_lib \<Rightarrow> umf_result \<times> ref option" where
  "umfGetLastFailedMemoryProvider provider lib =
     (if \<not> provider then (UMF_RESULT_ERROR_INVALID_ARGUMENT, None)
      else (UMF_RESULT_SUCCESS, Some (last_failed lib)))"

definition umfMemoryProviderAllocationSplit ::
  "ref \<Rightarrow> addr \<Rightarrow> u64 \<Rightarrow> u64 \<Rightarrow> ('a, 'p) umf_lib \<Rightarrow> (umf_result \<times> ('a, 'p) umf_lib) option" where
  "umfMemoryProviderAllocationSplit hProvider p totalSize firstSize lib =
     (case hProvider of
        None \<Rightarrow> Some (UMF_RESULT_ERROR_INVALID_ARGUMENT, lib)
      | Some h \<Rightarrow>
          if p = 0 then Some (UMF_RESULT_ERROR_INVALID_ARGUMENT, lib)
          else if \<not> (firstSize \<noteq> 0 \<and> totalSize \<noteq> 0) then Some (UMF_RESULT_ERROR_INVALID_ARGUMENT, lib)
          else if \<not> firstSize < totalSize then Some (UMF_RESULT_ERROR_INVALID_ARGUMENT, lib)
          else call_op lib h op_ext_allocation_split (\<lambda>f priv. f priv p totalSize firstSize))"

definition umfMemoryProviderAllocationMerge ::
  "ref \<Rightarrow> addr \<Rightarrow> addr \<Rightarrow> u64 \<Rightarrow> ('a, 'p) umf_lib \<Rightarrow> (umf_result \<times> ('a, 'p) umf_lib) option" where
  "umfMemoryProviderAllocationMerge hProvider lowPtr highPtr totalSize lib =
     (case hProvider of
        None \<Rightarrow> Some (UMF_RESULT_ERROR_INVALID_ARGUMENT, lib)
      | Some h \<Rightarrow>
          if \<not> (lowPtr \<noteq> 0 \<and> highPtr \<noteq> 0) then Some (UMF_RESULT_ERROR_INVALID_ARGUMENT, lib)
          else if totalSize = 0 then Some (UMF_RESULT_ERROR_INVALID_ARGUMENT, lib)
          else if \<not> lowPtr < highPtr then Some (UMF_RESULT_ERROR_INVALID_ARGUMENT, lib)
          else if \<not> highPtr - lowPtr < totalSize then Some (UMF_RESULT_ERROR_INVALID_ARGUMENT, lib)
          else call_op lib h op_ext_allocation_merge (\<lambda>f priv. f priv lowPtr highPtr totalSize))"

definition umfMemoryProviderGetIPCHandleSize ::
  "ref \<Rightarrow> bool \<Rightarrow> ('a, 'p) umf_lib \<Rightarrow> (umf_result \<times> u64 option \<times> ('a, 'p) umf_lib) option" where
  "umfMemoryProviderGetIPCHandleSize hProvider sz lib =
     (case hProvider of
        None \<Rightarrow> Some (UMF_RESULT_ERROR_INVALID_ARGUMENT, None, lib)
      | Some h \<Rightarrow>
          if \<not> sz then Some (UMF_RESULT_ERROR_INVALID_ARGUMENT, None, lib)
          else call_out lib h op_ext_get_ipc_handle_size (\<lambda>f priv. f priv))"

definition umfMemoryProviderGetIPCHandle ::
  "ref \<Rightarrow> addr \<Rightarrow> u64 \<Rightarrow> bool \<Rightarrow> ('a, 'p) umf_lib \<Rightarrow> (umf_result \<times> ipc_data option \<times> ('a, 'p) umf_lib) option" where
  "umfMemoryProviderGetIPCHandle hProvider p sz providerIpcData lib =
     (case hProvider of
        None \<Rightarrow> Some (UMF_RESULT_ERROR_INVALID_ARGUMENT, None, lib)
      | Some h \<Rightarrow>
          if p = 0 then Some (UMF_RESULT_ERROR_INVALID_ARGUMENT, None, lib)
          else if sz = 0 then Some (UMF_RESULT_ERROR_INVALID_ARGUMENT, None, lib)
          else if \<not> providerIpcData then Some (UMF_RESULT_ERROR_INVALID_ARGUMENT, None, lib)
          else call_out lib h op_ext_get_ipc_handle (\<lambda>f priv. f priv p sz))"

definition umfMemoryProviderPutIPCHandle ::
  "ref \<Rightarrow> ipc_data option \<Rightarrow> ('a, 'p) umf_lib \<Rightarrow> (umf_result \<times> ('a, 'p) umf_lib) option" where
  "umfMemoryProviderPutIPCHandle hProvider providerIpcData lib =
     (case (hProvider, providerIpcData) of
        (Some h, Some d) \<Rightarrow> call_op lib h op_ext_put_ipc_handle (\<lambda>f priv. f priv d)
      | _ \<Rightarrow> Some (UMF_RESULT_ERROR_INVALID_ARGUMENT, lib))"

definition umfMemoryProviderOpenIPCHandle ::
  "ref \<Rightarrow> ipc_data option \<Rightarrow> bool \<Rightarrow> ('a, 'p) umf_lib \<Rightarrow> (umf_result \<times> addr option \<times> ('a, 'p) umf_lib) option" where
  "umfMemoryProviderOpenIPCHandle hProvider providerIpcData p lib =
     (case (hProvider, providerIpcData) of
        (Some h, Some d) \<Rightarrow>
          if \<not> p then Some (UMF_RESULT_ERROR_INVALID_ARGUMENT, None, lib)
          else call_out lib h op_ext_open_ipc_handle (\<lambda>f priv. f priv d)
      | _ \<Rightarrow> Some (UMF_RESULT_ERROR_INVALID_ARGUMENT, None, lib))"

definition umfMemoryProviderCloseIPCHandle ::
  "ref \<Rightarrow> addr \<Rightarrow> u64 \<Rightarrow> ('a, 'p) umf_lib \<Rightarrow> (umf_result \<times> ('a, 'p) umf_lib) option" where
  "umfMemoryProviderCloseIPCHandle hProvider p sz lib =
     (case hProvider of
        None \<Rightarrow> Some (UMF_RESULT_ERROR_INVALID_ARGUMENT, lib)
      | Some h \<Rightarrow>
          if p = 0 then Some (UMF_RESULT_ERROR_INVALID_ARGUMENT, lib)
          else if sz = 0 then Some (UMF_RESULT_ERROR_INVALID_ARGUMENT, lib)
          else call_op lib h op_ext_close_ipc_handle (\<lambda>f priv. f priv p sz))"

text \<open>The control node \<^verbatim>\<open>umf.provider.by_handle\<close>: the index is the handle.\<close>

definition by_handle :: "ptr \<Rightarrow> ctl_request \<Rightarrow> ('a, 'p) umf_lib \<Rightarrow> (umf_result \<times> ('a, 'p) umf_lib) option" where
  "by_handle hProvider q lib = do {
     pr \<leftarrow> lib_providers lib hProvider;
     f \<leftarrow> op_ext_ctl (pr_ops pr);
     (_, priv) \<leftarrow> f (provider_priv pr) q;
     Some (UMF_RESULT_SUCCESS, set_priv hProvider pr priv lib)
   }"

end
