(* ===== verification/Fixed_Provider.thy ===== *)
theory Fixed_Provider
  imports Coarse_Total Provider_Stats Utils_Os Memory_Provider
begin

text \<open>
  The fixed memory provider (\<^verbatim>\<open>src/provider/provider_fixed_memory.c\<close>): it serves
  allocations from one user-supplied range through the coarse allocator, keeps the memory
  counters, and reports the last native error of the thread. The page size, \<^verbatim>\<open>madvise\<close> and
  \<^verbatim>\<open>strerror_r\<close> are parameters.
\<close>

section \<open>State and parameters\<close>

record fixed_memory_provider_t =
  fp_base :: addr
  fp_size :: u64
  fp_coarse :: "unit coarse_t"
  fp_stats :: ctl_stats_t
  fp_name :: string

record umf_fixed_memory_provider_params_t =
  pp_ptr :: addr
  pp_size :: u64
  pp_name :: string

record fixed_last_native_error_t =
  native_error :: int
  errno_value :: int
  msg_buff :: string

text \<open>Thread-local storage starts as zero bytes.\<close>

definition TLS_initial :: fixed_last_native_error_t where
  "TLS_initial = \<lparr>native_error = 0, errno_value = 0, msg_buff = []\<rparr>"

definition DEFAULT_NAME :: string where "DEFAULT_NAME = ''FIXED''"

definition TLS_MSG_BUF_LEN :: nat where "TLS_MSG_BUF_LEN = 1024"

datatype umf_fixed_memory_provider_native_error_t =
    UMF_FIXED_RESULT_SUCCESS
  | UMF_FIXED_RESULT_ERROR_PURGE_FORCE_FAILED

fun fixed_error_code :: "umf_fixed_memory_provider_native_error_t \<Rightarrow> int" where
  "fixed_error_code UMF_FIXED_RESULT_SUCCESS = 4000"
| "fixed_error_code UMF_FIXED_RESULT_ERROR_PURGE_FORCE_FAILED = 4001"

definition Native_error_str :: "string list" where
  "Native_error_str = [''success'', ''force purging failed'']"

text \<open>An access to the array \<open>Native_error_str\<close>; outside its bounds it is undefined.\<close>

definition native_error_text :: "int \<Rightarrow> string option" where
  "native_error_text e =
     (let i = e - fixed_error_code UMF_FIXED_RESULT_SUCCESS
      in if 0 \<le> i \<and> i < int (length Native_error_str) then Some (Native_error_str ! nat i) else None)"

definition fixed_store_last_native_error ::
  "umf_fixed_memory_provider_native_error_t \<Rightarrow> int \<Rightarrow> fixed_last_native_error_t \<Rightarrow> fixed_last_native_error_t" where
  "fixed_store_last_native_error e errno tls = tls\<lparr>native_error := fixed_error_code e, errno_value := errno\<rparr>"

section \<open>Life cycle\<close>

definition fixed_allocation_split_cb :: "unit \<Rightarrow> addr \<Rightarrow> u64 \<Rightarrow> u64 \<Rightarrow> umf_result \<times> unit" where
  "fixed_allocation_split_cb provider p totalSize firstSize = (UMF_RESULT_SUCCESS, provider)"

definition fixed_allocation_merge_cb :: "unit \<Rightarrow> addr \<Rightarrow> addr \<Rightarrow> u64 \<Rightarrow> umf_result \<times> unit" where
  "fixed_allocation_merge_cb provider lowPtr highPtr totalSize = (UMF_RESULT_SUCCESS, provider)"

definition fixed_coarse_params :: "u64 \<Rightarrow> unit coarse_params_t" where
  "fixed_coarse_params page_size =
     \<lparr>cp_provider = Some (),
      cp_cb = \<lparr>cb_alloc = None, cb_free = None, cb_split = Some fixed_allocation_split_cb,
               cb_merge = Some fixed_allocation_merge_cb\<rparr>,
      cp_strategy = UMF_COARSE_MEMORY_STRATEGY_FASTEST_BUT_ONE, cp_page_size = page_size\<rparr>"

definition fixed_initialize ::
  "u64 \<Rightarrow> umf_fixed_memory_provider_params_t option \<Rightarrow> host \<Rightarrow>
     (umf_result \<times> fixed_memory_provider_t option \<times> host) option" where
  "fixed_initialize page_size params s =
     (case params of
        None \<Rightarrow> Some (UMF_RESULT_ERROR_INVALID_ARGUMENT, None, s)
      | Some in_params \<Rightarrow>
         (case ba_global_alloc s of
            (None, s1) \<Rightarrow> Some (UMF_RESULT_ERROR_OUT_OF_HOST_MEMORY, None, s1)
          | (Some _, s1) \<Rightarrow> do {
              (ret, coarse, s2) \<leftarrow> coarse_new (Some (fixed_coarse_params page_size)) s1;
              (case coarse of
                 None \<Rightarrow> Some (ret, None, s2)
               | Some c \<Rightarrow> do {
                   (ret, c1) \<leftarrow> coarse_add_memory_fixed c (pp_ptr in_params) (pp_size in_params);
                   if ret \<noteq> UMF_RESULT_SUCCESS then do {
                     c2 \<leftarrow> coarse_delete c1;
                     Some (ret, None, c_host c2)
                   }
                   else
                     Some (UMF_RESULT_SUCCESS,
                       Some \<lparr>fp_base = pp_ptr in_params, fp_size = pp_size in_params, fp_coarse = c1,
                             fp_stats = \<lparr>allocated_memory = 0, peak_memory = 0\<rparr>,
                             fp_name = take 63 (pp_name in_params)\<rparr>,
                       c_host c1)
                 })
            }))"

definition fixed_finalize :: "fixed_memory_provider_t \<Rightarrow> (umf_result \<times> unit coarse_t) option" where
  "fixed_finalize fixed_provider = do {
     c \<leftarrow> coarse_delete (fp_coarse fixed_provider);
     Some (UMF_RESULT_SUCCESS, c)
   }"

section \<open>Operations\<close>

definition fixed_alloc ::
  "fixed_memory_provider_t \<Rightarrow> u64 \<Rightarrow> u64 \<Rightarrow> (umf_result \<times> addr option \<times> fixed_memory_provider_t) option" where
  "fixed_alloc fp sz alignment = do {
     (ret, resultPtr, c) \<leftarrow> coarse_alloc (fp_coarse fp) sz alignment;
     let fp1 = fp\<lparr>fp_coarse := c\<rparr>;
     if ret = UMF_RESULT_SUCCESS then do {
       st \<leftarrow> provider_ctl_stats_alloc (fp_stats fp1) sz;
       Some (ret, resultPtr, fp1\<lparr>fp_stats := st\<rparr>)
     }
     else Some (ret, resultPtr, fp1)
   }"

definition fixed_free ::
  "fixed_memory_provider_t \<Rightarrow> addr \<Rightarrow> u64 \<Rightarrow> (umf_result \<times> fixed_memory_provider_t) option" where
  "fixed_free fp p sz = do {
     (ret, c) \<leftarrow> coarse_free (fp_coarse fp) p sz;
     let fp1 = fp\<lparr>fp_coarse := c\<rparr>;
     Some (ret, if ret = UMF_RESULT_SUCCESS then fp1\<lparr>fp_stats := provider_ctl_stats_free (fp_stats fp1) sz\<rparr> else fp1)
   }"

definition fixed_allocation_split ::
  "fixed_memory_provider_t \<Rightarrow> addr \<Rightarrow> u64 \<Rightarrow> u64 \<Rightarrow> (umf_result \<times> fixed_memory_provider_t) option" where
  "fixed_allocation_split fp p totalSize firstSize = do {
     (ret, c) \<leftarrow> coarse_split (fp_coarse fp) p totalSize firstSize;
     Some (ret, fp\<lparr>fp_coarse := c\<rparr>)
   }"

definition fixed_allocation_merge ::
  "fixed_memory_provider_t \<Rightarrow> addr \<Rightarrow> addr \<Rightarrow> u64 \<Rightarrow> (umf_result \<times> fixed_memory_provider_t) option" where
  "fixed_allocation_merge fp lowPtr highPtr totalSize = do {
     (ret, c) \<leftarrow> coarse_merge (fp_coarse fp) lowPtr highPtr totalSize;
     Some (ret, fp\<lparr>fp_coarse := c\<rparr>)
   }"

text \<open>The two flags say whether the output pointers are non-null.\<close>

definition fixed_get_last_native_error ::
  "(int \<Rightarrow> nat \<Rightarrow> string option) \<Rightarrow> bool \<Rightarrow> bool \<Rightarrow> fixed_last_native_error_t \<Rightarrow>
     (umf_result \<times> string \<times> int \<times> fixed_last_native_error_t) option" where
  "fixed_get_last_native_error strerror_r ppMessage pError tls =
     (if \<not> ppMessage \<or> \<not> pError then None
      else if errno_value tls = 0 then do {
        msg \<leftarrow> native_error_text (native_error tls);
        Some (UMF_RESULT_SUCCESS, msg, native_error tls, tls)
      }
      else do {
        msg \<leftarrow> native_error_text (native_error tls);
        let buf = msg @ '': '';
        let txt = utils_strerror strerror_r (errno_value tls) [] (TLS_MSG_BUF_LEN - length buf);
        let tls1 = tls\<lparr>msg_buff := buf @ txt\<rparr>;
        Some (UMF_RESULT_SUCCESS, msg_buff tls1, native_error tls, tls1)
      })"

definition fixed_get_recommended_page_size :: "u64 \<Rightarrow> u64 \<Rightarrow> umf_result \<times> u64" where
  "fixed_get_recommended_page_size page_size sz = (UMF_RESULT_SUCCESS, page_size)"

definition fixed_get_min_page_size :: "u64 \<Rightarrow> addr \<Rightarrow> umf_result \<times> u64" where
  "fixed_get_min_page_size page_size p = fixed_get_recommended_page_size page_size 0"

definition fixed_purge_lazy :: "addr \<Rightarrow> u64 \<Rightarrow> umf_result" where
  "fixed_purge_lazy p sz = UMF_RESULT_ERROR_NOT_SUPPORTED"

definition fixed_purge_force ::
  "(addr \<Rightarrow> u64 \<Rightarrow> int \<Rightarrow> int \<times> int) \<Rightarrow> addr \<Rightarrow> u64 \<Rightarrow> fixed_last_native_error_t \<Rightarrow>
     umf_result \<times> fixed_last_native_error_t" where
  "fixed_purge_force madvise p sz tls =
     (let (r, errno) = utils_purge madvise p sz UMF_PURGE_FORCE
      in if r \<noteq> 0 then
           (UMF_RESULT_ERROR_MEMORY_PROVIDER_SPECIFIC,
            fixed_store_last_native_error UMF_FIXED_RESULT_ERROR_PURGE_FORCE_FAILED errno tls)
         else (UMF_RESULT_SUCCESS, tls))"

text \<open>The first argument says whether the output pointer is non-null.\<close>

definition fixed_get_name :: "bool \<Rightarrow> fixed_memory_provider_t option \<Rightarrow> umf_result \<times> string option" where
  "fixed_get_name name provider =
     (if \<not> name then (UMF_RESULT_ERROR_INVALID_ARGUMENT, None)
      else case provider of
             None \<Rightarrow> (UMF_RESULT_SUCCESS, Some DEFAULT_NAME)
           | Some fp \<Rightarrow> (UMF_RESULT_SUCCESS, Some (fp_name fp)))"

section \<open>Parameters\<close>

definition umfFixedMemoryProviderParamsSetMemory ::
  "umf_fixed_memory_provider_params_t option \<Rightarrow> addr \<Rightarrow> u64 \<Rightarrow> umf_result \<times> umf_fixed_memory_provider_params_t option" where
  "umfFixedMemoryProviderParamsSetMemory hParams p sz =
     (case hParams of
        None \<Rightarrow> (UMF_RESULT_ERROR_INVALID_ARGUMENT, None)
      | Some ps \<Rightarrow>
          if p = 0 then (UMF_RESULT_ERROR_INVALID_ARGUMENT, Some ps)
          else if sz = 0 then (UMF_RESULT_ERROR_INVALID_ARGUMENT, Some ps)
          else (UMF_RESULT_SUCCESS, Some (ps\<lparr>pp_ptr := p, pp_size := sz\<rparr>)))"

definition umfFixedMemoryProviderParamsSetName ::
  "umf_fixed_memory_provider_params_t option \<Rightarrow> string option \<Rightarrow> umf_result \<times> umf_fixed_memory_provider_params_t option" where
  "umfFixedMemoryProviderParamsSetName hParams name =
     (case hParams of
        None \<Rightarrow> (UMF_RESULT_ERROR_INVALID_ARGUMENT, None)
      | Some ps \<Rightarrow>
         (case name of
            None \<Rightarrow> (UMF_RESULT_ERROR_INVALID_ARGUMENT, Some ps)
          | Some nm \<Rightarrow> (UMF_RESULT_SUCCESS, Some (ps\<lparr>pp_name := strncpy_terminated 64 nm\<rparr>))))"

definition umfFixedMemoryProviderParamsCreate ::
  "addr \<Rightarrow> u64 \<Rightarrow> bool \<Rightarrow> host \<Rightarrow> umf_result \<times> umf_fixed_memory_provider_params_t option \<times> host" where
  "umfFixedMemoryProviderParamsCreate p sz hParams s =
     (if \<not> hParams then (UMF_RESULT_ERROR_INVALID_ARGUMENT, None, s)
      else
       (case ba_global_alloc s of
          (None, s1) \<Rightarrow> (UMF_RESULT_ERROR_OUT_OF_HOST_MEMORY, None, s1)
        | (Some _, s1) \<Rightarrow>
           (let params = \<lparr>pp_ptr = 0, pp_size = 0, pp_name = strncpy_terminated 64 DEFAULT_NAME\<rparr>;
                (ret, params') = umfFixedMemoryProviderParamsSetMemory (Some params) p sz
            in if ret \<noteq> UMF_RESULT_SUCCESS then (ret, None, s1)
               else (UMF_RESULT_SUCCESS, params', s1))))"

definition umfFixedMemoryProviderParamsDestroy :: "umf_fixed_memory_provider_params_t option \<Rightarrow> umf_result" where
  "umfFixedMemoryProviderParamsDestroy hParams = UMF_RESULT_SUCCESS"

section \<open>The table of operations\<close>

text \<open>
  The private state that the library keeps for the provider, with the thread-local record
  of native errors. The environment of the process is a record of parameters, and
  \<open>fixed_ctl\<close> is the handler of control queries.
\<close>

record process_env =
  env_page_size :: u64
  env_madvise :: "addr \<Rightarrow> u64 \<Rightarrow> int \<Rightarrow> int \<times> int"
  env_strerror_r :: "int \<Rightarrow> nat \<Rightarrow> string option"

type_synonym fixed_priv = "fixed_memory_provider_t \<times> fixed_last_native_error_t"

definition umfFixedMemoryProviderOps ::
  "process_env \<Rightarrow> (fixed_priv \<Rightarrow> ctl_request \<Rightarrow> (umf_result \<times> fixed_priv) option) \<Rightarrow>
     (umf_fixed_memory_provider_params_t option, fixed_priv) umf_memory_provider_ops_t" where
  "umfFixedMemoryProviderOps env fixed_ctl =
     \<lparr>op_version = 0x10000,
      op_initialize = Some (\<lambda>params s. do {
        (rc, fp, s') \<leftarrow> fixed_initialize (env_page_size env) params s;
        Some (rc, map_option (\<lambda>fp. (fp, TLS_initial)) fp, s')
      }),
      op_finalize = Some (\<lambda>(fp, tls). map_option fst (fixed_finalize fp)),
      op_alloc = Some (\<lambda>(fp, tls) sz alignment. do {
        (rc, r, fp') \<leftarrow> fixed_alloc fp sz alignment;
        Some (rc, r, (fp', tls))
      }),
      op_free = Some (\<lambda>(fp, tls) p sz. do { (rc, fp') \<leftarrow> fixed_free fp p sz; Some (rc, (fp', tls)) }),
      op_get_last_native_error = Some (\<lambda>(fp, tls). do {
        (rc, msg, err, tls') \<leftarrow> fixed_get_last_native_error (env_strerror_r env) True True tls;
        Some (rc, (msg, err), (fp, tls'))
      }),
      op_get_recommended_page_size = Some (\<lambda>(fp, tls) sz.
        let (rc, n) = fixed_get_recommended_page_size (env_page_size env) sz in Some (rc, n, (fp, tls))),
      op_get_min_page_size = Some (\<lambda>(fp, tls) p.
        let (rc, n) = fixed_get_min_page_size (env_page_size env) p in Some (rc, n, (fp, tls))),
      op_get_name = Some (\<lambda>(fp, tls). let (rc, nm) = fixed_get_name True (Some fp) in Some (rc, nm, (fp, tls))),
      op_ext_purge_lazy = Some (\<lambda>(fp, tls) p sz. Some (fixed_purge_lazy p sz, (fp, tls))),
      op_ext_purge_force = Some (\<lambda>(fp, tls) p sz.
        let (rc, tls') = fixed_purge_force (env_madvise env) p sz tls in Some (rc, (fp, tls'))),
      op_ext_allocation_merge = Some (\<lambda>(fp, tls) lowPtr highPtr totalSize. do {
        (rc, fp') \<leftarrow> fixed_allocation_merge fp lowPtr highPtr totalSize;
        Some (rc, (fp', tls))
      }),
      op_ext_allocation_split = Some (\<lambda>(fp, tls) p totalSize firstSize. do {
        (rc, fp') \<leftarrow> fixed_allocation_split fp p totalSize firstSize;
        Some (rc, (fp', tls))
      }),
      op_ext_get_ipc_handle_size = None, op_ext_get_ipc_handle = None, op_ext_put_ipc_handle = None,
      op_ext_open_ipc_handle = None, op_ext_close_ipc_handle = None,
      op_ext_ctl = Some fixed_ctl\<rparr>"

end
