(* ===== verification/Provider_Api.thy ===== *)
theory Provider_Api
  imports Memory_Provider
begin

text \<open>
  Lemmas on the provider interface. The locale \<open>memory_provider\<close> states what the library
  relies on in a table of operations; inside it, every sequence of calls through the public
  wrappers is shown to return and to meet the contract of \<open>Heap_Contract\<close>.
\<close>

section \<open>Complete tables\<close>

definition full_ops :: "('a, 'p) umf_memory_provider_ops_t \<Rightarrow> ('a, 'p) umf_memory_provider_ops_t" where
  "full_ops ops = assignOpsIpcDefaults (assignOpsExtDefaults ops)"

definition complete :: "('a, 'p) umf_memory_provider_ops_t \<Rightarrow> bool" where
  "complete ops \<longleftrightarrow>
     op_initialize ops \<noteq> None \<and> op_finalize ops \<noteq> None \<and> op_alloc ops \<noteq> None \<and> op_free ops \<noteq> None \<and>
     op_get_last_native_error ops \<noteq> None \<and> op_get_recommended_page_size ops \<noteq> None \<and>
     op_get_min_page_size ops \<noteq> None \<and> op_get_name ops \<noteq> None \<and> op_ext_purge_lazy ops \<noteq> None \<and>
     op_ext_purge_force ops \<noteq> None \<and> op_ext_allocation_merge ops \<noteq> None \<and>
     op_ext_allocation_split ops \<noteq> None \<and> op_ext_get_ipc_handle_size ops \<noteq> None \<and>
     op_ext_get_ipc_handle ops \<noteq> None \<and> op_ext_put_ipc_handle ops \<noteq> None \<and>
     op_ext_open_ipc_handle ops \<noteq> None \<and> op_ext_close_ipc_handle ops \<noteq> None \<and> op_ext_ctl ops \<noteq> None"

lemma or_default_Some [simp]: "or_default f d \<noteq> None" "or_default (Some g) d = Some g" "or_default None d = Some d"
  by (simp_all add: or_default_def split: option.splits)

lemma full_ops_simps [simp]:
  "op_initialize (full_ops ops) = op_initialize ops" "op_finalize (full_ops ops) = op_finalize ops"
  "op_alloc (full_ops ops) = op_alloc ops" "op_free (full_ops ops) = op_free ops"
  "op_get_name (full_ops ops) = op_get_name ops"
  "op_ext_allocation_split (full_ops ops) = or_default (op_ext_allocation_split ops) umfDefaultAllocationSplit"
  "op_ext_allocation_merge (full_ops ops) = or_default (op_ext_allocation_merge ops) umfDefaultAllocationMerge"
  by (simp_all add: full_ops_def assignOpsIpcDefaults_def assignOpsExtDefaults_def)

lemma validateOps_complete: "validateOps ops \<Longrightarrow> complete (full_ops ops)"
  by (simp add: validateOps_def complete_def full_ops_def assignOpsIpcDefaults_def assignOpsExtDefaults_def)

text \<open>
  C30. Whatever table a client passes: if creation succeeds, the new provider has an entry for
  every operation, so the assertions of the wrappers hold; a table that lacks a mandatory
  operation, has only one of split and merge, or has some but not all of the inter-process
  operations is refused and the library is unchanged.
\<close>

theorem created_provider_complete:
  "(umfMemoryProviderCreate (Some ops) params out lib = Some (UMF_RESULT_SUCCESS, Some h, lib') \<longrightarrow>
      (\<exists>pr. lib_providers lib' h = Some pr \<and> complete (pr_ops pr))) \<and>
   (\<not> validateOps ops \<longrightarrow>
      umfMemoryProviderCreate (Some ops) params out lib = Some (UMF_RESULT_ERROR_INVALID_ARGUMENT, None, lib))"
  using validateOps_complete [of ops, unfolded full_ops_def]
  by (auto simp: umfMemoryProviderCreate_def Let_def split: if_splits prod.splits option.splits Option.bind_splits)

definition null_ops :: "(unit, unit) umf_memory_provider_ops_t" where
  "null_ops =
     \<lparr>op_version = 0x10000, op_initialize = Some (\<lambda>_ s. Some (UMF_RESULT_SUCCESS, Some (), s)),
      op_finalize = Some (\<lambda>_. Some UMF_RESULT_SUCCESS), op_alloc = Some (\<lambda>p _ _. Some (UMF_RESULT_ERROR_NOT_SUPPORTED, None, p)),
      op_free = Some (\<lambda>p _ _. Some (UMF_RESULT_SUCCESS, p)),
      op_get_last_native_error = Some (\<lambda>p. Some (UMF_RESULT_SUCCESS, ([], 0), p)),
      op_get_recommended_page_size = Some (\<lambda>p _. Some (UMF_RESULT_SUCCESS, 0x1000, p)),
      op_get_min_page_size = Some (\<lambda>p _. Some (UMF_RESULT_SUCCESS, 0x1000, p)),
      op_get_name = Some (\<lambda>p. Some (UMF_RESULT_SUCCESS, None, p)), op_ext_purge_lazy = None, op_ext_purge_force = None,
      op_ext_allocation_merge = None, op_ext_allocation_split = None, op_ext_get_ipc_handle_size = None,
      op_ext_get_ipc_handle = None, op_ext_put_ipc_handle = None, op_ext_open_ipc_handle = None,
      op_ext_close_ipc_handle = None, op_ext_ctl = None\<rparr>"

definition empty_lib :: "('a, 'p) umf_lib" where
  "empty_lib = \<lparr>lib_providers = Map.empty, last_failed = None, lib_host = \<lparr>next_id = 0, oom = [], lock_fail = []\<rparr>,
     ba_destroyed = False\<rparr>"

lemma create_null_ops:
  "umfMemoryProviderCreate (Some null_ops) () True empty_lib =
     Some (UMF_RESULT_SUCCESS, Some 0, empty_lib\<lparr>lib_host := \<lparr>next_id = 1, oom = [], lock_fail = []\<rparr>,
       lib_providers := [0 \<mapsto> \<lparr>provider_priv = (), pr_ops = full_ops null_ops\<rparr>]\<rparr>)"
  by (simp add: umfMemoryProviderCreate_def validateOps_def null_ops_def empty_lib_def ba_global_alloc_def Let_def
      full_ops_def assignOpsIpcDefaults_def assignOpsExtDefaults_def)

theorem created_provider_complete_witness:
  "complete (full_ops null_ops) \<and>
   umfMemoryProviderCreate (Some (null_ops\<lparr>op_alloc := None\<rparr>)) () True empty_lib =
     Some (UMF_RESULT_ERROR_INVALID_ARGUMENT, None, empty_lib)"
proof
  show "complete (full_ops null_ops)"
    using created_provider_complete [THEN conjunct1, THEN mp, OF create_null_ops] by simp
  show "umfMemoryProviderCreate (Some (null_ops\<lparr>op_alloc := None\<rparr>)) () True empty_lib =
      Some (UMF_RESULT_ERROR_INVALID_ARGUMENT, None, empty_lib)"
    by (rule created_provider_complete [THEN conjunct2, THEN mp]) (simp add: validateOps_def)
qed



section \<open>Calls through the wrappers\<close>

fun api_step :: "heap_op \<Rightarrow> ref \<Rightarrow> ('a, 'p) umf_lib \<Rightarrow> (reply \<times> ('a, 'p) umf_lib) option" where
  "api_step (Op_Alloc n al) h lib = do { (rc, r, lib') \<leftarrow> umfMemoryProviderAlloc h n al True lib; Some ((rc, r), lib') }"
| "api_step (Op_Free p n) h lib = do { (rc, lib') \<leftarrow> umfMemoryProviderFree h p n lib; Some ((rc, None), lib') }"
| "api_step (Op_Split p t f) h lib = do { (rc, lib') \<leftarrow> umfMemoryProviderAllocationSplit h p t f lib; Some ((rc, None), lib') }"
| "api_step (Op_Merge lo hi t) h lib =
     do { (rc, lib') \<leftarrow> umfMemoryProviderAllocationMerge h lo hi t lib; Some ((rc, None), lib') }"

fun api_run :: "heap_op list \<Rightarrow> ref \<Rightarrow> ('a, 'p) umf_lib \<Rightarrow> (reply list \<times> ('a, 'p) umf_lib) option" where
  "api_run [] h lib = Some ([], lib)"
| "api_run (op # ops) h lib = do {
     (r, lib1) \<leftarrow> api_step op h lib;
     (rs, lib2) \<leftarrow> api_run ops h lib1;
     Some (r # rs, lib2)
   }"

text \<open>The library outside one provider, and the record of failures.\<close>

definition only_changes :: "ptr \<Rightarrow> ('a, 'p) umf_lib \<Rightarrow> ('a, 'p) umf_lib \<Rightarrow> bool" where
  "only_changes h lib lib' \<longleftrightarrow>
     (\<forall>h'. h' \<noteq> h \<longrightarrow> lib_providers lib' h' = lib_providers lib h') \<and>
     last_failed lib' \<in> {last_failed lib, Some h} \<and> lib_host lib' = lib_host lib \<and> ba_destroyed lib' = ba_destroyed lib"

lemma only_changes_refl [simp]: "only_changes h lib lib"
  by (simp add: only_changes_def)

lemma only_changes_trans: "only_changes h a b \<Longrightarrow> only_changes h b c \<Longrightarrow> only_changes h a c"
  by (auto simp: only_changes_def)

lemma only_changes_call [simp]:
  "only_changes h lib (checkErrorAndSetLastProvider res h (set_priv h pr priv lib))"
  by (simp add: only_changes_def checkErrorAndSetLastProvider_def set_priv_def)

lemma providers_after [simp]:
  "lib_providers (checkErrorAndSetLastProvider res h (set_priv h pr priv lib)) h = Some (pr\<lparr>provider_priv := priv\<rparr>)"
  by (simp add: checkErrorAndSetLastProvider_def set_priv_def)

lemma call_op_eq:
  "lib_providers lib h = Some pr \<Longrightarrow> field (pr_ops pr) = Some f \<Longrightarrow> app f (provider_priv pr) = Some (rc, q) \<Longrightarrow>
   call_op lib h field app = Some (rc, checkErrorAndSetLastProvider rc h (set_priv h pr q lib))"
  by (simp add: call_op_def)

lemma call_out_eq:
  "lib_providers lib h = Some pr \<Longrightarrow> field (pr_ops pr) = Some f \<Longrightarrow> app f (provider_priv pr) = Some (rc, r, q) \<Longrightarrow>
   call_out lib h field app = Some (rc, r, checkErrorAndSetLastProvider rc h (set_priv h pr q lib))"
  by (simp add: call_out_def)

text \<open>Consecutive argument checks with the same outcome.\<close>

lemma checks_fail:
  "a \<or> b \<or> c \<Longrightarrow> (if a then x else if b then x else if c then x else y) = x"
  "a \<or> b \<or> c \<or> d \<Longrightarrow> (if a then x else if b then x else if c then x else if d then x else y) = x"
  "\<not> (a \<or> b \<or> c) \<Longrightarrow> (if a then x else if b then x else if c then x else y) = y"
  "\<not> (a \<or> b \<or> c \<or> d) \<Longrightarrow> (if a then x else if b then x else if c then x else if d then x else y) = y"
  by auto

section \<open>The interface\<close>

text \<open>
  \<open>inv p v\<close> says that a provider in state \<open>p\<close> has the live allocations \<open>v\<close>. Each
  operation returns, keeps that relation and meets the contract.
\<close>

locale memory_provider =
  fixes ops :: "('a, 'p) umf_memory_provider_ops_t"
    and inv :: "'p \<Rightarrow> view \<Rightarrow> bool"
  assumes valid: "validateOps ops"
    and alloc_law: "op_alloc ops = Some f \<Longrightarrow> inv p v \<Longrightarrow> n \<noteq> 0 \<Longrightarrow>
      \<exists>rc r p' v'. f p n al = Some (rc, r, p') \<and> inv p' v' \<and> heap_spec (Op_Alloc n al) (rc, r) v v'"
    and free_law: "op_free ops = Some f2 \<Longrightarrow> inv p v \<Longrightarrow>
      \<exists>rc p' v'. f2 p a n = Some (rc, p') \<and> inv p' v' \<and> heap_spec (Op_Free a n) (rc, None) v v'"
    and split_law: "op_ext_allocation_split ops = Some f3 \<Longrightarrow> inv p v \<Longrightarrow>
      \<exists>rc p' v'. f3 p a t s = Some (rc, p') \<and> inv p' v' \<and> heap_spec (Op_Split a t s) (rc, None) v v'"
    and merge_law: "op_ext_allocation_merge ops = Some f4 \<Longrightarrow> inv p v \<Longrightarrow>
      \<exists>rc p' v'. f4 p lo hi t = Some (rc, p') \<and> inv p' v' \<and> heap_spec (Op_Merge lo hi t) (rc, None) v v'"
    and name_law: "op_get_name ops = Some f5 \<Longrightarrow> inv p v \<Longrightarrow> \<exists>rc nm p'. f5 p = Some (rc, nm, p') \<and> inv p' v"
    and finalize_law: "op_finalize ops = Some f6 \<Longrightarrow> inv p v \<Longrightarrow> f6 p = Some UMF_RESULT_SUCCESS"
begin

definition provider_at :: "('a, 'p) umf_lib \<Rightarrow> ptr \<Rightarrow> view \<Rightarrow> bool" where
  "provider_at lib h v \<longleftrightarrow>
     (\<exists>pr. lib_providers lib h = Some pr \<and> pr_ops pr = full_ops ops \<and> inv (provider_priv pr) v)"

lemma provider_atE:
  assumes "provider_at lib h v"
  obtains pr where "lib_providers lib h = Some pr" "pr_ops pr = full_ops ops" "inv (provider_priv pr) v"
  using assms by (auto simp: provider_at_def)

lemma provider_at_call:
  "pr_ops pr = full_ops ops \<Longrightarrow> inv q v \<Longrightarrow> provider_at (checkErrorAndSetLastProvider rc h (set_priv h pr q lib)) h v"
  by (simp add: provider_at_def)

definition api_ok :: "heap_op \<Rightarrow> ptr \<Rightarrow> ('a, 'p) umf_lib \<Rightarrow> view \<Rightarrow> bool" where
  "api_ok op h lib v \<longleftrightarrow>
     (\<exists>r lib' v'. api_step op (Some h) lib = Some (r, lib') \<and> provider_at lib' h v' \<and> heap_spec op r v v' \<and>
        only_changes h lib lib')"

lemma api_okI:
  "api_step op (Some h) lib = Some (r, lib') \<Longrightarrow> provider_at lib' h v' \<Longrightarrow> heap_spec op r v v' \<Longrightarrow>
   only_changes h lib lib' \<Longrightarrow> api_ok op h lib v"
  unfolding api_ok_def by blast

lemma api_alloc: "provider_at lib h v \<Longrightarrow> n \<noteq> 0 \<Longrightarrow> api_ok (Op_Alloc n al) h lib v"
proof (erule provider_atE)
  fix pr
  assume n: "n \<noteq> 0" and pr: "lib_providers lib h = Some pr" "pr_ops pr = full_ops ops" "inv (provider_priv pr) v"
  obtain f where f: "op_alloc ops = Some f" using valid by (auto simp: validateOps_def)
  obtain rc r q v' where e: "f (provider_priv pr) n al = Some (rc, r, q)" "inv q v'" "heap_spec (Op_Alloc n al) (rc, r) v v'"
    using alloc_law [OF f pr(3) n] by blast
  have "op_alloc (pr_ops pr) = Some f" using f pr(2) by simp
  then have "api_step (Op_Alloc n al) (Some h) lib = Some ((rc, r), checkErrorAndSetLastProvider rc h (set_priv h pr q lib))"
    using call_out_eq [OF pr(1), of op_alloc f "\<lambda>f priv. f priv n al" rc r q] e(1) by (simp add: umfMemoryProviderAlloc_def)
  then show "api_ok (Op_Alloc n al) h lib v" by (rule api_okI [OF _ provider_at_call [OF pr(2) e(2)] e(3) only_changes_call])
qed

lemma api_call_op:
  assumes "api_step op (Some h) lib = do { (rc, lib') \<leftarrow> call_op lib h field app; Some ((rc, None), lib') }"
    and "lib_providers lib h = Some pr" "pr_ops pr = full_ops ops" "field (full_ops ops) = Some f"
    and "app f (provider_priv pr) = Some (rc, q)" "inv q v'" "heap_spec op (rc, None) v v'"
  shows "api_ok op h lib v"
proof -
  have "api_step op (Some h) lib = Some ((rc, None), checkErrorAndSetLastProvider rc h (set_priv h pr q lib))"
    using call_op_eq [OF assms(2), of field f app rc q] assms(1,3-5) by simp
  then show ?thesis by (rule api_okI [OF _ provider_at_call [OF assms(3,6)] assms(7) only_changes_call])
qed

lemma api_rejected:
  assumes "provider_at lib h v" "api_step op (Some h) lib = Some ((rc, None), lib)" "heap_spec op (rc, None) v v"
  shows "api_ok op h lib v"
  using api_okI [OF assms(2,1,3) only_changes_refl] .

lemma api_free: "provider_at lib h v \<Longrightarrow> api_ok (Op_Free p n) h lib v"
proof (erule provider_atE)
  fix pr
  assume pr: "lib_providers lib h = Some pr" "pr_ops pr = full_ops ops" "inv (provider_priv pr) v"
  obtain f where f: "op_free ops = Some f" using valid by (auto simp: validateOps_def)
  obtain rc q v' where e: "f (provider_priv pr) p n = Some (rc, q)" "inv q v'" "heap_spec (Op_Free p n) (rc, None) v v'"
    using free_law [OF f pr(3)] by blast
  have step: "api_step (Op_Free p n) (Some h) lib =
      do { (rc, lib') \<leftarrow> call_op lib h op_free (\<lambda>f priv. f priv p n); Some ((rc, None), lib') }"
    by (simp add: umfMemoryProviderFree_def)
  show "api_ok (Op_Free p n) h lib v"
    by (rule api_call_op [where f = f, OF step pr(1,2) _ e]) (simp add: f)
qed

lemma api_split: "provider_at lib h v \<Longrightarrow> api_ok (Op_Split p t s) h lib v"
proof (cases "p = 0 \<or> \<not> (s \<noteq> 0 \<and> t \<noteq> 0) \<or> \<not> s < t")
  case True
  assume "provider_at lib h v"
  moreover have "umfMemoryProviderAllocationSplit (Some h) p t s lib = Some (UMF_RESULT_ERROR_INVALID_ARGUMENT, lib)"
    unfolding umfMemoryProviderAllocationSplit_def option.case(2) by (rule checks_fail(1) [OF True])
  then have "api_step (Op_Split p t s) (Some h) lib = Some ((UMF_RESULT_ERROR_INVALID_ARGUMENT, None), lib)" by simp
  ultimately show ?thesis by (rule api_rejected) simp
next
  case False
  assume "provider_at lib h v"
  then obtain pr where pr: "lib_providers lib h = Some pr" "pr_ops pr = full_ops ops" "inv (provider_priv pr) v"
    by (rule provider_atE)
  have step: "api_step (Op_Split p t s) (Some h) lib =
      do { (rc, lib') \<leftarrow> call_op lib h op_ext_allocation_split (\<lambda>f priv. f priv p t s); Some ((rc, None), lib') }"
    unfolding api_step.simps umfMemoryProviderAllocationSplit_def option.case(2) by (simp only: checks_fail(3) [OF False])
  show ?thesis
  proof (cases "op_ext_allocation_split ops")
    case None
    then show ?thesis
      by (intro api_call_op [OF step pr(1,2), of umfDefaultAllocationSplit UMF_RESULT_ERROR_NOT_SUPPORTED "provider_priv pr" v])
         (use pr(3) in \<open>simp_all add: umfDefaultAllocationSplit_def\<close>)
  next
    case (Some f)
    obtain rc q v' where e: "f (provider_priv pr) p t s = Some (rc, q)" "inv q v'" "heap_spec (Op_Split p t s) (rc, None) v v'"
      using split_law [OF Some pr(3)] by blast
    show ?thesis by (rule api_call_op [where f = f, OF step pr(1,2) _ e]) (simp add: Some)
  qed
qed

lemma api_merge: "provider_at lib h v \<Longrightarrow> api_ok (Op_Merge lo hi t) h lib v"
proof (cases "\<not> (lo \<noteq> 0 \<and> hi \<noteq> 0) \<or> t = 0 \<or> \<not> lo < hi \<or> \<not> hi - lo < t")
  case True
  assume "provider_at lib h v"
  moreover have "umfMemoryProviderAllocationMerge (Some h) lo hi t lib = Some (UMF_RESULT_ERROR_INVALID_ARGUMENT, lib)"
    unfolding umfMemoryProviderAllocationMerge_def option.case(2) by (rule checks_fail(2) [OF True])
  then have "api_step (Op_Merge lo hi t) (Some h) lib = Some ((UMF_RESULT_ERROR_INVALID_ARGUMENT, None), lib)" by simp
  ultimately show ?thesis by (rule api_rejected) simp
next
  case False
  assume "provider_at lib h v"
  then obtain pr where pr: "lib_providers lib h = Some pr" "pr_ops pr = full_ops ops" "inv (provider_priv pr) v"
    by (rule provider_atE)
  have step: "api_step (Op_Merge lo hi t) (Some h) lib =
      do { (rc, lib') \<leftarrow> call_op lib h op_ext_allocation_merge (\<lambda>f priv. f priv lo hi t); Some ((rc, None), lib') }"
    unfolding api_step.simps umfMemoryProviderAllocationMerge_def option.case(2) by (simp only: checks_fail(4) [OF False])
  show ?thesis
  proof (cases "op_ext_allocation_merge ops")
    case None
    then show ?thesis
      by (intro api_call_op [OF step pr(1,2), of umfDefaultAllocationMerge UMF_RESULT_ERROR_NOT_SUPPORTED "provider_priv pr" v])
         (use pr(3) in \<open>simp_all add: umfDefaultAllocationMerge_def\<close>)
  next
    case (Some f)
    obtain rc q v' where e: "f (provider_priv pr) lo hi t = Some (rc, q)" "inv q v'" "heap_spec (Op_Merge lo hi t) (rc, None) v v'"
      using merge_law [OF Some pr(3)] by blast
    show ?thesis by (rule api_call_op [where f = f, OF step pr(1,2) _ e]) (simp add: Some)
  qed
qed

lemma api_step_ok: "provider_at lib h v \<Longrightarrow> op_ok op \<Longrightarrow> api_ok op h lib v"
  using api_alloc api_free api_split api_merge by (cases op) simp_all

lemma api_run_ok:
  assumes "provider_at lib h v" "\<forall>op\<in>set calls. op_ok op"
  shows "\<exists>rs lib' v'. api_run calls (Some h) lib = Some (rs, lib') \<and> provider_at lib' h v' \<and>
    heap_specs calls rs v v' \<and> only_changes h lib lib'"
  using assms
proof (induction calls arbitrary: lib v)
  case (Cons op calls)
  obtain r lib1 v1 where s1: "api_step op (Some h) lib = Some (r, lib1)" "provider_at lib1 h v1" "heap_spec op r v v1"
    "only_changes h lib lib1"
    using api_step_ok [OF Cons.prems(1), of op] Cons.prems(2) by (auto simp: api_ok_def)
  obtain rs lib2 v2 where s2: "api_run calls (Some h) lib1 = Some (rs, lib2)" "provider_at lib2 h v2" "heap_specs calls rs v1 v2"
    "only_changes h lib1 lib2"
    using Cons.IH [OF s1(2)] Cons.prems(2) by auto
  have "heap_specs (op # calls) (r # rs) v v2" using s1(3) s2(3) by auto
  moreover have "only_changes h lib lib2" using s1(4) s2(4) by (rule only_changes_trans)
  moreover have "api_run (op # calls) (Some h) lib = Some (r # rs, lib2)" using s1(1) s2(1) by simp
  ultimately show ?case using s2(2) by blast
qed auto

lemma create_ok:
  assumes "op_initialize ops = Some f" "f params s = Some (UMF_RESULT_SUCCESS, Some p, s')" "inv p v"
    and "ba_global_alloc (lib_host lib) = (Some h, s)"
  shows "\<exists>lib'. umfMemoryProviderCreate (Some ops) params True lib = Some (UMF_RESULT_SUCCESS, Some h, lib') \<and>
    provider_at lib' h v \<and> (\<forall>h'. h' \<noteq> h \<longrightarrow> lib_providers lib' h' = lib_providers lib h') \<and>
    last_failed lib' = last_failed lib \<and> ba_destroyed lib' = ba_destroyed lib"
proof -
  obtain g where g: "op_get_name ops = Some g" using valid by (auto simp: validateOps_def)
  obtain rc nm p' where n: "g p = Some (rc, nm, p')" "inv p' v" using name_law [OF g assms(3)] by blast
  show ?thesis using assms valid g n
    by (simp add: umfMemoryProviderCreate_def provider_at_def Let_def flip: full_ops_def)
qed

lemma destroy_ok:
  assumes "provider_at lib h v" "\<not> ba_destroyed lib"
  shows "umfMemoryProviderDestroy (Some h) lib =
    Some (UMF_RESULT_SUCCESS, lib\<lparr>lib_providers := (lib_providers lib)(h := None)\<rparr>)"
proof -
  obtain g where g: "op_finalize ops = Some g" using valid by (auto simp: validateOps_def)
  show ?thesis using assms g finalize_law [OF g] by (auto simp: umfMemoryProviderDestroy_def elim!: provider_atE)
qed

end

end
