(* ===== verification/Fixed_Run.thy ===== *)
theory Fixed_Run
  imports Fixed_Provider Provider_Api
begin

text \<open>
  Sequences of client calls on the fixed provider. The contract is given on the list of
  live allocations (address and size); the lemmas show that the provider, down to the
  pointers of the coarse allocator and its trees, implements it for every sequence of
  calls with arbitrary arguments, valid or not.
\<close>

section \<open>Client calls\<close>

fun fixed_step :: "heap_op \<Rightarrow> fixed_memory_provider_t \<Rightarrow> (reply \<times> fixed_memory_provider_t) option" where
  "fixed_step (Op_Alloc n al) fp = do { (rc, r, fp') \<leftarrow> fixed_alloc fp n al; Some ((rc, r), fp') }"
| "fixed_step (Op_Free p n) fp = do { (rc, fp') \<leftarrow> fixed_free fp p n; Some ((rc, None), fp') }"
| "fixed_step (Op_Split p t f) fp = do { (rc, fp') \<leftarrow> fixed_allocation_split fp p t f; Some ((rc, None), fp') }"
| "fixed_step (Op_Merge lo hi t) fp = do { (rc, fp') \<leftarrow> fixed_allocation_merge fp lo hi t; Some ((rc, None), fp') }"

fun fixed_run :: "heap_op list \<Rightarrow> fixed_memory_provider_t \<Rightarrow> (reply list \<times> fixed_memory_provider_t) option" where
  "fixed_run [] fp = Some ([], fp)"
| "fixed_run (op # ops) fp = do {
     (r, fp1) \<leftarrow> fixed_step op fp;
     (rs, fp2) \<leftarrow> fixed_run ops fp1;
     Some (r # rs, fp2)
   }"

section \<open>The invariant\<close>

definition fixed_inv :: "fixed_memory_provider_t \<Rightarrow> ablk list \<Rightarrow> bool" where
  "fixed_inv fp bs \<longleftrightarrow>
     coarse_ok (fp_coarse fp) bs \<and> c_cb (fp_coarse fp) = cp_cb (fixed_coarse_params 0) \<and>
     all_bytes bs = {unat (fp_base fp) ..< unat (fp_base fp) + unat (fp_size fp)}"

definition stats_inv :: "fixed_memory_provider_t \<Rightarrow> bool" where
  "stats_inv fp \<longleftrightarrow>
     allocated_memory (fp_stats fp) = c_used_size (fp_coarse fp) \<and>
     allocated_memory (fp_stats fp) \<le> peak_memory (fp_stats fp)"

lemma fixed_cb_simps [simp]:
  "cb_alloc (cp_cb (fixed_coarse_params ps)) = None" "cb_free (cp_cb (fixed_coarse_params ps)) = None"
  "cb_split (cp_cb (fixed_coarse_params ps)) = Some fixed_allocation_split_cb"
  "cb_merge (cp_cb (fixed_coarse_params ps)) = Some fixed_allocation_merge_cb"
  by (simp_all add: fixed_coarse_params_def)

lemma fixed_cb_page_size: "cp_cb (fixed_coarse_params ps) = cp_cb (fixed_coarse_params 0)"
  by (simp add: fixed_coarse_params_def)

lemma fixed_inv_stays:
  assumes "fixed_inv fp bs" "stays_ok (fp_coarse fp) bs c' bs'"
  shows "fixed_inv (fp\<lparr>fp_coarse := c'\<rparr>) bs'"
  using assms by (simp add: fixed_inv_def stays_ok_def)

lemma fixed_inv_stats [simp]: "fixed_inv (fp\<lparr>fp_stats := st\<rparr>) bs = fixed_inv fp bs"
  by (simp add: fixed_inv_def)

lemma fixed_splits: "fixed_inv fp bs \<Longrightarrow> splits_ok (fp_coarse fp) \<and> cb_alloc (c_cb (fp_coarse fp)) = None"
  by (simp add: fixed_inv_def splits_ok_def fixed_allocation_split_cb_def)

lemma used_sizes: "(\<Sum>a\<leftarrow>bs. used_size a) = (\<Sum>x\<leftarrow>used_view bs. snd x)"
  by (induction bs) (simp_all add: used_view_def used_size_def)

lemma fixed_used_size: "fixed_inv fp bs \<Longrightarrow> c_used_size (fp_coarse fp) = (\<Sum>x\<leftarrow>used_view bs. snd x)"
  by (simp add: fixed_inv_def coarse_ok_def coarse_inv_def cinv_def used_sizes)

lemma used_member_le:
  assumes "fixed_inv fp bs" "(p, n) \<in> set (used_view bs)"
  shows "n \<le> c_used_size (fp_coarse fp)"
proof -
  obtain a where a: "a \<in> set bs" "ab_used a = Some True" "ab_size a = n"
    using assms(2) by (auto simp: used_view_def)
  have "blocks_wf bs" "c_used_size (fp_coarse fp) = (\<Sum>a\<leftarrow>bs. used_size a)"
    using assms(1) by (auto simp: fixed_inv_def coarse_ok_def coarse_inv_def cinv_def)
  then show ?thesis using used_block_le [OF _ a(1,2)] a(3) by simp
qed

section \<open>One call\<close>

definition step_ok :: "heap_op \<Rightarrow> fixed_memory_provider_t \<Rightarrow> ablk list \<Rightarrow> bool" where
  "step_ok op fp bs \<longleftrightarrow>
     (\<exists>r fp' bs'. fixed_step op fp = Some (r, fp') \<and> fixed_inv fp' bs' \<and>
        heap_spec op r (used_view bs) (used_view bs') \<and> fp_base fp' = fp_base fp \<and> fp_size fp' = fp_size fp \<and>
        (free_exact op \<longrightarrow> stats_inv fp \<longrightarrow> stats_inv fp'))"

lemma step_okI:
  assumes "fixed_step op fp = Some (r, fp')" "fixed_inv fp' bs'" "heap_spec op r (used_view bs) (used_view bs')"
    "fp_base fp' = fp_base fp" "fp_size fp' = fp_size fp" "free_exact op \<Longrightarrow> stats_inv fp \<Longrightarrow> stats_inv fp'"
  shows "step_ok op fp bs"
  unfolding step_ok_def using assms by blast

lemma alloc_step:
  assumes inv: "fixed_inv fp bs" and n: "n \<noteq> 0"
  shows "step_ok (Op_Alloc n al) fp bs"
proof -
  have ok: "coarse_ok (fp_coarse fp) bs" using inv by (simp add: fixed_inv_def)
  obtain rc r c' bs' where c: "coarse_alloc (fp_coarse fp) n al = Some (rc, r, c')" "stays_ok (fp_coarse fp) bs c' bs'"
    and e: "if rc = UMF_RESULT_SUCCESS
      then \<exists>p. r = Some p \<and> view_insert p n (used_view bs) (used_view bs') \<and> IS_ALIGNED p al \<and>
         c_used_size c' = c_used_size (fp_coarse fp) + n
      else bs' = bs \<and> c_used_size c' = c_used_size (fp_coarse fp)"
    using alloc_total [OF ok n fixed_splits [OF inv, THEN conjunct1] fixed_splits [OF inv, THEN conjunct2], of al] by blast
  note inv' = fixed_inv_stays [OF inv c(2)]
  let ?fp = "snd (snd (the (fixed_alloc fp n al)))"
  show ?thesis
  proof (cases "rc = UMF_RESULT_SUCCESS")
    case True
    then show ?thesis using c(1) e inv'
      by (intro step_okI [of _ _ "(rc, r)" ?fp bs']) (auto simp: fixed_alloc_def stats_alloc_eq stats_inv_def Let_def)
  next
    case False
    then show ?thesis using c(1) e inv'
      by (intro step_okI [of _ _ "(rc, r)" ?fp bs']) (auto simp: fixed_alloc_def stats_inv_def Let_def)
  qed
qed

lemma free_step:
  assumes inv: "fixed_inv fp bs"
  shows "step_ok (Op_Free p n) fp bs"
proof -
  have ok: "coarse_ok (fp_coarse fp) bs" using inv by (simp add: fixed_inv_def)
  obtain rc c' bs' where c: "coarse_free (fp_coarse fp) p n = Some (rc, c')" "stays_ok (fp_coarse fp) bs c' bs'"
    and e: "if rc = UMF_RESULT_SUCCESS \<and> p \<noteq> 0 then \<exists>m. view_insert p m (used_view bs') (used_view bs) \<and>
        c_used_size c' = c_used_size (fp_coarse fp) - m \<and> (n = 0 \<or> n = m)
      else bs' = bs \<and> c_used_size c' = c_used_size (fp_coarse fp)"
    using free_total [OF ok, of p n] by blast
  note inv' = fixed_inv_stays [OF inv c(2)]
  let ?fp = "snd (the (fixed_free fp p n))"
  have step: "fixed_free fp p n = Some (rc, ?fp)" using c(1) by (simp add: fixed_free_def Let_def)
  have stats: "stats_inv ?fp" if fe: "p \<noteq> 0" "n \<noteq> 0" and st: "stats_inv fp"
  proof (cases "rc = UMF_RESULT_SUCCESS")
    case True
    then have v: "view_insert p n (used_view bs') (used_view bs)" "c_used_size c' = c_used_size (fp_coarse fp) - n"
      using e fe by auto
    then have "(p, n) \<in> set (used_view bs)" by (auto simp: view_insert_def)
    note le = used_member_le [OF inv this]
    have "c_used_size (fp_coarse fp) - n \<le> c_used_size (fp_coarse fp)" using le by (rule word_sub_le)
    then show ?thesis using c(1) True v(2) st
      by (auto simp: fixed_free_def stats_inv_def stats_free_eq Let_def)
  next
    case False
    then show ?thesis using c(1) e st by (auto simp: fixed_free_def stats_inv_def Let_def)
  qed
  show ?thesis
    using step inv' e c(1) stats
    by (intro step_okI [of _ _ "(rc, None)" ?fp bs']) (auto simp: fixed_free_def Let_def)
qed

lemma split_step:
  assumes inv: "fixed_inv fp bs"
  shows "step_ok (Op_Split p t f) fp bs"
proof -
  have ok: "coarse_ok (fp_coarse fp) bs" using inv by (simp add: fixed_inv_def)
  obtain rc c' bs' where c: "coarse_split (fp_coarse fp) p t f = Some (rc, c')" "stays_ok (fp_coarse fp) bs c' bs'"
    "if rc = UMF_RESULT_SUCCESS then view_split p t f (used_view bs) (used_view bs') else bs' = bs"
    "c_used_size c' = c_used_size (fp_coarse fp)"
    using split_total [OF ok, of p t f] by blast
  show ?thesis using c(1,3,4) fixed_inv_stays [OF inv c(2)]
    by (intro step_okI [of _ _ "(rc, None)" "fp\<lparr>fp_coarse := c'\<rparr>" bs'])
       (auto simp: fixed_allocation_split_def stats_inv_def)
qed

lemma merge_step:
  assumes inv: "fixed_inv fp bs"
  shows "step_ok (Op_Merge lo hi t) fp bs"
proof -
  have ok: "coarse_ok (fp_coarse fp) bs" using inv by (simp add: fixed_inv_def)
  obtain rc c' bs' where c: "coarse_merge (fp_coarse fp) lo hi t = Some (rc, c')" "stays_ok (fp_coarse fp) bs c' bs'"
    "if rc = UMF_RESULT_SUCCESS then view_split lo t (hi - lo) (used_view bs') (used_view bs) else bs' = bs"
    "c_used_size c' = c_used_size (fp_coarse fp)"
    using merge_total [OF ok, of lo hi t] by blast
  show ?thesis using c(1,3,4) fixed_inv_stays [OF inv c(2)]
    by (intro step_okI [of _ _ "(rc, None)" "fp\<lparr>fp_coarse := c'\<rparr>" bs'])
       (auto simp: fixed_allocation_merge_def stats_inv_def)
qed

lemma fixed_step_ok: "fixed_inv fp bs \<Longrightarrow> op_ok op \<Longrightarrow> step_ok op fp bs"
  using alloc_step free_step split_step merge_step by (cases op) simp_all

section \<open>Sequences of calls\<close>

lemma fixed_run_ok:
  assumes "fixed_inv fp bs" "\<forall>op\<in>set ops. op_ok op"
  shows "\<exists>rs fp' bs'. fixed_run ops fp = Some (rs, fp') \<and> fixed_inv fp' bs' \<and>
    heap_specs ops rs (used_view bs) (used_view bs') \<and> fp_base fp' = fp_base fp \<and> fp_size fp' = fp_size fp \<and>
    ((\<forall>op\<in>set ops. free_exact op) \<longrightarrow> stats_inv fp \<longrightarrow> stats_inv fp')"
  using assms
proof (induction ops arbitrary: fp bs)
  case (Cons op ops)
  obtain r fp1 bs1 where s1: "fixed_step op fp = Some (r, fp1)" "fixed_inv fp1 bs1"
    "heap_spec op r (used_view bs) (used_view bs1)" "fp_base fp1 = fp_base fp" "fp_size fp1 = fp_size fp"
    "free_exact op \<Longrightarrow> stats_inv fp \<Longrightarrow> stats_inv fp1"
    using fixed_step_ok [OF Cons.prems(1), of op] Cons.prems(2) by (auto simp: step_ok_def)
  obtain rs fp2 bs2 where s2: "fixed_run ops fp1 = Some (rs, fp2)" "fixed_inv fp2 bs2"
    "heap_specs ops rs (used_view bs1) (used_view bs2)" "fp_base fp2 = fp_base fp1" "fp_size fp2 = fp_size fp1"
    "\<forall>op\<in>set ops. free_exact op \<Longrightarrow> stats_inv fp1 \<Longrightarrow> stats_inv fp2"
    using Cons.IH [OF s1(2)] Cons.prems(2) by auto
  have "heap_specs (op # ops) (r # rs) (used_view bs) (used_view bs2)" using s1(3) s2(3) by auto
  then show ?case using s1(1,4,5,6) s2(1,2,4,5,6)
    by (intro exI [of _ "r # rs"] exI [of _ fp2] exI [of _ bs2]) auto
qed auto

lemma fixed_inv_view:
  assumes "fixed_inv fp bs"
  shows "disjoint_view (used_view bs)"
    "(p, n) \<in> set (used_view bs) \<Longrightarrow> n \<noteq> 0 \<and> unat (fp_base fp) \<le> unat p \<and>
       unat p + unat n \<le> unat (fp_base fp) + unat (fp_size fp)"
proof -
  have wf: "blocks_wf bs" using assms by (simp add: fixed_inv_def coarse_ok_def coarse_inv_def cinv_def)
  then show "disjoint_view (used_view bs)" by (rule used_view_disjoint)
  show "n \<noteq> 0 \<and> unat (fp_base fp) \<le> unat p \<and> unat p + unat n \<le> unat (fp_base fp) + unat (fp_size fp)"
    if m: "(p, n) \<in> set (used_view bs)"
  proof -
    obtain a where a: "a \<in> set bs" "ab_data a = p" "ab_size a = n" using m by (auto simp: used_view_def)
    have "block_bytes a \<subseteq> {unat (fp_base fp) ..< unat (fp_base fp) + unat (fp_size fp)}"
      using assms a(1) by (auto simp: fixed_inv_def all_bytes_def)
    moreover have "n \<noteq> 0" using wf a by (auto simp: blocks_wf_def)
    moreover have "0 < unat n" using calculation(2) by (simp add: unat_gt_0)
    ultimately show ?thesis using a by (simp add: block_bytes_def atLeastLessThan_subset_iff)
  qed
qed

section \<open>From initialisation to finalisation\<close>

lemma fixed_initialize_ok:
  assumes "oom s = []" "lock_fail s = []" "IS_POWER_OF_2 page_size" "pp_ptr ps \<noteq> 0" "pp_size ps \<noteq> 0"
    and "unat (pp_ptr ps) + unat (pp_size ps) \<le> 2 ^ 64"
  shows "\<exists>fp h bs. fixed_initialize page_size (Some ps) s = Some (UMF_RESULT_SUCCESS, Some fp, h) \<and> fixed_inv fp bs \<and>
    used_view bs = [] \<and> stats_inv fp \<and> fp_base fp = pp_ptr ps \<and> fp_size fp = pp_size ps"
proof -
  let ?s = "s\<lparr>next_id := Suc (next_id s)\<rparr>" and ?ps = "fixed_coarse_params page_size"
  have a: "ba_global_alloc s = (Some (next_id s), ?s)" using assms(1) by (rule ba_global_alloc_no_oom)
  have "fst (mutex_init ?s)" using assms(2) by (simp add: mutex_init_def mutex_lock_def)
  moreover have "page_size \<noteq> 0" using assms(3) by (simp add: IS_POWER_OF_2_def)
  ultimately obtain c s' where n: "coarse_new (Some ?ps) ?s = Some (UMF_RESULT_SUCCESS, Some c, s')" "coarse_inv c []"
    "c_cb c = cp_cb ?ps" "c_page_size c = page_size" "oom (c_host c) = []" "lock_fail (c_host c) = tl (lock_fail ?s)"
    using coarse_new_Some [of ?s ?ps "()"] assms(1) by (auto simp: fixed_coarse_params_def)
  have ok: "coarse_ok c []" using n assms(3) by (simp add: coarse_ok_def)
  have lf: "lock_fail (c_host c) = []" using n(6) assms(2) by simp
  obtain c' bs' where f: "coarse_add_memory_fixed c (pp_ptr ps) (pp_size ps) = Some (UMF_RESULT_SUCCESS, c')"
    "coarse_ok c' bs'" "used_view bs' = used_view []"
    "all_bytes bs' = all_bytes [] \<union> {unat (pp_ptr ps) ..< unat (pp_ptr ps) + unat (pp_size ps)}"
    "c_used_size c' = c_used_size c" "c_cb c' = c_cb c"
    using add_fixed_ok [OF ok lf assms(4,5) _ _ assms(6)] n(3) by (auto simp: all_bytes_def)
  have u: "c_used_size c' = 0" using f(5) n(2) by (simp add: coarse_inv_def cinv_def)
  let ?fp = "\<lparr>fp_base = pp_ptr ps, fp_size = pp_size ps, fp_coarse = c', fp_stats = \<lparr>allocated_memory = 0, peak_memory = 0\<rparr>,
      fp_name = take 63 (pp_name ps)\<rparr>"
  have "fixed_initialize page_size (Some ps) s = Some (UMF_RESULT_SUCCESS, Some ?fp, c_host c')"
    using a n(1) f(1) by (simp add: fixed_initialize_def)
  moreover have "fixed_inv ?fp bs'"
    using f(2,4,6) n(3) fixed_cb_page_size [of page_size] by (simp add: fixed_inv_def all_bytes_def)
  moreover have "stats_inv ?fp" "used_view bs' = []" using u f(3) by (simp_all add: stats_inv_def used_view_def)
  ultimately show ?thesis by fastforce
qed


definition demo_host :: host where
  "demo_host = \<lparr>next_id = 0, oom = [], lock_fail = []\<rparr>"

definition demo_params :: umf_fixed_memory_provider_params_t where
  "demo_params = \<lparr>pp_ptr = 0x10000, pp_size = 0x8000, pp_name = ''demo''\<rparr>"

lemma demo_params_ok:
  "oom demo_host = []" "lock_fail demo_host = []" "IS_POWER_OF_2 0x1000" "pp_ptr demo_params \<noteq> 0" "pp_size demo_params \<noteq> 0"
  "unat (pp_ptr demo_params) + unat (pp_size demo_params) \<le> 2 ^ 64"
  by (simp_all add: demo_host_def demo_params_def IS_POWER_OF_2_def)




text \<open>
  C28. A free of the null pointer succeeds and changes no allocation, but it subtracts the
  size that the caller passed from \<open>allocated_memory\<close>, which wraps around when nothing is
  allocated.
\<close>

theorem fixed_free_null_counts:
  "fixed_free fp 0 n =
     Some (UMF_RESULT_SUCCESS,
       fp\<lparr>fp_stats := (fp_stats fp)\<lparr>allocated_memory := allocated_memory (fp_stats fp) - n\<rparr>\<rparr>)"
  by (simp add: fixed_free_def coarse_free_def stats_free_eq)

section \<open>Through the public interface\<close>

definition fixed_view :: "fixed_priv \<Rightarrow> view \<Rightarrow> bool" where
  "fixed_view p v \<longleftrightarrow> (\<exists>bs. fixed_inv (fst p) bs \<and> used_view bs = v)"

lemma fixed_step_view:
  assumes "fixed_view p v" "op_ok op"
  shows "\<exists>r fp v'. fixed_step op (fst p) = Some (r, fp) \<and> fixed_view (fp, tls) v' \<and> heap_spec op r v v'"
  using assms fixed_step_ok [of "fst p" _ op] unfolding fixed_view_def step_ok_def by fastforce

interpretation fixed_mp: memory_provider "umfFixedMemoryProviderOps env ctl" fixed_view for env ctl
proof (unfold_locales, goal_cases)
  case 1
  show ?case by (simp add: validateOps_def umfFixedMemoryProviderOps_def)
next
  case (2 f p v n al)
  then show ?case using fixed_step_view [of p v "Op_Alloc n al" "snd p"]
    by (auto simp: umfFixedMemoryProviderOps_def case_prod_beta simp del: heap_spec.simps split: Option.bind_splits)
next
  case (3 f p v a n)
  then show ?case using fixed_step_view [of p v "Op_Free a n" "snd p"]
    by (auto simp: umfFixedMemoryProviderOps_def case_prod_beta simp del: heap_spec.simps split: Option.bind_splits)
next
  case (4 f p v a t s)
  then show ?case using fixed_step_view [of p v "Op_Split a t s" "snd p"]
    by (auto simp: umfFixedMemoryProviderOps_def case_prod_beta simp del: heap_spec.simps split: Option.bind_splits)
next
  case (5 f p v lo hi t)
  then show ?case using fixed_step_view [of p v "Op_Merge lo hi t" "snd p"]
    by (auto simp: umfFixedMemoryProviderOps_def case_prod_beta simp del: heap_spec.simps split: Option.bind_splits)
next
  case (6 f p v)
  then show ?case by (cases p) (auto simp: umfFixedMemoryProviderOps_def fixed_get_name_def)
next
  case (7 f p v)
  then obtain bs where "coarse_inv (fp_coarse (fst p)) bs" by (auto simp: fixed_view_def fixed_inv_def coarse_ok_def)
  then show ?case using 7(1) coarse_delete_ok [of "fp_coarse (fst p)" bs]
    by (auto simp: umfFixedMemoryProviderOps_def fixed_finalize_def case_prod_beta)
qed

lemma fixed_op_initialize:
  "fixed_initialize (env_page_size env) params s = Some (rc, Some fp, s') \<Longrightarrow>
   \<exists>f. op_initialize (umfFixedMemoryProviderOps env ctl) = Some f \<and> f params s = Some (rc, Some (fp, TLS_initial), s')"
  by (simp add: umfFixedMemoryProviderOps_def)


definition demo_lib :: "(umf_fixed_memory_provider_params_t option, fixed_priv) umf_lib" where
  "demo_lib = \<lparr>lib_providers = Map.empty, last_failed = None, lib_host = demo_host, ba_destroyed = False\<rparr>"

definition demo_env :: process_env where
  "demo_env = \<lparr>env_page_size = 0x1000, env_madvise = \<lambda>_ _ _. (0, 0), env_strerror_r = \<lambda>_ _. None\<rparr>"


section \<open>Native errors\<close>

text \<open>
  C29. A thread that asks for the last native error of a fixed provider before any error was
  stored reads the table of messages far outside its bounds; after a failed purge the
  message is the text of that error, with the description of the system appended.
\<close>

theorem fixed_native_error_read:
  "fixed_get_last_native_error strerror_r True True TLS_initial = None \<and>
   (fst (madvise p n 4) \<noteq> 0 \<longrightarrow>
     (\<exists>tls. fixed_purge_force madvise p n TLS_initial = (UMF_RESULT_ERROR_MEMORY_PROVIDER_SPECIFIC, tls) \<and>
        (\<exists>tls'. fixed_get_last_native_error strerror_r True True tls =
          Some (UMF_RESULT_SUCCESS,
            (if snd (madvise p n 4) = 0 then ''force purging failed''
             else ''force purging failed: '' @ (case strerror_r (snd (madvise p n 4)) 1002 of None \<Rightarrow> [] | Some t \<Rightarrow> t)),
            4001, tls'))))"
  by (cases "madvise p n 4")
     (simp add: fixed_get_last_native_error_def TLS_initial_def native_error_text_def Native_error_str_def
        fixed_purge_force_def utils_purge_def utils_translate_purge_advise_def fixed_store_last_native_error_def
        utils_strerror_def TLS_MSG_BUF_LEN_def Let_def)

theorem fixed_native_error_read_witness:
  "fst (fixed_purge_force (\<lambda>_ _ _. (- 1, 12)) 0x1000 8 TLS_initial) = UMF_RESULT_ERROR_MEMORY_PROVIDER_SPECIFIC \<and>
   fixed_get_last_native_error (\<lambda>_ _. Some ''Cannot allocate memory'') True True TLS_initial = None"
  using fixed_native_error_read [of "\<lambda>_ _. Some ''Cannot allocate memory''" "\<lambda>_ _ _. (- 1, 12)" "0x1000" 8] by auto

end
