(* ===== verification/Critnib.thy ===== *)
theory Critnib
  imports Utils Concurrency
begin

text \<open>
  The critnib tree of \<^verbatim>\<open>src/critnib/critnib.c\<close>: a map from 64-bit keys to values, a radix
  tree over 4-bit slices of the key in which nodes with a single child are left out. The
  model follows the pointer structure: heaps of nodes and leaves, tagged pointers, in-place
  stores, the pools of deleted nodes and leaves, the ring of removals that are not yet
  eligible for reuse, and the reference counts of leaves. It is the code of one thread at a
  time; the loops that retry after interference are kept. A null \<open>critnib\<close> pointer, which the
  queries answer with "not found", is left to the callers. \<open>'v\<close> is the type of the values
  and \<open>'s\<close> the state of the allocator of leaf values.
\<close>

section \<open>Data\<close>

definition DELETED_LIFE :: u64 where "DELETED_LIFE = 16"
definition NIB :: u64 where "NIB = 15"
definition SLNODES :: nat where "SLNODES = 16"
definition LEAF_VALID :: u64 where "LEAF_VALID = 2"

text \<open>The low bit of a child pointer tells leaves from nodes.\<close>

datatype tagged = Node_Ptr ptr | Leaf_Ptr ptr

record critnib_node =
  n_child :: "tagged option list"
  n_path :: u64
  n_shift :: nat

record 'v critnib_leaf =
  k_key :: u64
  k_value :: "'v option"
  k_to_be_freed :: "'v option"
  k_pending :: bool
  k_next :: ref
  k_ref_count :: u64

record ('v, 's) critnib =
  cr_root :: "tagged option"
  cr_cb :: "('s \<Rightarrow> 'v \<Rightarrow> 's) option"
  cr_alloc :: 's
  cr_deleted_node :: ref
  cr_deleted_leaf :: ref
  cr_pending_nodes :: "ref list"
  cr_pending_leaves :: "ref list"
  cr_remove_count :: u64
  cr_nodes :: "critnib_node heap"
  cr_leaves :: "'v critnib_leaf heap"
  cr_host :: host

definition is_leaf :: "tagged \<Rightarrow> bool" where
  "is_leaf n = (case n of Leaf_Ptr _ \<Rightarrow> True | Node_Ptr _ \<Rightarrow> False)"

definition path_mask :: "nat \<Rightarrow> u64" where
  "path_mask sh = push_bit sh (NOT NIB)"

definition slice_index :: "u64 \<Rightarrow> nat \<Rightarrow> nat" where
  "slice_index key sh = unat (drop_bit sh key AND NIB)"

definition upd_node :: "(critnib_node \<Rightarrow> critnib_node) \<Rightarrow> ptr \<Rightarrow> ('v, 's) critnib \<Rightarrow> ('v, 's) critnib option" where
  "upd_node f a c = do { nd \<leftarrow> cr_nodes c a; Some (c\<lparr>cr_nodes := (cr_nodes c)(a \<mapsto> f nd)\<rparr>) }"

definition upd_leaf :: "('v critnib_leaf \<Rightarrow> 'v critnib_leaf) \<Rightarrow> ptr \<Rightarrow> ('v, 's) critnib \<Rightarrow> ('v, 's) critnib option" where
  "upd_leaf f k c = do { lf \<leftarrow> cr_leaves c k; Some (c\<lparr>cr_leaves := (cr_leaves c)(k \<mapsto> f lf)\<rparr>) }"

text \<open>The places that hold a child pointer: the root field, or an entry of a node.\<close>

datatype slot = Root_Slot | Child_Slot ptr nat

definition store_slot :: "slot \<Rightarrow> tagged option \<Rightarrow> ('v, 's) critnib \<Rightarrow> ('v, 's) critnib option" where
  "store_slot sl n c =
     (case sl of
        Root_Slot \<Rightarrow> Some (c\<lparr>cr_root := n\<rparr>)
      | Child_Slot a i \<Rightarrow> upd_node (\<lambda>nd. nd\<lparr>n_child := (n_child nd)[i := n]\<rparr>) a c)"

section \<open>Creation and destruction\<close>

definition critnib_new :: "('s \<Rightarrow> 'v \<Rightarrow> 's) option \<Rightarrow> 's \<Rightarrow> host \<Rightarrow> ('v, 's) critnib option \<times> host" where
  "critnib_new cb_free_leaf leaf_allocator s =
     (case ba_global_alloc s of
        (None, s1) \<Rightarrow> (None, s1)
      | (Some _, s1) \<Rightarrow>
         (case mutex_init s1 of
            (False, s2) \<Rightarrow> (None, s2)
          | (True, s2) \<Rightarrow>
              (Some \<lparr>cr_root = None, cr_cb = cb_free_leaf, cr_alloc = leaf_allocator, cr_deleted_node = None,
                     cr_deleted_leaf = None, cr_pending_nodes = replicate 16 None, cr_pending_leaves = replicate 16 None,
                     cr_remove_count = 0, cr_nodes = Map.empty, cr_leaves = Map.empty, cr_host = s2\<rparr>, s2)))"

text \<open>\<^verbatim>\<open>umf_ba_global_free\<close>: nothing for a null pointer, undefined for an object that is not live.\<close>

definition ba_free_node :: "ref \<Rightarrow> ('v, 's) critnib \<Rightarrow> ('v, 's) critnib option" where
  "ba_free_node p c =
     (case p of
        None \<Rightarrow> Some c
      | Some a \<Rightarrow> if cr_nodes c a = None then None else Some (c\<lparr>cr_nodes := (cr_nodes c)(a := None)\<rparr>))"

definition ba_free_leaf :: "ref \<Rightarrow> ('v, 's) critnib \<Rightarrow> ('v, 's) critnib option" where
  "ba_free_leaf p c =
     (case p of
        None \<Rightarrow> Some c
      | Some k \<Rightarrow> if cr_leaves c k = None then None else Some (c\<lparr>cr_leaves := (cr_leaves c)(k := None)\<rparr>))"

text \<open>The value of a leaf is handed to the callback, if there is one.\<close>

definition free_value :: "'v critnib_leaf \<Rightarrow> ('v, 's) critnib \<Rightarrow> ('v, 's) critnib" where
  "free_value lf c =
     (case cr_cb c of
        None \<Rightarrow> c
      | Some cb \<Rightarrow>
         (case k_value lf of
            Some v \<Rightarrow> c\<lparr>cr_alloc := cb (cr_alloc c) v\<rparr>
          | None \<Rightarrow>
             (case k_to_be_freed lf of
                Some v \<Rightarrow> c\<lparr>cr_alloc := cb (cr_alloc c) v\<rparr>
              | None \<Rightarrow> c)))"

fun fold_opt :: "('a \<Rightarrow> 'b \<Rightarrow> 'b option) \<Rightarrow> 'a list \<Rightarrow> 'b \<Rightarrow> 'b option" where
  "fold_opt f [] s = Some s"
| "fold_opt f (x # xs) s = do { s1 \<leftarrow> f x s; fold_opt f xs s1 }"

text \<open>The recursion over a subtree; the first argument bounds its depth.\<close>

primrec delete_node :: "nat \<Rightarrow> tagged \<Rightarrow> ('v, 's) critnib \<Rightarrow> ('v, 's) critnib option" where
  "delete_node 0 n c = None"
| "delete_node (Suc d) n c =
     (case n of
        Leaf_Ptr k \<Rightarrow> do {
          lf \<leftarrow> cr_leaves c k;
          ba_free_leaf (Some k) (free_value lf c)
        }
      | Node_Ptr a \<Rightarrow> do {
          nd \<leftarrow> cr_nodes c a;
          c1 \<leftarrow> fold_opt (\<lambda>ch c. case ch of None \<Rightarrow> Some c | Some m \<Rightarrow> delete_node d m c) (n_child nd) c;
          ba_free_node (Some a) c1
        })"

partial_function (option) delete_node_pool :: "ref \<Rightarrow> ('v, 's) critnib \<Rightarrow> ('v, 's) critnib option" where
  "delete_node_pool m c =
     (case m of
        None \<Rightarrow> Some c
      | Some a \<Rightarrow> do {
          nd \<leftarrow> cr_nodes c a;
          mm \<leftarrow> (case n_child nd ! 0 of None \<Rightarrow> Some None | Some (Node_Ptr b) \<Rightarrow> Some (Some b) | Some (Leaf_Ptr _) \<Rightarrow> None);
          c1 \<leftarrow> ba_free_node (Some a) c;
          delete_node_pool mm c1
        })"

partial_function (option) delete_leaf_pool :: "ref \<Rightarrow> ('v, 's) critnib \<Rightarrow> ('v, 's) critnib option" where
  "delete_leaf_pool k c =
     (case k of
        None \<Rightarrow> Some c
      | Some a \<Rightarrow> do {
          lf \<leftarrow> cr_leaves c a;
          c1 \<leftarrow> ba_free_leaf (Some a) c;
          delete_leaf_pool (k_next lf) c1
        })"

definition delete_pending :: "nat \<Rightarrow> ('v, 's) critnib \<Rightarrow> ('v, 's) critnib option" where
  "delete_pending i c = do {
     c1 \<leftarrow> ba_free_node (cr_pending_nodes c ! i) c;
     c2 \<leftarrow> (case cr_pending_leaves c1 ! i of
              None \<Rightarrow> Some c1
            | Some k \<Rightarrow> do { lf \<leftarrow> cr_leaves c1 k; Some (free_value lf c1) });
     ba_free_leaf (cr_pending_leaves c2 ! i) c2
   }"

definition critnib_delete :: "('v, 's) critnib \<Rightarrow> ('v, 's) critnib option" where
  "critnib_delete c = do {
     c1 \<leftarrow> (case cr_root c of None \<Rightarrow> Some c | Some n \<Rightarrow> delete_node 17 n c);
     c2 \<leftarrow> delete_node_pool (cr_deleted_node c1) c1;
     c3 \<leftarrow> delete_leaf_pool (cr_deleted_leaf c2) c2;
     fold_opt delete_pending [0..<16] c3
   }"

section \<open>Pools of nodes and leaves\<close>

definition free_node :: "ref \<Rightarrow> ('v, 's) critnib \<Rightarrow> ('v, 's) critnib option" where
  "free_node n c =
     (case n of
        None \<Rightarrow> Some c
      | Some a \<Rightarrow> do {
          c1 \<leftarrow> upd_node (\<lambda>nd. nd\<lparr>n_child := (n_child nd)[0 := map_option Node_Ptr (cr_deleted_node c)]\<rparr>) a c;
          Some (c1\<lparr>cr_deleted_node := Some a\<rparr>)
        })"

text \<open>Memory from the host allocator is not initialised; the callers store every field they read.\<close>

definition blank_node :: critnib_node where
  "blank_node = \<lparr>n_child = replicate 16 None, n_path = 0, n_shift = 0\<rparr>"

definition blank_leaf :: "'v critnib_leaf" where
  "blank_leaf = \<lparr>k_key = 0, k_value = None, k_to_be_freed = None, k_pending = False, k_next = None, k_ref_count = 0\<rparr>"

definition alloc_node :: "('v, 's) critnib \<Rightarrow> (ref \<times> ('v, 's) critnib) option" where
  "alloc_node c =
     (case cr_deleted_node c of
        None \<Rightarrow>
         (case ba_global_alloc (cr_host c) of
            (None, s) \<Rightarrow> Some (None, c\<lparr>cr_host := s\<rparr>)
          | (Some a, s) \<Rightarrow> Some (Some a, c\<lparr>cr_host := s, cr_nodes := (cr_nodes c)(a \<mapsto> blank_node)\<rparr>))
      | Some a \<Rightarrow> do {
          nd \<leftarrow> cr_nodes c a;
          nx \<leftarrow> (case n_child nd ! 0 of None \<Rightarrow> Some None | Some (Node_Ptr b) \<Rightarrow> Some (Some b) | Some (Leaf_Ptr _) \<Rightarrow> None);
          Some (Some a, c\<lparr>cr_deleted_node := nx\<rparr>)
        })"

partial_function (option) push_leaf_loop :: "ptr \<Rightarrow> ('v, 's) critnib \<Rightarrow> ('v, 's) critnib option" where
  "push_leaf_loop k c = do {
     lf \<leftarrow> cr_leaves c k;
     if cr_deleted_leaf c = k_next lf then Some (c\<lparr>cr_deleted_leaf := Some k\<rparr>)
     else push_leaf_loop k (c\<lparr>cr_leaves := (cr_leaves c)(k \<mapsto> lf\<lparr>k_next := cr_deleted_leaf c\<rparr>)\<rparr>)
   }"

definition add_to_deleted_leaf_list :: "ptr \<Rightarrow> ('v, 's) critnib \<Rightarrow> ('v, 's) critnib option" where
  "add_to_deleted_leaf_list k c = do {
     c1 \<leftarrow> upd_leaf (\<lambda>lf. lf\<lparr>k_next := cr_deleted_leaf c\<rparr>) k c;
     push_leaf_loop k c1
   }"

definition free_leaf :: "ref \<Rightarrow> ('v, 's) critnib \<Rightarrow> ('v, 's) critnib option" where
  "free_leaf p c =
     (case p of
        None \<Rightarrow> Some c
      | Some k \<Rightarrow> do {
          c1 \<leftarrow> upd_leaf (\<lambda>lf. lf\<lparr>k_pending := True\<rparr>) k c;
          lf \<leftarrow> cr_leaves c1 k;
          if cr_cb c1 \<noteq> None \<and> k_ref_count lf > 0 then Some c1
          else if k_pending lf then do {
            c2 \<leftarrow> upd_leaf (\<lambda>lf. lf\<lparr>k_pending := False\<rparr>) k c1;
            add_to_deleted_leaf_list k c2
          }
          else Some c1
        })"

partial_function (option) pop_leaf_loop :: "ref \<Rightarrow> ('v, 's) critnib \<Rightarrow> (ref \<times> ('v, 's) critnib) option" where
  "pop_leaf_loop k c =
     (case k of
        None \<Rightarrow>
         (case ba_global_alloc (cr_host c) of
            (None, s) \<Rightarrow> Some (None, c\<lparr>cr_host := s\<rparr>)
          | (Some a, s) \<Rightarrow> Some (Some a, c\<lparr>cr_host := s, cr_leaves := (cr_leaves c)(a \<mapsto> blank_leaf)\<rparr>))
      | Some a \<Rightarrow> do {
          lf \<leftarrow> cr_leaves c a;
          if cr_deleted_leaf c = Some a then Some (Some a, c\<lparr>cr_deleted_leaf := k_next lf\<rparr>)
          else pop_leaf_loop (cr_deleted_leaf c) c
        })"

definition alloc_leaf :: "('v, 's) critnib \<Rightarrow> (ref \<times> ('v, 's) critnib) option" where
  "alloc_leaf c = pop_leaf_loop (cr_deleted_leaf c) c"

section \<open>Insertion\<close>

definition EEXIST :: int where "EEXIST = 17"
definition ENOMEM :: int where "ENOMEM = 12"

partial_function (option) insert_walk ::
  "critnib_node heap \<Rightarrow> u64 \<Rightarrow> tagged option \<Rightarrow> slot \<Rightarrow> tagged option \<Rightarrow> (tagged option \<times> slot \<times> tagged option) option" where
  "insert_walk nodes key prev parent n =
     (case n of
        Some (Node_Ptr a) \<Rightarrow> do {
          nd \<leftarrow> nodes a;
          if key AND path_mask (n_shift nd) = n_path nd then
            insert_walk nodes key n (Child_Slot a (slice_index key (n_shift nd)))
              (n_child nd ! slice_index key (n_shift nd))
          else Some (prev, parent, n)
        }
      | _ \<Rightarrow> Some (prev, parent, n))"

text \<open>A leaf that could not be linked goes back to the pool.\<close>

definition discard_leaf :: "ptr \<Rightarrow> ('v, 's) critnib \<Rightarrow> ('v, 's) critnib option" where
  "discard_leaf k c = do {
     c1 \<leftarrow> (if cr_cb c \<noteq> None then upd_leaf (\<lambda>lf. lf\<lparr>k_ref_count := 0\<rparr>) k c else Some c);
     free_leaf (Some k) c1
   }"

definition insert_beside ::
  "ptr \<Rightarrow> u64 \<Rightarrow> u64 \<Rightarrow> slot \<Rightarrow> tagged \<Rightarrow> ('v, 's) critnib \<Rightarrow> (int \<times> ('v, 's) critnib) option" where
  "insert_beside k key path parent n c = do {
     msb \<leftarrow> utils_msb64 (path XOR key);
     let sh = msb AND 252;
     (m, c1) \<leftarrow> alloc_node c;
     (case m of
        None \<Rightarrow> do { c2 \<leftarrow> discard_leaf k c1; Some (ENOMEM, c2) }
      | Some a \<Rightarrow> do {
          c2 \<leftarrow> upd_node (\<lambda>_. \<lparr>n_child = (replicate 16 None)[slice_index key sh := Some (Leaf_Ptr k), slice_index path sh := Some n],
                              n_path = key AND path_mask sh, n_shift = sh\<rparr>) a c1;
          c3 \<leftarrow> store_slot parent (Some (Node_Ptr a)) c2;
          Some (0, c3)
        })
   }"

text \<open>The leaf \<open>k\<close> is filled in; it is linked, or given back when the key is there already.\<close>

definition link_leaf :: "ptr \<Rightarrow> u64 \<Rightarrow> 'v option \<Rightarrow> bool \<Rightarrow> ('v, 's) critnib \<Rightarrow> (int \<times> ('v, 's) critnib) option" where
  "link_leaf k key val update c =
     (case cr_root c of
        None \<Rightarrow> Some (0, c\<lparr>cr_root := Some (Leaf_Ptr k)\<rparr>)
      | Some _ \<Rightarrow> do {
          (prev, parent, n) \<leftarrow> insert_walk (cr_nodes c) key (cr_root c) Root_Slot (cr_root c);
          (case n of
             None \<Rightarrow> (case prev of
                 Some (Node_Ptr a) \<Rightarrow> do {
                   nd \<leftarrow> cr_nodes c a;
                   c2 \<leftarrow> store_slot (Child_Slot a (slice_index key (n_shift nd))) (Some (Leaf_Ptr k)) c;
                   Some (0, c2)
                 }
               | _ \<Rightarrow> None)
           | Some t \<Rightarrow> do {
               path \<leftarrow> (case t of
                   Leaf_Ptr q \<Rightarrow> do { lf \<leftarrow> cr_leaves c q; Some (k_key lf) }
                 | Node_Ptr a \<Rightarrow> do { nd \<leftarrow> cr_nodes c a; Some (n_path nd) });
               if path XOR key = 0 then
                (case t of
                   Node_Ptr _ \<Rightarrow> None
                 | Leaf_Ptr q \<Rightarrow> do {
                     c2 \<leftarrow> discard_leaf k c;
                     if update then do {
                       c3 \<leftarrow> upd_leaf (\<lambda>lf. lf\<lparr>k_value := val\<rparr>) q c2;
                       Some (0, c3)
                     }
                     else Some (EEXIST, c2)
                   })
               else insert_beside k key path parent t c
             })
        })"

definition critnib_insert :: "('v, 's) critnib \<Rightarrow> u64 \<Rightarrow> 'v option \<Rightarrow> bool \<Rightarrow> (int \<times> ('v, 's) critnib) option" where
  "critnib_insert c0 key val update = do {
     (k, c) \<leftarrow> alloc_leaf c0;
     (case k of
        None \<Rightarrow> Some (ENOMEM, c)
      | Some k \<Rightarrow> do {
          c1 \<leftarrow> upd_leaf (\<lambda>lf. lf\<lparr>k_to_be_freed := None, k_key := key, k_value := val, k_pending := False,
                                 k_ref_count := if cr_cb c \<noteq> None then LEAF_VALID else 0\<rparr>) k c;
          link_leaf k key val update c1
        })
   }"

section \<open>Removal\<close>

partial_function (option) remove_walk ::
  "critnib_node heap \<Rightarrow> u64 \<Rightarrow> slot \<Rightarrow> slot \<Rightarrow> ptr \<Rightarrow> tagged \<Rightarrow> (ptr \<times> slot \<times> ptr) option option" where
  "remove_walk nodes key n_parent k_parent n kn =
     (case kn of
        Leaf_Ptr k \<Rightarrow> Some (Some (n, n_parent, k))
      | Node_Ptr a \<Rightarrow> do {
          nd \<leftarrow> nodes a;
          (case n_child nd ! slice_index key (n_shift nd) of
             None \<Rightarrow> Some None
           | Some t \<Rightarrow> remove_walk nodes key k_parent (Child_Slot a (slice_index key (n_shift nd))) a t)
        })"

definition del_leaf :: "ptr \<Rightarrow> nat \<Rightarrow> ('v, 's) critnib \<Rightarrow> ('v option \<times> ref \<times> ('v, 's) critnib) option" where
  "del_leaf k del c = do {
     lf \<leftarrow> cr_leaves c k;
     c1 \<leftarrow> (if cr_cb c \<noteq> None then upd_leaf (\<lambda>lf. lf\<lparr>k_to_be_freed := k_value lf, k_value := None\<rparr>) k c else Some c);
     Some (k_value lf, if cr_cb c \<noteq> None then Some k else None,
           c1\<lparr>cr_pending_leaves := (cr_pending_leaves c1)[del := Some k]\<rparr>)
   }"

text \<open>The ring entry of this removal: what was put there 16 removals ago can be reused.\<close>

definition recycle :: "nat \<Rightarrow> ('v, 's) critnib \<Rightarrow> ('v, 's) critnib option" where
  "recycle del c = do {
     c1 \<leftarrow> free_node (cr_pending_nodes c ! del) c;
     c2 \<leftarrow> free_leaf (cr_pending_leaves c1 ! del) c1;
     Some (c2\<lparr>cr_pending_nodes := (cr_pending_nodes c2)[del := None],
              cr_pending_leaves := (cr_pending_leaves c2)[del := None]\<rparr>)
   }"

text \<open>
  The leaf \<open>k\<close> below the node \<open>b\<close> is unlinked; a node that is left with a single child is
  replaced by that child in the slot \<open>n_parent\<close>.
\<close>

definition unlink_leaf ::
  "ptr \<Rightarrow> slot \<Rightarrow> ptr \<Rightarrow> u64 \<Rightarrow> nat \<Rightarrow> ('v, 's) critnib \<Rightarrow> ('v option \<times> ref \<times> ('v, 's) critnib) option" where
  "unlink_leaf b n_parent k key del c = do {
     nd \<leftarrow> cr_nodes c b;
     c2 \<leftarrow> store_slot (Child_Slot b (slice_index key (n_shift nd))) None c;
     nd2 \<leftarrow> cr_nodes c2 b;
     (case filter (\<lambda>i. n_child nd2 ! i \<noteq> None) [0..<16] of
        [] \<Rightarrow> None
      | [ochild] \<Rightarrow> do {
          c3 \<leftarrow> store_slot n_parent (n_child nd2 ! ochild) c2;
          del_leaf k del (c3\<lparr>cr_pending_nodes := (cr_pending_nodes c3)[del := Some b]\<rparr>)
        }
      | _ \<Rightarrow> del_leaf k del c2)
   }"

text \<open>
  \<open>ref\<close> says whether the caller passes a place for the reference; the result is the value,
  the reference that is stored there, and the new state.
\<close>

definition critnib_remove :: "('v, 's) critnib \<Rightarrow> u64 \<Rightarrow> bool \<Rightarrow> ('v option \<times> ref \<times> ('v, 's) critnib) option" where
  "critnib_remove c key ref =
     (if cr_cb c \<noteq> None \<and> \<not> ref then Some (None, None, c)
      else
       (case cr_root c of
          None \<Rightarrow> Some (None, None, c)
        | Some n \<Rightarrow> do {
            let (count, new) = utils_atomic_increment_u64 (cr_remove_count c);
            let del = unat ((count - 1) mod DELETED_LIFE);
            c1 \<leftarrow> recycle del (c\<lparr>cr_remove_count := new\<rparr>);
            (case n of
               Leaf_Ptr k \<Rightarrow> do {
                 lf \<leftarrow> cr_leaves c1 k;
                 if k_key lf = key then del_leaf k del (c1\<lparr>cr_root := None\<rparr>) else Some (None, None, c1)
               }
             | Node_Ptr a \<Rightarrow> do {
                 r \<leftarrow> remove_walk (cr_nodes c1) key Root_Slot Root_Slot a (Node_Ptr a);
                 (case r of
                    None \<Rightarrow> Some (None, None, c1)
                  | Some (b, n_parent, k) \<Rightarrow> do {
                      lf \<leftarrow> cr_leaves c1 k;
                      if k_key lf \<noteq> key then Some (None, None, c1)
                      else unlink_leaf b n_parent k key del c1
                    })
               })
          }))"

partial_function (option) release_loop :: "ptr \<Rightarrow> u64 \<Rightarrow> ('v, 's) critnib \<Rightarrow> (u64 \<times> ('v, 's) critnib) option" where
  "release_loop k ref_count c =
     (if ref_count < LEAF_VALID then None
      else do {
        lf \<leftarrow> cr_leaves c k;
        let r = utils_compare_exchange_u64 (k_ref_count lf) ref_count (ref_count - 1);
        let c1 = c\<lparr>cr_leaves := (cr_leaves c)(k \<mapsto> lf\<lparr>k_ref_count := snd (snd r)\<rparr>)\<rparr>;
        if fst r then Some (ref_count - 1, c1) else release_loop k (fst (snd r)) c1
      })"

text \<open>Too many releases and the release of a leaf that was never removed fail assertions.\<close>

definition critnib_release :: "('v, 's) critnib \<Rightarrow> ref \<Rightarrow> (int \<times> ('v, 's) critnib) option" where
  "critnib_release c ref =
     (case (ref, cr_cb c) of
        (Some k, Some cb) \<Rightarrow> do {
          lf \<leftarrow> cr_leaves c k;
          (ref_desired, c1) \<leftarrow> release_loop k (utils_atomic_load_acquire_u64 (k_ref_count lf)) c;
          if ref_desired \<ge> LEAF_VALID then Some (0, c1)
          else do {
            lf1 \<leftarrow> cr_leaves c1 k;
            c2 \<leftarrow> upd_leaf (\<lambda>lf. lf\<lparr>k_to_be_freed := None\<rparr>) k c1;
            v \<leftarrow> k_to_be_freed lf1;
            c3 \<leftarrow> upd_leaf (\<lambda>lf. lf\<lparr>k_ref_count := 0\<rparr>) k c2;
            let c4 = c3\<lparr>cr_alloc := cb (cr_alloc c3) v\<rparr>;
            lf4 \<leftarrow> cr_leaves c4 k;
            if k_pending lf4 then do {
              c5 \<leftarrow> upd_leaf (\<lambda>lf. lf\<lparr>k_pending := False\<rparr>) k c4;
              c6 \<leftarrow> add_to_deleted_leaf_list k c5;
              Some (0, c6)
            }
            else Some (0, c4)
          }
        }
      | _ \<Rightarrow> Some (- 1, c))"

definition critnib_remove_release :: "('v, 's) critnib \<Rightarrow> u64 \<Rightarrow> (int \<times> ('v, 's) critnib) option" where
  "critnib_remove_release c key = do {
     (val, ref, c1) \<leftarrow> critnib_remove c key True;
     c2 \<leftarrow> (case ref of None \<Rightarrow> Some c1 | Some _ \<Rightarrow> do { (_, c2) \<leftarrow> critnib_release c1 ref; Some c2 });
     Some (if val \<noteq> None then 0 else - 1, c2)
   }"

section \<open>Queries\<close>

partial_function (option) increment_loop :: "ptr \<Rightarrow> u64 \<Rightarrow> ('v, 's) critnib \<Rightarrow> (int \<times> ('v, 's) critnib) option" where
  "increment_loop k expected c =
     (if expected < LEAF_VALID then Some (- 1, c)
      else do {
        lf \<leftarrow> cr_leaves c k;
        let r = utils_compare_exchange_u64 (k_ref_count lf) expected (expected + 1);
        let c1 = c\<lparr>cr_leaves := (cr_leaves c)(k \<mapsto> lf\<lparr>k_ref_count := snd (snd r)\<rparr>)\<rparr>;
        if fst r then Some (0, c1) else increment_loop k (fst (snd r)) c1
      })"

definition increment_ref_count :: "ptr \<Rightarrow> ('v, 's) critnib \<Rightarrow> (int \<times> ('v, 's) critnib) option" where
  "increment_ref_count k c = do {
     lf \<leftarrow> cr_leaves c k;
     increment_loop k (utils_atomic_load_acquire_u64 (k_ref_count lf)) c
   }"

partial_function (option) get_walk :: "critnib_node heap \<Rightarrow> u64 \<Rightarrow> tagged option \<Rightarrow> ref option" where
  "get_walk nodes key n =
     (case n of
        None \<Rightarrow> Some None
      | Some (Leaf_Ptr k) \<Rightarrow> Some (Some k)
      | Some (Node_Ptr a) \<Rightarrow> do {
          nd \<leftarrow> nodes a;
          get_walk nodes key (n_child nd ! slice_index key (n_shift nd))
        })"

text \<open>
  The queries read the number of removals before and after they look, and look again when
  it has moved too far.
\<close>

partial_function (option) retry :: "('v, 's) critnib \<Rightarrow> 'r option \<Rightarrow> 'r option" where
  "retry c look = do {
     let wrs1 = utils_atomic_load_acquire_u64 (cr_remove_count c);
     r \<leftarrow> look;
     let wrs2 = utils_atomic_load_acquire_u64 (cr_remove_count c);
     if wrs1 + DELETED_LIFE \<le> wrs2 then retry c look else Some r
   }"

text \<open>The reference that goes with a value, when leaves are counted.\<close>

definition take_ref :: "ref \<Rightarrow> 'v option \<Rightarrow> ('v, 's) critnib \<Rightarrow> ('v option \<times> ref \<times> ('v, 's) critnib) option" where
  "take_ref p res c =
     (case res of
        None \<Rightarrow> Some (None, None, c)
      | Some v \<Rightarrow>
          if cr_cb c = None then Some (Some v, None, c)
          else do {
            k \<leftarrow> p;
            (r, c1) \<leftarrow> increment_ref_count k c;
            if r \<noteq> 0 then Some (None, None, c1) else Some (Some v, Some k, c1)
          })"

definition critnib_get :: "('v, 's) critnib \<Rightarrow> u64 \<Rightarrow> bool \<Rightarrow> ('v option \<times> ref \<times> ('v, 's) critnib) option" where
  "critnib_get c key ref =
     (if cr_cb c \<noteq> None \<and> \<not> ref then Some (None, None, c)
      else do {
        (k, res) \<leftarrow> retry c (do {
          n \<leftarrow> get_walk (cr_nodes c) key (cr_root c);
          (case n of
             None \<Rightarrow> Some (None, None)
           | Some k \<Rightarrow> do {
               lf \<leftarrow> cr_leaves c k;
               Some (Some k, if k_key lf = key then k_value lf else None)
             })
        });
        take_ref k res c
      })"

definition last_child :: "tagged option list \<Rightarrow> nat list \<Rightarrow> tagged option" where
  "last_child ch order = (case filter (\<lambda>i. ch ! i \<noteq> None) order of [] \<Rightarrow> None | i # _ \<Rightarrow> ch ! i)"

partial_function (option) find_predecessor :: "critnib_node heap \<Rightarrow> ptr \<Rightarrow> ref option" where
  "find_predecessor nodes a = do {
     nd \<leftarrow> nodes a;
     (case last_child (n_child nd) (rev [0..<16]) of
        None \<Rightarrow> Some None
      | Some (Leaf_Ptr k) \<Rightarrow> Some (Some k)
      | Some (Node_Ptr b) \<Rightarrow> find_predecessor nodes b)
   }"

definition left_of :: "critnib_node heap \<Rightarrow> tagged option list \<Rightarrow> nat \<Rightarrow> ref option" where
  "left_of nodes ch nib =
     (case last_child ch (rev [0..<nib]) of
        None \<Rightarrow> Some None
      | Some (Leaf_Ptr k) \<Rightarrow> Some (Some k)
      | Some (Node_Ptr b) \<Rightarrow> find_predecessor nodes b)"

partial_function (option) find_le :: "critnib_node heap \<Rightarrow> 'v critnib_leaf heap \<Rightarrow> u64 \<Rightarrow> tagged option \<Rightarrow> ref option" where
  "find_le nodes leaves key n =
     (case n of
        None \<Rightarrow> Some None
      | Some (Leaf_Ptr k) \<Rightarrow> do { lf \<leftarrow> leaves k; Some (if k_key lf \<le> key then Some k else None) }
      | Some (Node_Ptr a) \<Rightarrow> do {
          nd \<leftarrow> nodes a;
          if drop_bit (n_shift nd) (key XOR n_path nd) AND NOT NIB \<noteq> 0 then
            (if n_path nd < key then find_predecessor nodes a else Some None)
          else do {
            r \<leftarrow> find_le nodes leaves key (n_child nd ! slice_index key (n_shift nd));
            (case r of
               Some k \<Rightarrow> Some (Some k)
             | None \<Rightarrow> left_of nodes (n_child nd) (slice_index key (n_shift nd)))
          }
        })"

definition critnib_find_le :: "('v, 's) critnib \<Rightarrow> u64 \<Rightarrow> bool \<Rightarrow> ('v option \<times> ref \<times> ('v, 's) critnib) option" where
  "critnib_find_le c key ref =
     (if cr_cb c \<noteq> None \<and> \<not> ref then Some (None, None, c)
      else do {
        (k, res) \<leftarrow> retry c (do {
          k \<leftarrow> (case cr_root c of None \<Rightarrow> Some None | Some n \<Rightarrow> find_le (cr_nodes c) (cr_leaves c) key (Some n));
          (case k of
             None \<Rightarrow> Some (None, None)
           | Some a \<Rightarrow> do { lf \<leftarrow> cr_leaves c a; Some (Some a, k_value lf) })
        });
        take_ref k res c
      })"

partial_function (option) find_successor :: "critnib_node heap \<Rightarrow> ptr \<Rightarrow> ref option" where
  "find_successor nodes a = do {
     nd \<leftarrow> nodes a;
     (case last_child (n_child nd) [0..<16] of
        None \<Rightarrow> Some None
      | Some (Leaf_Ptr k) \<Rightarrow> Some (Some k)
      | Some (Node_Ptr b) \<Rightarrow> find_successor nodes b)
   }"

definition right_of :: "critnib_node heap \<Rightarrow> tagged option list \<Rightarrow> nat \<Rightarrow> ref option" where
  "right_of nodes ch nib =
     (case last_child ch [Suc nib..<16] of
        None \<Rightarrow> Some None
      | Some (Leaf_Ptr k) \<Rightarrow> Some (Some k)
      | Some (Node_Ptr b) \<Rightarrow> find_successor nodes b)"

partial_function (option) find_ge :: "critnib_node heap \<Rightarrow> 'v critnib_leaf heap \<Rightarrow> u64 \<Rightarrow> tagged option \<Rightarrow> ref option" where
  "find_ge nodes leaves key n =
     (case n of
        None \<Rightarrow> Some None
      | Some (Leaf_Ptr k) \<Rightarrow> do { lf \<leftarrow> leaves k; Some (if k_key lf \<ge> key then Some k else None) }
      | Some (Node_Ptr a) \<Rightarrow> do {
          nd \<leftarrow> nodes a;
          if drop_bit (n_shift nd) (key XOR n_path nd) AND NOT NIB \<noteq> 0 then
            (if n_path nd > key then find_successor nodes a else Some None)
          else do {
            r \<leftarrow> find_ge nodes leaves key (n_child nd ! slice_index key (n_shift nd));
            (case r of
               Some k \<Rightarrow> Some (Some k)
             | None \<Rightarrow> right_of nodes (n_child nd) (slice_index key (n_shift nd)))
          }
        })"

datatype find_dir_t = FIND_L | FIND_LE | FIND_EQ | FIND_GE | FIND_G

text \<open>
  The key that is looked up after the strict comparisons have been turned into weak ones,
  or \<open>None\<close> when no key can match.
\<close>

definition find_key :: "find_dir_t \<Rightarrow> u64 \<Rightarrow> u64 option" where
  "find_key dir key =
     (case dir of
        FIND_L \<Rightarrow> if key = 0 then None else Some (key - 1)
      | FIND_G \<Rightarrow> if key = - 1 then None else Some (key + 1)
      | _ \<Rightarrow> Some key)"

text \<open>An exact match reads the key of the leaf even when the walk ended at a null pointer.\<close>

definition find_leaf :: "('v, 's) critnib \<Rightarrow> find_dir_t \<Rightarrow> u64 \<Rightarrow> ref option" where
  "find_leaf c dir key =
     (case dir of
        FIND_L \<Rightarrow> find_le (cr_nodes c) (cr_leaves c) key (cr_root c)
      | FIND_LE \<Rightarrow> find_le (cr_nodes c) (cr_leaves c) key (cr_root c)
      | FIND_GE \<Rightarrow> find_ge (cr_nodes c) (cr_leaves c) key (cr_root c)
      | FIND_G \<Rightarrow> find_ge (cr_nodes c) (cr_leaves c) key (cr_root c)
      | FIND_EQ \<Rightarrow> do {
          kk \<leftarrow> get_walk (cr_nodes c) key (cr_root c);
          lf \<leftarrow> deref (cr_leaves c) kk;
          Some (if k_key lf = key then kk else None)
        })"

text \<open>The result: the return value, the key and the value found, and the reference.\<close>

definition critnib_find ::
  "('v, 's) critnib \<Rightarrow> u64 \<Rightarrow> find_dir_t \<Rightarrow> bool \<Rightarrow> (int \<times> (u64 \<times> 'v option) option \<times> ref \<times> ('v, 's) critnib) option" where
  "critnib_find c key dir ref =
     (if cr_cb c \<noteq> None \<and> \<not> ref then Some (0, None, None, c)
      else
       (case find_key dir key of
          None \<Rightarrow> Some (0, None, None, c)
        | Some key' \<Rightarrow> do {
            r \<leftarrow> retry c (do {
              k \<leftarrow> find_leaf c dir key';
              (case k of
                 None \<Rightarrow> Some None
               | Some a \<Rightarrow> do { lf \<leftarrow> cr_leaves c a; Some (Some (a, k_key lf, k_value lf)) })
            });
            (case r of
               None \<Rightarrow> Some (0, None, None, c)
             | Some (k, rkey, rvalue) \<Rightarrow>
                 if cr_cb c = None then Some (1, Some (rkey, rvalue), None, c)
                 else do {
                   (e, c1) \<leftarrow> increment_ref_count k c;
                   if e \<noteq> 0 then Some (0, None, None, c1) else Some (1, Some (rkey, rvalue), Some k, c1)
                 })
          }))"

text \<open>The iteration calls \<open>func\<close> on the state \<open>privdata\<close>; a result other than 0 ends it.\<close>

primrec iter ::
  "nat \<Rightarrow> ('v, 's) critnib \<Rightarrow> u64 \<Rightarrow> u64 \<Rightarrow> (u64 \<Rightarrow> 'v option \<Rightarrow> 'd \<Rightarrow> int \<times> 'd) \<Rightarrow> tagged \<Rightarrow> 'd \<Rightarrow> (int \<times> 'd) option" where
  "iter 0 c lo hi func n privdata = None"
| "iter (Suc d) c lo hi func n privdata =
     (case n of
        Leaf_Ptr k \<Rightarrow> do {
          lf \<leftarrow> cr_leaves c k;
          Some (if lo \<le> k_key lf \<and> k_key lf \<le> hi then func (k_key lf) (k_value lf) privdata else (0, privdata))
        }
      | Node_Ptr a \<Rightarrow> do {
          nd \<leftarrow> cr_nodes c a;
          if n_path nd > hi then Some (1, privdata)
          else if (n_path nd OR path_mask (n_shift nd)) < lo then Some (0, privdata)
          else
            fold_opt (\<lambda>m (r, s).
              (case m of
                 None \<Rightarrow> Some (r, s)
               | Some t \<Rightarrow> if r \<noteq> 0 then Some (r, s)
                   else do { (r', s') \<leftarrow> iter d c lo hi func t s; Some (if r' \<noteq> 0 then 1 else 0, s') }))
              (n_child nd) (0, privdata)
        })"

definition critnib_iter ::
  "('v, 's) critnib \<Rightarrow> u64 \<Rightarrow> u64 \<Rightarrow> (u64 \<Rightarrow> 'v option \<Rightarrow> 'd \<Rightarrow> int \<times> 'd) \<Rightarrow> 'd \<Rightarrow> 'd option" where
  "critnib_iter c lo hi func privdata =
     (case cr_root c of
        None \<Rightarrow> Some privdata
      | Some n \<Rightarrow> do { (_, s) \<leftarrow> iter 17 c lo hi func n privdata; Some s })"

end
