(* ===== verification/Critnib_Tree.thy ===== *)
theory Critnib_Tree
  imports Critnib
begin

text \<open>
  The shape of critnib trees, independent of where they lie on the heaps: key slices as
  digits, the ordered list of entries, well-formedness, and the correctness of the
  read-only searches on a heap that represents a tree.
\<close>

section \<open>Slices of keys\<close>

text \<open>The part of a key above the slice at \<open>sh\<close>.\<close>

definition above :: "u64 \<Rightarrow> nat \<Rightarrow> nat" where
  "above k sh = unat k div 2 ^ (sh + 4)"

lemma slice_index_div: "slice_index k sh = unat k div 2 ^ sh mod 16"
proof -
  have "drop_bit sh k AND NIB = take_bit 4 (drop_bit sh k)" by (simp add: NIB_def take_bit_eq_mask mask_eq_exp_minus_1)
  then have "slice_index k sh = take_bit 4 (unat (drop_bit sh k))" by (simp add: slice_index_def unsigned_take_bit_eq)
  then show ?thesis by (simp add: take_bit_eq_mod unat_drop_bit)
qed

lemma slice_index_less [simp]: "slice_index k sh < 16"
  by (simp add: slice_index_div)

lemma digit_split: "unat k div 2 ^ sh = above k sh * 16 + slice_index k sh"
proof -
  have "above k sh = unat k div 2 ^ sh div 16"
    by (simp add: above_def power_add div_mult2_eq)
  then show ?thesis by (simp add: slice_index_div)
qed

lemma above_less: "above k sh < above k' sh \<Longrightarrow> k < k'"
  unfolding above_def word_less_nat_alt by (meson div_le_mono leD not_le_imp_less)

lemma above_mono: "k \<le> k' \<Longrightarrow> above k sh \<le> above k' sh"
  unfolding above_def word_le_nat_alt by (rule div_le_mono)

lemma slice_less:
  assumes "above k sh = above k' sh" "slice_index k sh < slice_index k' sh"
  shows "k < k'"
proof -
  have "unat k div 2 ^ sh < unat k' div 2 ^ sh" using assms by (simp add: digit_split)
  then show ?thesis unfolding word_less_nat_alt by (meson div_le_mono leD not_le_imp_less)
qed

lemma xor_eq_0: "a XOR b = 0 \<longleftrightarrow> a = (b :: u64)"
  by (auto simp: bit_eq_iff bit_simps)

lemma path_mask_eq: "k AND path_mask sh = push_bit (sh + 4) (drop_bit (sh + 4) k)"
proof (rule bit_word_eqI)
  fix i assume "i < LENGTH(64)"
  have nib: "NIB = mask 4" by (simp add: NIB_def mask_eq_exp_minus_1)
  show "bit (k AND path_mask sh) i \<longleftrightarrow> bit (push_bit (sh + 4) (drop_bit (sh + 4) k)) i"
    by (auto simp: path_mask_def nib bit_simps)
qed

lemma unat_path_mask: "unat (k AND path_mask sh) = above k sh * 2 ^ (sh + 4)"
proof -
  have "above k sh * 2 ^ (sh + 4) \<le> unat k" by (simp add: above_def)
  then have lt: "above k sh * 2 ^ (sh + 4) < 2 ^ 64" using unat_less_u64 [of k] by linarith
  have "unat (k AND path_mask sh) = take_bit 64 (push_bit (sh + 4) (unat (drop_bit (sh + 4) k)))"
    by (simp add: path_mask_eq unsigned_push_bit_eq)
  also have "\<dots> = take_bit 64 (above k sh * 2 ^ (sh + 4))"
    by (simp add: unat_drop_bit above_def push_bit_eq_mult)
  also have "\<dots> = above k sh * 2 ^ (sh + 4)" using lt by (simp add: take_bit_nat_eq_self_iff)
  finally show ?thesis .
qed

text \<open>A path is the key of its subtree with the lower part cleared.\<close>

definition is_path :: "u64 \<Rightarrow> nat \<Rightarrow> bool" where
  "is_path p sh \<longleftrightarrow> p AND path_mask sh = p"

lemma is_path_masked [simp]: "is_path (k AND path_mask sh) sh"
  by (simp add: is_path_def and.assoc)

lemma above_masked [simp]: "above (k AND path_mask sh) sh = above k sh"
  by (simp add: above_def [of "k AND path_mask sh"] unat_path_mask)

lemma on_path_iff: "is_path p sh \<Longrightarrow> k AND path_mask sh = p \<longleftrightarrow> above k sh = above p sh"
proof
  assume p: "is_path p sh" and a: "above k sh = above p sh"
  have "unat (k AND path_mask sh) = unat (p AND path_mask sh)" by (simp only: unat_path_mask a)
  then show "k AND path_mask sh = p" using p by (simp add: is_path_def word_unat_eq_iff)
qed auto

lemma path_le: "is_path p sh \<Longrightarrow> above k sh = above p sh \<Longrightarrow> p \<le> k"
proof -
  assume p: "is_path p sh" "above k sh = above p sh"
  have "unat p = above p sh * 2 ^ (sh + 4)" using p(1) unat_path_mask [of p sh] by (simp add: is_path_def)
  also have "\<dots> = above k sh * 2 ^ (sh + 4)" using p(2) by simp
  also have "\<dots> \<le> unat k" by (simp add: above_def)
  finally show ?thesis by (simp add: word_le_nat_alt)
qed

lemma off_path_iff: "drop_bit sh (k XOR p) AND NOT NIB \<noteq> 0 \<longleftrightarrow> above k sh \<noteq> above p sh"
proof -
  let ?x = "drop_bit sh (k XOR p)"
  have "?x AND NOT NIB = ?x AND path_mask 0" by (simp add: path_mask_def)
  then have "?x AND NOT NIB = 0 \<longleftrightarrow> above ?x 0 = 0"
    using unat_path_mask [of ?x 0] by (simp add: word_unat_eq_iff)
  also have "above ?x 0 = unat (drop_bit (sh + 4) (k XOR p))"
    by (simp only: above_def unat_drop_bit power_add div_mult2_eq) simp
  also have "\<dots> = 0 \<longleftrightarrow> drop_bit (sh + 4) (k XOR p) = 0" by (simp only: word_unat_eq_iff unat_0)
  also have "\<dots> \<longleftrightarrow> drop_bit (sh + 4) k = drop_bit (sh + 4) p" by (simp only: drop_bit_xor xor_eq_0)
  also have "\<dots> \<longleftrightarrow> above k sh = above p sh" by (simp only: word_unat_eq_iff unat_drop_bit above_def)
  finally show ?thesis by blast
qed

text \<open>The slice at which two different keys part.\<close>

lemma and_252: "m < 64 \<Longrightarrow> m AND 252 = m div 4 * (4 :: nat)"
proof -
  assume "m < 64"
  then have "m \<in> set [0..<64]" by simp
  moreover have "list_all (\<lambda>m. m AND 252 = m div 4 * (4 :: nat)) [0..<64]" by code_simp
  ultimately show ?thesis by (simp only: list_all_iff)
qed

lemma parting_slice:
  assumes "utils_msb64 (p XOR k) = Some m" "p \<noteq> k" "sh = m AND 252"
  shows "sh mod 4 = 0" "sh \<le> 60" "above p sh = above k sh" "slice_index p sh \<noteq> slice_index k sh"
proof -
  have "p XOR k \<noteq> 0" using assms(2) by (simp add: xor_eq_0)
  then obtain m' where "utils_msb64 (p XOR k) = Some m'" "m' < 64" "2 ^ m' \<le> unat (p XOR k)" "unat (p XOR k) < 2 ^ Suc m'"
    by (rule utils_msb64_Some)
  then have m: "m < 64" "2 ^ m \<le> unat (p XOR k)" "unat (p XOR k) < 2 ^ Suc m" using assms(1) by auto
  have sh: "sh = m div 4 * 4" using assms(3) and_252 [OF m(1)] by simp
  show "sh mod 4 = 0" "sh \<le> 60" using sh m(1) by auto
  have b: "sh \<le> m" "Suc m \<le> sh + 4" using sh by (auto simp: algebra_simps)
  have "unat (p XOR k) < 2 ^ (sh + 4)" using m(3) b(2) by (meson less_le_trans power_increasing one_le_numeral)
  then have "unat (drop_bit (sh + 4) (p XOR k)) = 0" by (simp only: unat_drop_bit) simp
  then have "drop_bit (sh + 4) p = drop_bit (sh + 4) k"
    by (simp only: word_unat_eq_iff [symmetric] unat_0 [symmetric] drop_bit_xor) (simp only: unat_0 unat_eq_zero xor_eq_0)
  then show a: "above p sh = above k sh" by (simp only: above_def flip: unat_drop_bit)
  have "2 ^ sh \<le> unat (p XOR k)" using m(2) b(1) by (meson le_trans power_increasing one_le_numeral)
  then have "unat (p XOR k) div 2 ^ sh \<noteq> 0" by (simp add: div_eq_0_iff)
  then have "unat (drop_bit sh (p XOR k)) \<noteq> 0" by (simp only: unat_drop_bit not_False_eq_True)
  then have "drop_bit sh p \<noteq> drop_bit sh k" by (auto simp: drop_bit_xor)
  then have "unat p div 2 ^ sh \<noteq> unat k div 2 ^ sh" by (simp only: word_unat_eq_iff unat_drop_bit not_False_eq_True)
  then show "slice_index p sh \<noteq> slice_index k sh" using a by (simp add: digit_split)
qed

section \<open>Trees\<close>

text \<open>
  A tree with the addresses of its parts: empty (a null pointer), a leaf with its key, or a
  node with path, shift and 16 subtrees.
\<close>

datatype ct = CE | CL ptr u64 | CN ptr u64 nat "ct list"

fun entries :: "ct \<Rightarrow> (u64 \<times> ptr) list" where
  "entries CE = []"
| "entries (CL p k) = [(k, p)]"
| "entries (CN p path sh cs) = concat (map entries cs)"

fun node_ptrs :: "ct \<Rightarrow> ptr list" where
  "node_ptrs CE = []"
| "node_ptrs (CL p k) = []"
| "node_ptrs (CN p path sh cs) = p # concat (map node_ptrs cs)"

definition leaf_ptrs :: "ct \<Rightarrow> ptr list" where
  "leaf_ptrs t = map snd (entries t)"

fun tag :: "ct \<Rightarrow> tagged option" where
  "tag CE = None"
| "tag (CL p k) = Some (Leaf_Ptr p)"
| "tag (CN p path sh cs) = Some (Node_Ptr p)"

fun ct_rep :: "critnib_node heap \<Rightarrow> 'v critnib_leaf heap \<Rightarrow> ct \<Rightarrow> bool" where
  "ct_rep nodes leaves CE \<longleftrightarrow> True"
| "ct_rep nodes leaves (CL p k) \<longleftrightarrow> map_option k_key (leaves p) = Some k"
| "ct_rep nodes leaves (CN p path sh cs) \<longleftrightarrow>
     nodes p = Some \<lparr>n_child = map tag cs, n_path = path, n_shift = sh\<rparr> \<and> (\<forall>t\<in>set cs. ct_rep nodes leaves t)"

fun wf_ct :: "ct \<Rightarrow> bool" where
  "wf_ct CE \<longleftrightarrow> True"
| "wf_ct (CL p k) \<longleftrightarrow> True"
| "wf_ct (CN p path sh cs) \<longleftrightarrow>
     length cs = 16 \<and> sh mod 4 = 0 \<and> sh \<le> 60 \<and> is_path path sh \<and> 2 \<le> length (filter (\<lambda>t. t \<noteq> CE) cs) \<and>
     (\<forall>t\<in>set cs. wf_ct t) \<and>
     (\<forall>i<16. \<forall>k\<in>fst ` set (entries (cs ! i)). above k sh = above path sh \<and> slice_index k sh = i)"

lemma tag_None_iff [simp]: "tag t = None \<longleftrightarrow> t = CE"
  by (cases t) auto

lemma wf_ct_child:
  assumes "wf_ct (CN p path sh cs)" "i < 16"
  shows "wf_ct (cs ! i)" "k \<in> fst ` set (entries (cs ! i)) \<Longrightarrow> above k sh = above path sh \<and> slice_index k sh = i"
  using assms by auto

lemma wf_ct_entry:
  assumes "wf_ct (CN p path sh cs)" "k \<in> fst ` set (entries (CN p path sh cs))"
  shows "above k sh = above path sh" "k \<in> fst ` set (entries (cs ! slice_index k sh))"
proof -
  obtain t where "t \<in> set cs" "k \<in> fst ` set (entries t)" using assms(2) by auto
  then obtain i where "i < 16" "k \<in> fst ` set (entries (cs ! i))" using assms(1) by (auto simp: in_set_conv_nth)
  then show "above k sh = above path sh" "k \<in> fst ` set (entries (cs ! slice_index k sh))"
    using wf_ct_child(2) [OF assms(1)] by auto
qed

text \<open>The entries of a well-formed tree are in ascending order of their keys.\<close>

lemma sorted_concat:
  "sorted_wrt P (concat xss) \<longleftrightarrow>
     (\<forall>xs\<in>set xss. sorted_wrt P xs) \<and> (\<forall>i j. i < j \<longrightarrow> j < length xss \<longrightarrow> (\<forall>x\<in>set (xss ! i). \<forall>y\<in>set (xss ! j). P x y))"
proof (induction xss)
  case (Cons xs xss)
  have "(\<forall>x\<in>set xs. \<forall>y\<in>set (concat xss). P x y) \<longleftrightarrow> (\<forall>j<length xss. \<forall>x\<in>set xs. \<forall>y\<in>set (xss ! j). P x y)"
    by (simp add: all_set_conv_all_nth [of xss]) blast
  moreover have "(\<forall>i j. i < j \<longrightarrow> j < length (xs # xss) \<longrightarrow> (\<forall>x\<in>set ((xs # xss) ! i). \<forall>y\<in>set ((xs # xss) ! j). P x y)) \<longleftrightarrow>
      (\<forall>j<length xss. \<forall>x\<in>set xs. \<forall>y\<in>set (xss ! j). P x y) \<and>
      (\<forall>i j. i < j \<longrightarrow> j < length xss \<longrightarrow> (\<forall>x\<in>set (xss ! i). \<forall>y\<in>set (xss ! j). P x y))"
    by (auto simp: nth_Cons split: nat.splits)
  ultimately show ?case using Cons.IH by (simp add: sorted_wrt_append) blast
qed simp

lemma entries_sorted: "wf_ct t \<Longrightarrow> sorted_wrt (\<lambda>x y. fst x < fst y) (entries t)"
proof (induction t rule: entries.induct)
  case (3 p path sh cs)
  have len: "length cs = 16" using 3(2) by simp
  have "fst x < fst y" if ij: "i < j" "j < 16" "x \<in> set (entries (cs ! i))" "y \<in> set (entries (cs ! j))" for i j x y
  proof -
    have "above (fst x) sh = above path sh \<and> slice_index (fst x) sh = i"
      using wf_ct_child(2) [OF 3(2), of i "fst x"] ij by auto
    moreover have "above (fst y) sh = above path sh \<and> slice_index (fst y) sh = j"
      using wf_ct_child(2) [OF 3(2), of j "fst y"] ij by auto
    ultimately show ?thesis using ij(1) by (intro slice_less [of _ sh]) auto
  qed
  then show ?case using 3 len by (simp add: sorted_concat)
qed auto

lemma entries_nonempty: "wf_ct t \<Longrightarrow> t \<noteq> CE \<Longrightarrow> entries t \<noteq> []"
proof (induction t rule: entries.induct)
  case (3 p path sh cs)
  have "filter (\<lambda>t. t \<noteq> CE) cs \<noteq> []" using 3(2) by auto
  then obtain t where "t \<in> set cs" "t \<noteq> CE" by (auto simp: filter_empty_conv)
  then show ?case using 3 by auto
qed auto

section \<open>Searches\<close>

text \<open>The last entry at or below a key, and the first entry at or above it.\<close>

definition last_le :: "u64 \<Rightarrow> (u64 \<times> ptr) list \<Rightarrow> ref" where
  "last_le key es = (let xs = filter (\<lambda>e. fst e \<le> key) es in if xs = [] then None else Some (snd (last xs)))"

definition first_ge :: "u64 \<Rightarrow> (u64 \<times> ptr) list \<Rightarrow> ref" where
  "first_ge key es = (let xs = filter (\<lambda>e. key \<le> fst e) es in if xs = [] then None else Some (snd (hd xs)))"

lemma last_child_simps:
  "last_child ch [] = None"
  "last_child ch (i # order) = (if ch ! i = None then last_child ch order else ch ! i)"
  by (simp_all add: last_child_def)

lemma last_child_pred:
  "n \<le> length cs \<Longrightarrow>
   (case last_child (map tag cs) (rev [0..<n]) of
      None \<Rightarrow> concat (map entries (take n cs)) = []
    | Some x \<Rightarrow> \<exists>i<n. tag (cs ! i) = Some x \<and>
        concat (map entries (take n cs)) = concat (map entries (take i cs)) @ entries (cs ! i))"
proof (induction n)
  case (Suc n)
  have t: "take (Suc n) cs = take n cs @ [cs ! n]" using Suc.prems by (simp add: take_Suc_conv_app_nth)
  show ?case
  proof (cases "cs ! n = CE")
    case True
    then have e: "last_child (map tag cs) (rev [0..<Suc n]) = last_child (map tag cs) (rev [0..<n])"
      "concat (map entries (take (Suc n) cs)) = concat (map entries (take n cs))"
      using t Suc.prems by (simp_all add: last_child_simps)
    then show ?thesis using Suc by (cases "last_child (map tag cs) (rev [0..<n])") (auto intro: less_SucI)
  next
    case False
    then obtain x where x: "tag (cs ! n) = Some x" by (cases "cs ! n") auto
    have e: "last_child (map tag cs) (rev [0..<Suc n]) = Some x"
      "concat (map entries (take (Suc n) cs)) = concat (map entries (take n cs)) @ entries (cs ! n)"
      using t x Suc.prems by (simp_all add: last_child_simps)
    show ?thesis unfolding e using x by auto
  qed
qed (simp add: last_child_simps)

lemma last_child_succ:
  "n \<le> length cs \<Longrightarrow>
   (case last_child (map tag cs) [n..<length cs] of
      None \<Rightarrow> concat (map entries (drop n cs)) = []
    | Some x \<Rightarrow> \<exists>i<length cs. tag (cs ! i) = Some x \<and> concat (map entries (drop n cs)) = entries (cs ! i) @ concat (map entries (drop (Suc i) cs)))"
proof (induction "length cs - n" arbitrary: n)
  case 0
  then show ?case by (simp add: last_child_simps)
next
  case (Suc m)
  then have n: "n < length cs" by simp
  have d: "drop n cs = cs ! n # drop (Suc n) cs" using n by (simp add: Cons_nth_drop_Suc)
  have u: "[n..<length cs] = n # [Suc n..<length cs]" using n by (rule upt_conv_Cons)
  show ?case
  proof (cases "cs ! n = CE")
    case True
    then have e: "last_child (map tag cs) [n..<length cs] = last_child (map tag cs) [Suc n..<length cs]"
      "concat (map entries (drop n cs)) = concat (map entries (drop (Suc n) cs))"
      unfolding u d using n by (simp_all add: last_child_simps)
    show ?thesis unfolding e using Suc(1) [of "Suc n"] Suc(2) n by simp
  next
    case False
    then obtain x where x: "tag (cs ! n) = Some x" by (cases "cs ! n") auto
    have e: "last_child (map tag cs) [n..<length cs] = Some x"
      "concat (map entries (drop n cs)) = entries (cs ! n) @ concat (map entries (drop (Suc n) cs))"
      unfolding u d using x n by (simp_all add: last_child_simps)
    show ?thesis unfolding e using x n by auto
  qed
qed

lemma find_predecessor_ok:
  "ct_rep nodes leaves (CN p path sh cs) \<Longrightarrow> wf_ct (CN p path sh cs) \<Longrightarrow>
   find_predecessor nodes p = Some (Some (snd (last (entries (CN p path sh cs)))))"
proof (induction "CN p path sh cs" arbitrary: p path sh cs rule: entries.induct)
  case (3 p path sh cs)
  have n: "nodes p = Some \<lparr>n_child = map tag cs, n_path = path, n_shift = sh\<rparr>" using 3(2) by simp
  have len: "length cs = 16" and all: "take 16 cs = cs" using 3(3) by auto
  have ne: "concat (map entries cs) \<noteq> []" using entries_nonempty [OF 3(3)] by simp
  obtain x i where x: "last_child (map tag cs) (rev [0..<16]) = Some x" "i < 16" "tag (cs ! i) = Some x"
    "concat (map entries cs) = concat (map entries (take i cs)) @ entries (cs ! i)"
    using last_child_pred [of 16 cs] ne len all by (auto split: option.splits)
  have i: "cs ! i \<in> set cs" "wf_ct (cs ! i)" "ct_rep nodes leaves (cs ! i)" "cs ! i \<noteq> CE" using x len 3(2,3) by auto
  have l: "last (concat (map entries cs)) = last (entries (cs ! i))" using x(4) entries_nonempty [OF i(2,4)] by simp
  show ?case
  proof (cases "cs ! i")
    case (CL q k)
    then have xq: "x = Leaf_Ptr q" using x(3) by simp
    show ?thesis by (subst find_predecessor.simps) (simp add: n x(1) xq l CL)
  next
    case (CN q path' sh' cs')
    then have xq: "x = Node_Ptr q" using x(3) by simp
    have "find_predecessor nodes q = Some (Some (snd (last (entries (cs ! i)))))"
      using 3(1) i(1-3) unfolding CN by blast
    then show ?thesis by (subst find_predecessor.simps) (simp add: n x(1) xq l)
  qed (use i(4) in simp)
qed

lemma find_successor_ok:
  "ct_rep nodes leaves (CN p path sh cs) \<Longrightarrow> wf_ct (CN p path sh cs) \<Longrightarrow>
   find_successor nodes p = Some (Some (snd (hd (entries (CN p path sh cs)))))"
proof (induction "CN p path sh cs" arbitrary: p path sh cs rule: entries.induct)
  case (3 p path sh cs)
  have n: "nodes p = Some \<lparr>n_child = map tag cs, n_path = path, n_shift = sh\<rparr>" using 3(2) by simp
  have len: "length cs = 16" using 3(3) by auto
  have ne: "concat (map entries cs) \<noteq> []" using entries_nonempty [OF 3(3)] by simp
  obtain x i where x: "last_child (map tag cs) [0..<16] = Some x" "i < 16" "tag (cs ! i) = Some x"
    "concat (map entries cs) = entries (cs ! i) @ concat (map entries (drop (Suc i) cs))"
    using last_child_succ [of 0 cs] ne len by (auto split: option.splits)
  have i: "cs ! i \<in> set cs" "wf_ct (cs ! i)" "ct_rep nodes leaves (cs ! i)" "cs ! i \<noteq> CE" using x len 3(2,3) by auto
  have l: "hd (concat (map entries cs)) = hd (entries (cs ! i))" using x(4) entries_nonempty [OF i(2,4)] by simp
  show ?case
  proof (cases "cs ! i")
    case (CL q k)
    then have xq: "x = Leaf_Ptr q" using x(3) by simp
    show ?thesis by (subst find_successor.simps) (simp add: n x(1) xq l CL)
  next
    case (CN q path' sh' cs')
    then have xq: "x = Node_Ptr q" using x(3) by simp
    have "find_successor nodes q = Some (Some (snd (hd (entries (cs ! i)))))"
      using 3(1) i(1-3) unfolding CN by blast
    then show ?thesis by (subst find_successor.simps) (simp add: n x(1) xq l)
  qed (use i(4) in simp)
qed

text \<open>What lies to the left and to the right of a child.\<close>

lemma left_of_ok:
  assumes r: "ct_rep nodes leaves (CN p path sh cs)" and w: "wf_ct (CN p path sh cs)" and i: "i \<le> 16"
  shows "left_of nodes (map tag cs) i =
    Some (let es = concat (map entries (take i cs)) in if es = [] then None else Some (snd (last es)))"
proof (cases "last_child (map tag cs) (rev [0..<i])")
  case None
  then show ?thesis using last_child_pred [of i cs] i w by (simp add: left_of_def)
next
  case (Some x)
  then obtain j where j: "j < i" "tag (cs ! j) = Some x"
    "concat (map entries (take i cs)) = concat (map entries (take j cs)) @ entries (cs ! j)"
    using last_child_pred [of i cs] i w by auto
  then have c: "cs ! j \<in> set cs" "cs ! j \<noteq> CE" using i w by auto
  then have ch: "ct_rep nodes leaves (cs ! j)" "wf_ct (cs ! j)" using r w by auto
  then have ne: "entries (cs ! j) \<noteq> []" using entries_nonempty c(2) by blast
  show ?thesis
  proof (cases "cs ! j")
    case (CL q k)
    then show ?thesis using j Some by (auto simp: left_of_def)
  next
    case (CN q path' sh' cs')
    then have "find_predecessor nodes q = Some (Some (snd (last (entries (cs ! j)))))"
      using find_predecessor_ok [of nodes leaves q path' sh' cs'] ch by simp
    then show ?thesis using j Some ne CN by (auto simp: left_of_def Let_def)
  qed (use c in simp)
qed

lemma right_of_ok:
  assumes r: "ct_rep nodes leaves (CN p path sh cs)" and w: "wf_ct (CN p path sh cs)" and i: "i < 16"
  shows "right_of nodes (map tag cs) i =
    Some (let es = concat (map entries (drop (Suc i) cs)) in if es = [] then None else Some (snd (hd es)))"
proof (cases "last_child (map tag cs) [Suc i..<16]")
  case None
  then show ?thesis using last_child_succ [of "Suc i" cs] i w by (simp add: right_of_def)
next
  case (Some x)
  then obtain j where j: "j < 16" "tag (cs ! j) = Some x"
    "concat (map entries (drop (Suc i) cs)) = entries (cs ! j) @ concat (map entries (drop (Suc j) cs))"
    using last_child_succ [of "Suc i" cs] i w by auto
  then have c: "cs ! j \<in> set cs" "cs ! j \<noteq> CE" using i w by auto
  then have ch: "ct_rep nodes leaves (cs ! j)" "wf_ct (cs ! j)" using r w by auto
  then have ne: "entries (cs ! j) \<noteq> []" using entries_nonempty c(2) by blast
  show ?thesis
  proof (cases "cs ! j")
    case (CL q k)
    then show ?thesis using j Some by (auto simp: right_of_def)
  next
    case (CN q path' sh' cs')
    then have "find_successor nodes q = Some (Some (snd (hd (entries (cs ! j)))))"
      using find_successor_ok [of nodes leaves q path' sh' cs'] ch by simp
    then show ?thesis using j Some ne CN by (auto simp: right_of_def Let_def)
  qed (use c in simp)
qed

text \<open>The entries of a node, split at the slice of a key that shares its path.\<close>

lemma entries_around:
  assumes w: "wf_ct (CN p path sh cs)" and k: "above key sh = above path sh"
  defines "i \<equiv> slice_index key sh"
  shows "entries (CN p path sh cs) = concat (map entries (take i cs)) @ entries (cs ! i) @ concat (map entries (drop (Suc i) cs))"
    and "\<forall>e\<in>set (concat (map entries (take i cs))). fst e < key"
    and "\<forall>e\<in>set (concat (map entries (drop (Suc i) cs))). key < fst e"
proof -
  have len: "length cs = 16" "i < 16" using w by (auto simp: i_def)
  have "cs = take i cs @ cs ! i # drop (Suc i) cs" using len by (simp add: id_take_nth_drop)
  then show "entries (CN p path sh cs) = concat (map entries (take i cs)) @ entries (cs ! i) @ concat (map entries (drop (Suc i) cs))"
    by (metis (no_types) entries.simps(3) concat.simps(2) concat_append list.simps(9) map_append)
  have side: "above (fst e) sh = above key sh \<and> slice_index (fst e) sh = j" if "j < 16" "e \<in> set (entries (cs ! j))" for e j
    using wf_ct_child(2) [OF w, of j "fst e"] that k by auto
  show "\<forall>e\<in>set (concat (map entries (take i cs))). fst e < key"
  proof
    fix e assume "e \<in> set (concat (map entries (take i cs)))"
    then obtain t where "t \<in> set (take i cs)" "e \<in> set (entries t)" by auto
    then obtain j where "j < i" "e \<in> set (entries (cs ! j))" using len by (auto simp: in_set_conv_nth [of t])
    then show "fst e < key" using side [of j e] less_trans [of j i 16] len(2) by (intro slice_less [of _ sh]) (simp_all add: i_def)
  qed
  show "\<forall>e\<in>set (concat (map entries (drop (Suc i) cs))). key < fst e"
  proof
    fix e assume "e \<in> set (concat (map entries (drop (Suc i) cs)))"
    then obtain t where "t \<in> set (drop (Suc i) cs)" "e \<in> set (entries t)" by auto
    then obtain m where "m < 15 - i" "e \<in> set (entries (cs ! (Suc i + m)))" using len by (auto simp: in_set_conv_nth [of t])
    then obtain j where "i < j" "j < 16" "e \<in> set (entries (cs ! j))" using that [of "Suc i + m"] by auto
    then show "key < fst e" using side [of j e] by (intro slice_less [of _ sh]) (auto simp: i_def)
  qed
qed

lemma entries_off_path:
  assumes w: "wf_ct (CN p path sh cs)" and k: "above key sh \<noteq> above path sh" and e: "e \<in> set (entries (CN p path sh cs))"
  shows "path < key \<longleftrightarrow> fst e < key" "path > key \<longleftrightarrow> fst e > key" "fst e \<noteq> key"
proof -
  have a: "above (fst e) sh = above path sh" using wf_ct_entry(1) [OF w] e by auto
  have "above path sh < above key sh \<or> above key sh < above path sh" using k by linarith
  then show "path < key \<longleftrightarrow> fst e < key" "path > key \<longleftrightarrow> fst e > key" "fst e \<noteq> key"
    using above_less [of path sh key] above_less [of "fst e" sh key] above_less [of key sh path] above_less [of key sh "fst e"] a
    by (auto dest: less_asym)
qed

lemma last_le_append:
  assumes "\<forall>e\<in>set A. fst e < key" "\<forall>e\<in>set B. key < fst e"
  shows "last_le key (A @ es @ B) =
    (case last_le key es of Some k \<Rightarrow> Some k | None \<Rightarrow> if A = [] then None else Some (snd (last A)))"
proof -
  have "filter (\<lambda>e. fst e \<le> key) A = A" using assms(1) by (simp add: filter_id_conv less_imp_le)
  moreover have "filter (\<lambda>e. fst e \<le> key) B = []" using assms(2) by (auto simp: filter_empty_conv not_le)
  ultimately show ?thesis by (auto simp: last_le_def Let_def)
qed

lemma first_ge_append:
  assumes "\<forall>e\<in>set A. fst e < key" "\<forall>e\<in>set B. key < fst e"
  shows "first_ge key (A @ es @ B) =
    (case first_ge key es of Some k \<Rightarrow> Some k | None \<Rightarrow> if B = [] then None else Some (snd (hd B)))"
proof -
  have "filter (\<lambda>e. key \<le> fst e) B = B" using assms(2) by (simp add: filter_id_conv less_imp_le)
  moreover have "filter (\<lambda>e. key \<le> fst e) A = []" using assms(1) by (auto simp: filter_empty_conv not_le)
  ultimately show ?thesis by (auto simp: first_ge_def Let_def)
qed

lemma find_le_ok: "ct_rep nodes leaves t \<Longrightarrow> wf_ct t \<Longrightarrow> find_le nodes leaves key (tag t) = Some (last_le key (entries t))"
proof (induction t rule: entries.induct)
  case 1
  then show ?case by (subst find_le.simps) (simp add: last_le_def Let_def)
next
  case (2 p k)
  then show ?case by (subst find_le.simps) (auto simp: last_le_def)
next
  case (3 p path sh cs)
  have n: "nodes p = Some \<lparr>n_child = map tag cs, n_path = path, n_shift = sh\<rparr>" using 3(2) by simp
  have len: "length cs = 16" using 3(3) by simp
  let ?i = "slice_index key sh" and ?es = "entries (CN p path sh cs)"
  show ?case
  proof (cases "above key sh = above path sh")
    case False
    note off = entries_off_path [OF 3(3) False]
    have ne: "?es \<noteq> []" using entries_nonempty [OF 3(3)] by simp
    have "path < key \<Longrightarrow> filter (\<lambda>e. fst e \<le> key) ?es = ?es" using off(1) by (intro filter_True) (auto intro: less_imp_le)
    moreover have "\<not> path < key \<Longrightarrow> filter (\<lambda>e. fst e \<le> key) ?es = []" using off(1,3) by (auto simp: filter_empty_conv order_le_less simp del: entries.simps)
    moreover have "find_le nodes leaves key (tag (CN p path sh cs)) = (if path < key then find_predecessor nodes p else Some None)"
      using False by (subst find_le.simps) (simp add: n off_path_iff del: drop_bit_xor)
    ultimately show ?thesis using find_predecessor_ok [OF 3(2,3)] ne
      by (cases "path < key") (auto simp: last_le_def Let_def)
  next
    case True
    have c: "cs ! ?i \<in> set cs" using len by simp
    have "find_le nodes leaves key (tag (cs ! ?i)) = Some (last_le key (entries (cs ! ?i)))"
      using 3(1) [OF c] c 3(2,3) by simp
    moreover have "find_le nodes leaves key (tag (CN p path sh cs)) = do {
        r \<leftarrow> find_le nodes leaves key (tag (cs ! ?i));
        (case r of Some k \<Rightarrow> Some (Some k) | None \<Rightarrow> left_of nodes (map tag cs) ?i) }"
      using True len by (subst find_le.simps) (simp add: n off_path_iff del: drop_bit_xor)
    ultimately show ?thesis
      unfolding entries_around(1) [OF 3(3) True] last_le_append [OF entries_around(2,3) [OF 3(3) True]]
      using left_of_ok [OF 3(2,3), of ?i] by (auto simp: Let_def less_imp_le split: option.splits)
  qed
qed

lemma find_ge_ok: "ct_rep nodes leaves t \<Longrightarrow> wf_ct t \<Longrightarrow> find_ge nodes leaves key (tag t) = Some (first_ge key (entries t))"
proof (induction t rule: entries.induct)
  case 1
  then show ?case by (subst find_ge.simps) (simp add: first_ge_def Let_def)
next
  case (2 p k)
  then show ?case by (subst find_ge.simps) (auto simp: first_ge_def)
next
  case (3 p path sh cs)
  have n: "nodes p = Some \<lparr>n_child = map tag cs, n_path = path, n_shift = sh\<rparr>" using 3(2) by simp
  have len: "length cs = 16" using 3(3) by simp
  let ?i = "slice_index key sh" and ?es = "entries (CN p path sh cs)"
  show ?case
  proof (cases "above key sh = above path sh")
    case False
    note off = entries_off_path [OF 3(3) False]
    have ne: "?es \<noteq> []" using entries_nonempty [OF 3(3)] by simp
    have "path > key \<Longrightarrow> filter (\<lambda>e. key \<le> fst e) ?es = ?es" using off(2) by (intro filter_True) (auto intro: less_imp_le)
    moreover have "\<not> path > key \<Longrightarrow> filter (\<lambda>e. key \<le> fst e) ?es = []" using off(2,3) by (auto simp: filter_empty_conv order_le_less simp del: entries.simps)
    moreover have "find_ge nodes leaves key (tag (CN p path sh cs)) = (if path > key then find_successor nodes p else Some None)"
      using False by (subst find_ge.simps) (simp add: n off_path_iff del: drop_bit_xor)
    ultimately show ?thesis using find_successor_ok [OF 3(2,3)] ne
      by (cases "path > key") (auto simp: first_ge_def Let_def)
  next
    case True
    have c: "cs ! ?i \<in> set cs" using len by simp
    have "find_ge nodes leaves key (tag (cs ! ?i)) = Some (first_ge key (entries (cs ! ?i)))"
      using 3(1) [OF c] c 3(2,3) by simp
    moreover have "find_ge nodes leaves key (tag (CN p path sh cs)) = do {
        r \<leftarrow> find_ge nodes leaves key (tag (cs ! ?i));
        (case r of Some k \<Rightarrow> Some (Some k) | None \<Rightarrow> right_of nodes (map tag cs) ?i) }"
      using True len by (subst find_ge.simps) (simp add: n off_path_iff del: drop_bit_xor)
    ultimately show ?thesis
      unfolding entries_around(1) [OF 3(3) True] first_ge_append [OF entries_around(2,3) [OF 3(3) True]]
      using right_of_ok [OF 3(2,3), of ?i] by (auto simp: Let_def split: option.splits)
  qed
qed

text \<open>The walk of an exact search ends at the leaf of the key, if the tree has one.\<close>

lemma get_walk_ok:
  "ct_rep nodes leaves t \<Longrightarrow> wf_ct t \<Longrightarrow>
   \<exists>r. get_walk nodes key (tag t) = Some r \<and>
     (case r of None \<Rightarrow> key \<notin> fst ` set (entries t) | Some p \<Rightarrow> \<exists>k. (k, p) \<in> set (entries t) \<and> (key \<in> fst ` set (entries t) \<longrightarrow> k = key))"
proof (induction t rule: entries.induct)
  case 1
  then show ?case by (subst get_walk.simps) simp
next
  case (2 p k)
  then show ?case by (subst get_walk.simps) auto
next
  case (3 p path sh cs)
  have n: "nodes p = Some \<lparr>n_child = map tag cs, n_path = path, n_shift = sh\<rparr>" using 3(2) by simp
  have len: "length cs = 16" using 3(3) by simp
  let ?i = "slice_index key sh"
  have c: "cs ! ?i \<in> set cs" using len by simp
  have e: "get_walk nodes key (tag (CN p path sh cs)) = get_walk nodes key (tag (cs ! ?i))"
    using len by (subst get_walk.simps) (simp add: n)
  have "key \<in> fst ` set (entries (CN p path sh cs)) \<Longrightarrow> key \<in> fst ` set (entries (cs ! ?i))"
    using wf_ct_entry(2) [OF 3(3)] by blast
  moreover have "set (entries (cs ! ?i)) \<subseteq> set (entries (CN p path sh cs))" using c by auto
  moreover obtain r where r: "get_walk nodes key (tag (cs ! ?i)) = Some r"
    "case r of None \<Rightarrow> key \<notin> fst ` set (entries (cs ! ?i))
     | Some p \<Rightarrow> \<exists>k. (k, p) \<in> set (entries (cs ! ?i)) \<and> (key \<in> fst ` set (entries (cs ! ?i)) \<longrightarrow> k = key)"
    using 3(1) [OF c] c 3(2,3) by auto
  ultimately show ?case unfolding e r(1) by (cases r) (simp_all del: entries.simps, blast+)
qed

end
