(* ===== verification/Critnib_Frames.thy ===== *)
theory Critnib_Frames
  imports Critnib_Tree
begin

text \<open>
  Trees with a hole: a subtree in its context, replacement of a subtree by a store into the
  node above it, and the walks of insertion and removal down to the place of a key.
\<close>

section \<open>Frames\<close>

lemma leaf_ptrs_simps [simp]:
  "leaf_ptrs CE = []" "leaf_ptrs (CL p k) = [p]" "leaf_ptrs (CN p path sh cs) = concat (map leaf_ptrs cs)"
  by (simp_all add: leaf_ptrs_def [abs_def] map_concat comp_def)

lemma ct_rep_frame:
  "ct_rep nodes leaves t \<Longrightarrow> \<forall>p\<in>set (node_ptrs t). nodes' p = nodes p \<Longrightarrow>
   \<forall>p\<in>set (leaf_ptrs t). map_option k_key (leaves' p) = map_option k_key (leaves p) \<Longrightarrow> ct_rep nodes' leaves' t"
  by (induction t rule: entries.induct) auto

text \<open>A frame is a node with the subtrees to the left and to the right of the one that is being replaced.\<close>

type_synonym frame = "ptr \<times> u64 \<times> nat \<times> ct list \<times> ct list"

fun fill :: "frame list \<Rightarrow> ct \<Rightarrow> ct" where
  "fill [] u = u"
| "fill ((p, path, sh, L, R) # fs) u = CN p path sh (L @ fill fs u # R)"

text \<open>The keys that may stand at the position.\<close>

fun at_hole :: "frame list \<Rightarrow> u64 \<Rightarrow> bool" where
  "at_hole [] k \<longleftrightarrow> True"
| "at_hole ((p, path, sh, L, R) # fs) k \<longleftrightarrow> above k sh = above path sh \<and> slice_index k sh = length L \<and> at_hole fs k"

fun slot_at :: "slot \<Rightarrow> frame list \<Rightarrow> slot" where
  "slot_at sl [] = sl"
| "slot_at sl ((p, path, sh, L, R) # fs) = slot_at (Child_Slot p (length L)) fs"

lemma slot_at_append [simp]: "slot_at sl (fs @ gs) = slot_at (slot_at sl fs) gs"
  by (induction sl fs rule: slot_at.induct) auto

lemma fill_append [simp]: "fill (fs @ gs) u = fill fs (fill gs u)"
  by (induction fs u rule: fill.induct) auto

lemma at_hole_append [simp]: "at_hole (fs @ gs) k \<longleftrightarrow> at_hole fs k \<and> at_hole gs k"
  by (induction fs k rule: at_hole.induct) auto

lemma fill_entries: "\<exists>A B. \<forall>u. entries (fill fs u) = A @ entries u @ B"
proof (induction fs)
  case (Cons f fs)
  obtain p path sh L R where f: "f = (p, path, sh, L, R)" by (cases f)
  obtain A B where "\<forall>u. entries (fill fs u) = A @ entries u @ B" using Cons by auto
  then have "\<forall>u. entries (fill (f # fs) u) = (concat (map entries L) @ A) @ entries u @ (B @ concat (map entries R))"
    by (simp add: f)
  then show ?case by blast
qed (auto intro: exI [of _ "[]"])

lemma fill_node_ptrs: "\<exists>A B. \<forall>u. node_ptrs (fill fs u) = A @ node_ptrs u @ B"
proof (induction fs)
  case (Cons f fs)
  obtain p path sh L R where f: "f = (p, path, sh, L, R)" by (cases f)
  obtain A B where "\<forall>u. node_ptrs (fill fs u) = A @ node_ptrs u @ B" using Cons by auto
  then have "\<forall>u. node_ptrs (fill (f # fs) u) = (p # concat (map node_ptrs L) @ A) @ node_ptrs u @ (B @ concat (map node_ptrs R))"
    by (simp add: f)
  then show ?case by blast
qed (auto intro: exI [of _ "[]"])

lemma tag_fill: "fs \<noteq> [] \<Longrightarrow> tag (fill fs u) = tag (fill fs u')"
  by (cases fs) auto

lemma fill_nonempty: "u \<noteq> CE \<Longrightarrow> fill fs u \<noteq> CE"
  by (cases fs) auto

lemma fill_not_CE: "fs \<noteq> [] \<Longrightarrow> fill fs u \<noteq> CE"
  by (cases fs) auto

lemma all_less_split: "n < (m :: nat) \<Longrightarrow> (P n \<longleftrightarrow> Q) \<Longrightarrow> (\<forall>i<m. P i) \<longleftrightarrow> Q \<and> (\<forall>i<m. i \<noteq> n \<longrightarrow> P i)"
  by blast

text \<open>Well-formedness of a node, with one child singled out.\<close>

lemma wf_ct_node:
  "wf_ct (CN p path sh (L @ u # R)) \<longleftrightarrow>
     length L + length R = 15 \<and> sh mod 4 = 0 \<and> sh \<le> 60 \<and> is_path path sh \<and>
     2 \<le> length (filter (\<lambda>t. t \<noteq> CE) (L @ R)) + (if u = CE then 0 else 1) \<and>
     wf_ct u \<and> (\<forall>t\<in>set (L @ R). wf_ct t) \<and>
     (\<forall>k\<in>fst ` set (entries u). above k sh = above path sh \<and> slice_index k sh = length L) \<and>
     (\<forall>i<16. i \<noteq> length L \<longrightarrow> (\<forall>k\<in>fst ` set (entries ((L @ u # R) ! i)). above k sh = above path sh \<and> slice_index k sh = i))"
  (is "?l \<longleftrightarrow> ?r")
proof (cases "length L + length R = 15")
  case True
  then have A: "(\<forall>i<16. \<forall>k\<in>fst ` set (entries ((L @ u # R) ! i)). above k sh = above path sh \<and> slice_index k sh = i) \<longleftrightarrow>
    (\<forall>k\<in>fst ` set (entries u). above k sh = above path sh \<and> slice_index k sh = length L) \<and>
    (\<forall>i<16. i \<noteq> length L \<longrightarrow> (\<forall>k\<in>fst ` set (entries ((L @ u # R) ! i)). above k sh = above path sh \<and> slice_index k sh = i))"
    (is "(\<forall>i<16. ?P i) \<longleftrightarrow> ?Q \<and> (\<forall>i<16. i \<noteq> length L \<longrightarrow> ?P i)")
  proof -
    have "length L < 16" using True by linarith
    moreover have "?P (length L) \<longleftrightarrow> ?Q" by (simp only: nth_append_length)
    ultimately show ?thesis by (rule all_less_split)
  qed
  have B: "2 \<le> length (filter (\<lambda>t. t \<noteq> CE) (L @ u # R)) \<longleftrightarrow>
      2 \<le> length (filter (\<lambda>t. t \<noteq> CE) (L @ R)) + (if u = CE then 0 else 1)" by simp
  have C: "(\<forall>t\<in>set (L @ u # R). wf_ct t) \<longleftrightarrow> wf_ct u \<and> (\<forall>t\<in>set (L @ R). wf_ct t)" by auto
  have D: "length (L @ u # R) = 16" using True by simp
  show ?thesis by (simp only: wf_ct.simps A B C D True conj_assoc simp_thms)
next
  case False
  then have "length (L @ u # R) \<noteq> 16" by simp
  then show ?thesis using False by (simp only: wf_ct.simps simp_thms)
qed

lemma nth_other: "i \<noteq> length L \<Longrightarrow> (L @ u # R) ! i = (L @ u' # R) ! i"
  by (simp add: nth_append nth_Cons')

lemma wf_fill_sub: "wf_ct (fill fs u) \<Longrightarrow> wf_ct u \<and> (\<forall>k\<in>fst ` set (entries u). at_hole fs k)"
proof (induction fs)
  case (Cons f fs)
  obtain p path sh L R where f: "f = (p, path, sh, L, R)" by (cases f)
  have w: "wf_ct (fill fs u)" "\<forall>k\<in>fst ` set (entries (fill fs u)). above k sh = above path sh \<and> slice_index k sh = length L"
    using Cons.prems unfolding f fill.simps wf_ct_node by auto
  moreover obtain A B where "entries (fill fs u) = A @ entries u @ B" using fill_entries by blast
  ultimately show ?case using Cons.IH by (auto simp: f)
qed simp

text \<open>Replacing a subtree by another one for keys that may stand there.\<close>

lemma wf_fill_replace:
  "wf_ct (fill fs u) \<Longrightarrow> wf_ct u' \<Longrightarrow> u' \<noteq> CE \<Longrightarrow> \<forall>k\<in>fst ` set (entries u'). at_hole fs k \<Longrightarrow> wf_ct (fill fs u')"
proof (induction fs)
  case (Cons f fs)
  obtain p path sh L R where f: "f = (p, path, sh, L, R)" by (cases f)
  obtain A B where AB: "\<And>v. entries (fill fs v) = A @ entries v @ B" using fill_entries by blast
  have w: "wf_ct (CN p path sh (L @ fill fs u # R))" using Cons.prems by (simp add: f)
  have k: "\<forall>k\<in>fst ` set (entries (fill fs u')). above k sh = above path sh \<and> slice_index k sh = length L"
    using w Cons.prems(4) unfolding wf_ct_node AB by (auto simp: f)
  have o: "(L @ fill fs u' # R) ! i = (L @ fill fs u # R) ! i" if "i \<noteq> length L" for i
    using that by (rule nth_other)
  have "wf_ct (fill fs u')" using w Cons unfolding wf_ct_node by (auto simp: f)
  moreover have "2 \<le> length (filter (\<lambda>t. t \<noteq> CE) (L @ R)) + (if fill fs u' = CE then 0 else 1)"
    using w fill_nonempty [OF Cons.prems(3), of fs] unfolding wf_ct_node by (auto split: if_splits)
  ultimately show ?case using w k o unfolding f fill.simps wf_ct_node by auto
qed simp

lemma ct_rep_fill_sub: "ct_rep nodes leaves (fill fs u) \<Longrightarrow> ct_rep nodes leaves u"
  by (induction fs u rule: fill.induct) auto

text \<open>The heap after the store into the last frame.\<close>

lemma ct_rep_fill_store:
  assumes "ct_rep nodes leaves (fill (fs @ [(p, path, sh, L, R)]) u)"
    "distinct (node_ptrs (fill (fs @ [(p, path, sh, L, R)]) u))"
    "\<forall>q\<in>set (node_ptrs (fill (fs @ [(p, path, sh, L, R)]) u)). q \<noteq> p \<longrightarrow> nodes' q = nodes q"
    "nodes' p = map_option (\<lambda>nd. nd\<lparr>n_child := (n_child nd)[length L := tag u']\<rparr>) (nodes p)"
    "ct_rep nodes' leaves' u'"
    "\<forall>q\<in>set (leaf_ptrs (fill (fs @ [(p, path, sh, L, R)]) u)). map_option k_key (leaves' q) = map_option k_key (leaves q)"
  shows "ct_rep nodes' leaves' (fill (fs @ [(p, path, sh, L, R)]) u')"
  using assms
proof (induction fs)
  case Nil
  have "ct_rep nodes' leaves' t" if t: "t \<in> set (L @ R)" for t
  proof (rule ct_rep_frame [of nodes leaves t])
    show "\<forall>q\<in>set (node_ptrs t). nodes' q = nodes q"
    proof
      fix q assume q: "q \<in> set (node_ptrs t)"
      then have "q \<in> set (node_ptrs (fill ([] @ [(p, path, sh, L, R)]) u))" using t by auto
      moreover have "p \<notin> (\<Union>t\<in>set (L @ R). set (node_ptrs t))" using Nil(2) by simp
      then have "q \<noteq> p" using q t by blast
      ultimately show "nodes' q = nodes q" using Nil(3) by blast
    qed
    show "\<forall>q\<in>set (leaf_ptrs t). map_option k_key (leaves' q) = map_option k_key (leaves q)"
      using t Nil(6) by auto
    show "ct_rep nodes leaves t" using t Nil(1) by auto
  qed
  moreover have "nodes p = Some \<lparr>n_child = map tag L @ tag u # map tag R, n_path = path, n_shift = sh\<rparr>" using Nil(1) by simp
  then have "nodes' p = Some \<lparr>n_child = map tag L @ tag u' # map tag R, n_path = path, n_shift = sh\<rparr>"
    using Nil(4) list_update_length [of "map tag L"] by simp
  ultimately show ?case using Nil(5) by auto
next
  case (Cons g fs)
  obtain p2 path2 sh2 L2 R2 where g: "g = (p2, path2, sh2, L2, R2)" by (cases g)
  let ?f = "fs @ [(p, path, sh, L, R)]"
  have pin: "p \<in> set (node_ptrs (fill ?f u))"
    using fill_node_ptrs [of fs] by auto
  have dist: "p2 \<noteq> p" "\<forall>t\<in>set (L2 @ R2). p \<notin> set (node_ptrs t)" "distinct (node_ptrs (fill ?f u))"
  proof -
    have d: "distinct (p2 # concat (map node_ptrs L2) @ node_ptrs (fill ?f u) @ concat (map node_ptrs R2))"
      using Cons.prems(2) by (simp add: g del: fill_append)
    then show "distinct (node_ptrs (fill ?f u))" by simp
    show "p2 \<noteq> p" using d pin by auto
    have "set (concat (map node_ptrs L2)) \<inter> set (node_ptrs (fill ?f u)) = {}" "set (node_ptrs (fill ?f u)) \<inter> set (concat (map node_ptrs R2)) = {}"
      using d by auto
    then have "p \<notin> set (concat (map node_ptrs L2))" "p \<notin> set (concat (map node_ptrs R2))" using pin by blast+
    then show "\<forall>t\<in>set (L2 @ R2). p \<notin> set (node_ptrs t)" by auto
  qed
  have "ct_rep nodes' leaves' (fill ?f u')"
  proof (rule Cons.IH)
    show "\<forall>q\<in>set (leaf_ptrs (fill ?f u)). map_option k_key (leaves' q) = map_option k_key (leaves q)"
      using Cons.prems(6) by (simp add: g ball_Un del: fill_append)
    show "ct_rep nodes leaves (fill ?f u)" using Cons.prems(1) by (simp add: g del: fill_append)
    show "\<forall>q\<in>set (node_ptrs (fill ?f u)). q \<noteq> p \<longrightarrow> nodes' q = nodes q"
      using Cons.prems(3) by (simp add: g ball_Un del: fill_append)
  qed (fact dist(3) Cons.prems(4) Cons.prems(5))+
  moreover have "\<forall>t\<in>set (L2 @ R2). ct_rep nodes' leaves' t"
  proof
    fix t assume t: "t \<in> set (L2 @ R2)"
    have "\<forall>q\<in>set (node_ptrs t). q \<noteq> p \<longrightarrow> nodes' q = nodes q"
      using t Cons.prems(3) by (auto simp add: g ball_Un simp del: fill_append)
    moreover have "p \<notin> set (node_ptrs t)" using t dist(2) by blast
    ultimately have n: "\<forall>q\<in>set (node_ptrs t). nodes' q = nodes q" by metis
    have l: "\<forall>q\<in>set (leaf_ptrs t). map_option k_key (leaves' q) = map_option k_key (leaves q)"
    proof
      fix q assume "q \<in> set (leaf_ptrs t)"
      then have "q \<in> set (leaf_ptrs (fill ((g # fs) @ [(p, path, sh, L, R)]) u))"
        using t by (auto simp: g simp del: fill_append)
      then show "map_option k_key (leaves' q) = map_option k_key (leaves q)" by (rule Cons.prems(6) [rule_format])
    qed
    have "ct_rep nodes leaves t" using t Cons.prems(1) by (auto simp: g simp del: fill_append)
    then show "ct_rep nodes' leaves' t" using n l by (rule ct_rep_frame)
  qed
  moreover have "tag (fill ?f u) = tag (fill ?f u')" by (rule tag_fill) simp
  moreover have "nodes' p2 = nodes p2" using Cons.prems(3) dist(1) by (simp add: g)
  ultimately show ?case using Cons.prems(1) by (auto simp: g simp del: fill_append)
qed

section \<open>Walks\<close>

lemma split_child: "length cs = 16 \<Longrightarrow> i < 16 \<Longrightarrow> cs = take i cs @ cs ! i # drop (Suc i) cs \<and> length (take i cs) = i"
  by (simp add: id_take_nth_drop)

text \<open>
  The walk of an insertion ends at the place of the key: an empty slot, a leaf, or a node
  whose path the key does not share.
\<close>

lemma insert_walk_ok:
  "ct_rep nodes leaves t \<Longrightarrow> wf_ct t \<Longrightarrow>
   \<exists>fs u. t = fill fs u \<and> at_hole fs key \<and>
     insert_walk nodes key prev sl (tag t) =
       Some (if fs = [] then prev else Some (Node_Ptr (fst (last fs))), slot_at sl fs, tag u) \<and>
     (\<forall>p path sh cs. u = CN p path sh cs \<longrightarrow> above key sh \<noteq> above path sh)"
proof (induction t arbitrary: prev sl rule: entries.induct)
  case 1
  show ?case by (rule exI [of _ "[]"], subst insert_walk.simps) simp
next
  case (2 p k)
  show ?case by (rule exI [of _ "[]"], subst insert_walk.simps) simp
next
  case (3 p path sh cs)
  have n: "nodes p = Some \<lparr>n_child = map tag cs, n_path = path, n_shift = sh\<rparr>" using 3(2) by simp
  have len: "length cs = 16" and pth: "is_path path sh" using 3(3) by auto
  let ?i = "slice_index key sh"
  show ?case
  proof (cases "above key sh = above path sh")
    case False
    then show ?thesis using on_path_iff [OF pth]
      by (intro exI [of _ "[]"] exI [of _ "CN p path sh cs"], subst insert_walk.simps) (simp add: n)
  next
    case True
    have c: "cs ! ?i \<in> set cs" using len by simp
    have ch: "ct_rep nodes leaves (cs ! ?i)" "wf_ct (cs ! ?i)" using c 3(2,3) by auto
    obtain fs u where fs: "cs ! ?i = fill fs u" "at_hole fs key"
      "insert_walk nodes key (Some (Node_Ptr p)) (Child_Slot p ?i) (tag (cs ! ?i)) =
         Some (if fs = [] then Some (Node_Ptr p) else Some (Node_Ptr (fst (last fs))), slot_at (Child_Slot p ?i) fs, tag u)"
      "\<forall>p path sh cs. u = CN p path sh cs \<longrightarrow> above key sh \<noteq> above path sh"
      using 3(1) [OF c ch, of "Some (Node_Ptr p)" "Child_Slot p ?i"] by blast
    let ?fs = "(p, path, sh, take ?i cs, drop (Suc ?i) cs) # fs"
    have "CN p path sh cs = fill ?fs u" using split_child [OF len, of ?i] fs(1) by simp
    moreover have "at_hole ?fs key" using fs(2) True len by simp
    moreover have "insert_walk nodes key prev sl (tag (CN p path sh cs)) =
        Some (if ?fs = [] then prev else Some (Node_Ptr (fst (last ?fs))), slot_at sl ?fs, tag u)"
      using True on_path_iff [OF pth] fs(3) len by (subst insert_walk.simps) (simp add: n)
    ultimately show ?thesis using fs(4) by blast
  qed
qed

text \<open>The walk of a removal ends at a leaf and remembers the node above it and the slot of that node.\<close>

definition removal_spot :: "u64 \<Rightarrow> slot \<Rightarrow> ct \<Rightarrow> (ptr \<times> slot \<times> ptr) option \<Rightarrow> bool" where
  "removal_spot key kp t r \<longleftrightarrow>
     (case r of
        None \<Rightarrow> key \<notin> fst ` set (entries t)
      | Some (b, sl, k) \<Rightarrow> \<exists>fs path sh L kk R. t = fill fs (CN b path sh (L @ CL k kk # R)) \<and> sl = slot_at kp fs \<and>
          (kk \<noteq> key \<longrightarrow> key \<notin> fst ` set (entries t)))"

lemma removal_spot_Some:
  "t = fill fs (CN b path sh (L @ CL k kk # R)) \<Longrightarrow> sl = slot_at kp fs \<Longrightarrow>
   (kk \<noteq> key \<Longrightarrow> key \<notin> fst ` set (entries t)) \<Longrightarrow> removal_spot key kp t (Some (b, sl, k))"
  unfolding removal_spot_def option.case case_prod_conv by blast

lemma removal_spot_lift:
  assumes "removal_spot key (Child_Slot p i) (cs ! i) r" "length cs = 16" "i < 16"
    "key \<in> fst ` set (entries (CN p path sh cs)) \<Longrightarrow> key \<in> fst ` set (entries (cs ! i))"
  shows "removal_spot key kp (CN p path sh cs) r"
proof (cases r)
  case None
  then show ?thesis using assms(1,4) unfolding removal_spot_def by auto
next
  case (Some x)
  obtain b sl k where x: "x = (b, sl, k)" by (cases x)
  obtain fs path' sh' L kk R where y: "cs ! i = fill fs (CN b path' sh' (L @ CL k kk # R))" "sl = slot_at (Child_Slot p i) fs"
    "kk \<noteq> key \<longrightarrow> key \<notin> fst ` set (entries (cs ! i))"
    using assms(1) unfolding removal_spot_def Some x option.case case_prod_conv by blast
  show ?thesis unfolding Some x
  proof (rule removal_spot_Some)
    show "CN p path sh cs = fill ((p, path, sh, take i cs, drop (Suc i) cs) # fs) (CN b path' sh' (L @ CL k kk # R))"
      using split_child [OF assms(2,3)] y(1) by simp
    show "sl = slot_at kp ((p, path, sh, take i cs, drop (Suc i) cs) # fs)" using y(2) assms(2,3) by simp
    show "key \<notin> fst ` set (entries (CN p path sh cs))" if "kk \<noteq> key" using that y(3) assms(4) by blast
  qed
qed

lemma remove_walk_ok:
  "ct_rep nodes leaves (CN p path sh cs) \<Longrightarrow> wf_ct (CN p path sh cs) \<Longrightarrow>
   \<exists>r. remove_walk nodes key np kp n (Node_Ptr p) = Some r \<and> removal_spot key kp (CN p path sh cs) r"
proof (induction "CN p path sh cs" arbitrary: p path sh cs np kp n rule: entries.induct)
  case (3 p path sh cs)
  have n: "nodes p = Some \<lparr>n_child = map tag cs, n_path = path, n_shift = sh\<rparr>" using 3(2) by simp
  have len: "length cs = 16" using 3(3) by simp
  let ?i = "slice_index key sh"
  have c: "cs ! ?i \<in> set cs" using len by simp
  have key: "key \<in> fst ` set (entries (CN p path sh cs)) \<Longrightarrow> key \<in> fst ` set (entries (cs ! ?i))"
    using wf_ct_entry(2) [OF 3(3)] by blast
  show ?case
  proof (cases "cs ! ?i")
    case CE
    then have "remove_walk nodes key np kp n (Node_Ptr p) = Some None" using len by (subst remove_walk.simps) (simp add: n)
    moreover have "key \<notin> fst ` set (entries (CN p path sh cs))" using key CE by auto
    ultimately show ?thesis unfolding removal_spot_def by simp
  next
    case (CL k kk)
    have "remove_walk nodes key np kp n (Node_Ptr p) = Some (Some (p, kp, k))"
      using len CL by (subst remove_walk.simps, simp add: n, subst remove_walk.simps) simp
    moreover have "removal_spot key kp (CN p path sh cs) (Some (p, kp, k))"
    proof (rule removal_spot_Some)
      show "CN p path sh cs = fill [] (CN p path sh (take ?i cs @ CL k kk # drop (Suc ?i) cs))"
        using split_child [OF len, of ?i] CL by simp
      show "key \<notin> fst ` set (entries (CN p path sh cs))" if "kk \<noteq> key" using that key CL by auto
    qed simp
    ultimately show ?thesis by blast
  next
    case (CN q path' sh' cs')
    have w: "remove_walk nodes key np kp n (Node_Ptr p) = remove_walk nodes key kp (Child_Slot p ?i) p (Node_Ptr q)"
      using len CN by (subst remove_walk.simps) (simp add: n)
    have "ct_rep nodes leaves (cs ! ?i)" "wf_ct (cs ! ?i)" using c 3(2,3) by auto
    then obtain r where r: "remove_walk nodes key kp (Child_Slot p ?i) p (Node_Ptr q) = Some r"
      "removal_spot key (Child_Slot p ?i) (cs ! ?i) r"
      using 3(1) [of q path' sh' cs'] c unfolding CN by blast
    then show ?thesis unfolding w using removal_spot_lift [OF r(2) len slice_index_less key] by blast
  qed
qed

end
