(* ===== verification/Critnib_Inv.thy ===== *)
theory Critnib_Inv
  imports Critnib_Frames
begin

text \<open>
  The invariant of a critnib: what the heaps hold besides the tree (the pools, the ring of
  recent removals, leaves that wait for their last reference), the view of it as a map with
  counted references, and the effect of the pool operations on both.
\<close>

section \<open>Pools\<close>

definition somes :: "'a option list \<Rightarrow> 'a list" where
  "somes xs = map the (filter (\<lambda>x. x \<noteq> None) xs)"

lemma somes_simps [simp]: "somes [] = []" "somes (None # xs) = somes xs" "somes (Some x # xs) = x # somes xs"
  "somes (xs @ ys) = somes xs @ somes ys"
  by (simp_all add: somes_def)

lemma set_somes [simp]: "p \<in> set (somes xs) \<longleftrightarrow> Some p \<in> set xs"
  by (force simp: somes_def)

lemma somes_split:
  assumes "i < length xs"
  obtains A B where "somes xs = A @ somes [xs ! i] @ B" "\<And>y. somes (xs[i := y]) = A @ somes [y] @ B"
proof
  show "somes xs = somes (take i xs) @ somes [xs ! i] @ somes (drop (Suc i) xs)"
    using assms by (metis id_take_nth_drop somes_simps(4) append_Cons append_Nil)
  show "somes (xs[i := y]) = somes (take i xs) @ somes [y] @ somes (drop (Suc i) xs)" for y
    using assms by (metis upd_conv_take_nth_drop somes_simps(4) append_Cons append_Nil)
qed

fun node_chain :: "critnib_node heap \<Rightarrow> ref \<Rightarrow> ptr list \<Rightarrow> bool" where
  "node_chain h r [] \<longleftrightarrow> r = None"
| "node_chain h r (p # ps) \<longleftrightarrow>
     r = Some p \<and> (\<exists>nd r'. h p = Some nd \<and> n_child nd ! 0 = map_option Node_Ptr r' \<and> node_chain h r' ps)"

fun leaf_chain :: "'v critnib_leaf heap \<Rightarrow> ref \<Rightarrow> ptr list \<Rightarrow> bool" where
  "leaf_chain h r [] \<longleftrightarrow> r = None"
| "leaf_chain h r (p # ps) \<longleftrightarrow> r = Some p \<and> (\<exists>lf. h p = Some lf \<and> leaf_chain h (k_next lf) ps)"

lemma node_chain_frame: "node_chain h r ps \<Longrightarrow> \<forall>p\<in>set ps. h' p = h p \<Longrightarrow> node_chain h' r ps"
  by (induction ps arbitrary: r) auto

lemma leaf_chain_frame:
  "leaf_chain h r ps \<Longrightarrow> \<forall>p\<in>set ps. map_option k_next (h' p) = map_option k_next (h p) \<Longrightarrow> leaf_chain h' r ps"
proof (induction ps arbitrary: r)
  case (Cons p ps)
  then obtain lf where lf: "r = Some p" "h p = Some lf" "leaf_chain h (k_next lf) ps" by auto
  then obtain lf' where "h' p = Some lf'" "k_next lf' = k_next lf" using Cons.prems(2) by (cases "h' p") auto
  then show ?case using Cons lf by auto
qed simp

section \<open>Invariant\<close>

text \<open>
  The nodes of the heap are those of the tree (\<open>tp\<close>), of the pool (\<open>ns\<close>), of the ring
  (\<open>pn\<close>), and those that an operation has taken and not yet linked (\<open>fn\<close>).
\<close>

definition nodes_inv :: "critnib_node heap \<Rightarrow> ref \<Rightarrow> ref list \<Rightarrow> ptr list \<Rightarrow> ptr list \<Rightarrow> ptr list \<Rightarrow> bool" where
  "nodes_inv h dn pn tp ns fn \<longleftrightarrow>
     node_chain h dn ns \<and> length pn = 16 \<and> distinct (tp @ ns @ somes pn @ fn) \<and> dom h = set (tp @ ns @ somes pn @ fn) \<and>
     (\<forall>p nd. h p = Some nd \<longrightarrow> length (n_child nd) = 16)"

text \<open>The states of a leaf; \<open>cb\<close> says whether leaves are counted.\<close>

definition live_leaf :: "bool \<Rightarrow> 'v critnib_leaf \<Rightarrow> bool" where
  "live_leaf cb lf \<longleftrightarrow> k_value lf \<noteq> None \<and> k_to_be_freed lf = None \<and> \<not> k_pending lf \<and>
     (if cb then LEAF_VALID \<le> k_ref_count lf else k_ref_count lf = 0)"

definition idle_leaf :: "'v critnib_leaf \<Rightarrow> bool" where
  "idle_leaf lf \<longleftrightarrow> k_to_be_freed lf = None \<and> \<not> k_pending lf \<and> k_ref_count lf = 0"

definition removed_leaf :: "'v critnib_leaf \<Rightarrow> bool" where
  "removed_leaf lf \<longleftrightarrow> k_value lf = None \<and> k_to_be_freed lf \<noteq> None \<and> LEAF_VALID \<le> k_ref_count lf"

definition ring_leaf :: "bool \<Rightarrow> 'v critnib_leaf \<Rightarrow> bool" where
  "ring_leaf cb lf \<longleftrightarrow> \<not> k_pending lf \<and> (if cb then removed_leaf lf \<or> idle_leaf lf \<and> k_value lf = None else idle_leaf lf)"

definition held_leaf :: "bool \<Rightarrow> 'v critnib_leaf \<Rightarrow> bool" where
  "held_leaf cb lf \<longleftrightarrow> cb \<and> k_pending lf \<and> removed_leaf lf"

definition leaf_class :: "bool \<Rightarrow> ptr list \<Rightarrow> ptr list \<Rightarrow> ref list \<Rightarrow> ptr list \<Rightarrow> ptr \<Rightarrow> 'v critnib_leaf \<Rightarrow> bool" where
  "leaf_class cb lp ks pl fl p lf \<longleftrightarrow>
     (if p \<in> set lp then live_leaf cb lf
      else if p \<in> set ks then idle_leaf lf
      else if Some p \<in> set pl then ring_leaf cb lf
      else if p \<in> set fl then k_to_be_freed lf = None
      else held_leaf cb lf)"

definition leaves_inv ::
  "bool \<Rightarrow> 'v critnib_leaf heap \<Rightarrow> ref \<Rightarrow> ref list \<Rightarrow> ptr list \<Rightarrow> ptr list \<Rightarrow> ptr list \<Rightarrow> bool" where
  "leaves_inv cb h dl pl lp ks fl \<longleftrightarrow>
     leaf_chain h dl ks \<and> length pl = 16 \<and> distinct (lp @ ks @ somes pl @ fl) \<and> set (lp @ ks @ somes pl @ fl) \<subseteq> dom h \<and>
     (\<forall>p lf. h p = Some lf \<longrightarrow> leaf_class cb lp ks pl fl p lf)"

definition crit_inv :: "('v, 's) critnib \<Rightarrow> ct \<Rightarrow> ptr list \<Rightarrow> ptr list \<Rightarrow> ptr list \<Rightarrow> ptr list \<Rightarrow> bool" where
  "crit_inv c t ns ks fn fl \<longleftrightarrow>
     cr_root c = tag t \<and> wf_ct t \<and> ct_rep (cr_nodes c) (cr_leaves c) t \<and>
     nodes_inv (cr_nodes c) (cr_deleted_node c) (cr_pending_nodes c) (node_ptrs t) ns fn \<and>
     leaves_inv (cr_cb c \<noteq> None) (cr_leaves c) (cr_deleted_leaf c) (cr_pending_leaves c) (leaf_ptrs t) ks fl \<and>
     (\<forall>p\<in>dom (cr_nodes c) \<union> dom (cr_leaves c). p < next_id (cr_host c))"

lemma crit_inv_parts:
  assumes "crit_inv c t ns ks fn fl"
  shows "cr_root c = tag t" "wf_ct t" "ct_rep (cr_nodes c) (cr_leaves c) t"
    "nodes_inv (cr_nodes c) (cr_deleted_node c) (cr_pending_nodes c) (node_ptrs t) ns fn"
    "leaves_inv (cr_cb c \<noteq> None) (cr_leaves c) (cr_deleted_leaf c) (cr_pending_leaves c) (leaf_ptrs t) ks fl"
    "p \<in> dom (cr_nodes c) \<union> dom (cr_leaves c) \<Longrightarrow> p < next_id (cr_host c)"
  using assms unfolding crit_inv_def by blast+

lemma crit_invI:
  "cr_root c = tag t \<Longrightarrow> wf_ct t \<Longrightarrow> ct_rep (cr_nodes c) (cr_leaves c) t \<Longrightarrow>
   nodes_inv (cr_nodes c) (cr_deleted_node c) (cr_pending_nodes c) (node_ptrs t) ns fn \<Longrightarrow>
   leaves_inv (cr_cb c \<noteq> None) (cr_leaves c) (cr_deleted_leaf c) (cr_pending_leaves c) (leaf_ptrs t) ks fl \<Longrightarrow>
   (\<And>p. p \<in> dom (cr_nodes c) \<union> dom (cr_leaves c) \<Longrightarrow> p < next_id (cr_host c)) \<Longrightarrow> crit_inv c t ns ks fn fl"
  unfolding crit_inv_def by blast

text \<open>
  The view: the leaf of each key, the value of each leaf that is in the tree or removed and
  not yet released, and the number of references that are held on it.
\<close>

record 'v crit_view =
  cv_map :: "u64 \<rightharpoonup> ptr"
  cv_val :: "ptr \<rightharpoonup> 'v"
  cv_refs :: "ptr \<Rightarrow> nat"

definition leaf_val :: "ptr list \<Rightarrow> 'v critnib_leaf heap \<Rightarrow> ptr \<Rightarrow> 'v option" where
  "leaf_val lp h p = (case h p of None \<Rightarrow> None | Some lf \<Rightarrow> if p \<in> set lp then k_value lf else k_to_be_freed lf)"

definition leaf_refs :: "ptr list \<Rightarrow> 'v critnib_leaf heap \<Rightarrow> ptr \<Rightarrow> nat" where
  "leaf_refs lp h p =
     (case h p of
        None \<Rightarrow> 0
      | Some lf \<Rightarrow> if p \<in> set lp then unat (k_ref_count lf) - 2
          else if k_to_be_freed lf = None then 0 else unat (k_ref_count lf) - 1)"

definition view_of :: "ct \<Rightarrow> 'v critnib_leaf heap \<Rightarrow> 'v crit_view" where
  "view_of t h = \<lparr>cv_map = map_of (entries t), cv_val = leaf_val (leaf_ptrs t) h, cv_refs = leaf_refs (leaf_ptrs t) h\<rparr>"

definition crit_ok :: "('v, 's) critnib \<Rightarrow> 'v crit_view \<Rightarrow> bool" where
  "crit_ok c vw \<longleftrightarrow> (\<exists>t ns ks. crit_inv c t ns ks [] [] \<and> vw = view_of t (cr_leaves c))"

text \<open>The fields that only removals and releases change.\<close>

definition unchanged_env :: "('v, 's) critnib \<Rightarrow> ('v, 's) critnib \<Rightarrow> bool" where
  "unchanged_env c c' \<longleftrightarrow> cr_cb c' = cr_cb c \<and> cr_alloc c' = cr_alloc c \<and> cr_remove_count c' = cr_remove_count c \<and>
     set (oom (cr_host c')) \<subseteq> set (oom (cr_host c))"

lemma set_mono_tl: "set (tl xs) \<subseteq> set xs"
  by (cases xs) auto

lemma unchanged_env_refl [simp]: "unchanged_env c c"
  by (simp add: unchanged_env_def)

lemma unchanged_env_trans: "unchanged_env a b \<Longrightarrow> unchanged_env b c \<Longrightarrow> unchanged_env a c"
  by (auto simp: unchanged_env_def)

section \<open>Pool operations\<close>

lemma add_to_deleted_leaf_list_eq:
  "add_to_deleted_leaf_list k c =
     (case cr_leaves c k of
        None \<Rightarrow> None
      | Some lf \<Rightarrow> Some (c\<lparr>cr_leaves := (cr_leaves c)(k \<mapsto> lf\<lparr>k_next := cr_deleted_leaf c\<rparr>), cr_deleted_leaf := Some k\<rparr>))"
  by (cases "cr_leaves c k") (simp_all add: add_to_deleted_leaf_list_def upd_leaf_def push_leaf_loop.simps)

lemma free_leaf_eq:
  "free_leaf (Some k) c =
     (case cr_leaves c k of
        None \<Rightarrow> None
      | Some lf \<Rightarrow>
          if cr_cb c \<noteq> None \<and> k_ref_count lf > 0 then Some (c\<lparr>cr_leaves := (cr_leaves c)(k \<mapsto> lf\<lparr>k_pending := True\<rparr>)\<rparr>)
          else Some (c\<lparr>cr_leaves := (cr_leaves c)(k \<mapsto> lf\<lparr>k_pending := False, k_next := cr_deleted_leaf c\<rparr>), cr_deleted_leaf := Some k\<rparr>))"
  by (cases "cr_leaves c k") (simp_all add: free_leaf_def add_to_deleted_leaf_list_eq upd_leaf_def)

lemma free_node_eq:
  "free_node (Some a) c =
     (case cr_nodes c a of
        None \<Rightarrow> None
      | Some nd \<Rightarrow> Some (c\<lparr>cr_nodes := (cr_nodes c)(a \<mapsto> nd\<lparr>n_child := (n_child nd)[0 := map_option Node_Ptr (cr_deleted_node c)]\<rparr>),
                          cr_deleted_node := Some a\<rparr>))"
  by (cases "cr_nodes c a") (simp_all add: free_node_def upd_node_def)

text \<open>Moving one leaf from one part of the structure to another.\<close>

lemma leaves_inv_move:
  assumes "leaves_inv cb h dl pl lp ks fl"
    "leaf_chain h' dl' ks'" "length pl' = 16" "distinct (lp' @ ks' @ somes pl' @ fl')" "set (lp' @ ks' @ somes pl' @ fl') \<subseteq> dom h'"
    "\<And>p. p \<noteq> k \<Longrightarrow> h' p = h p \<and> (p \<in> set lp' \<longleftrightarrow> p \<in> set lp) \<and> (p \<in> set ks' \<longleftrightarrow> p \<in> set ks) \<and>
      (Some p \<in> set pl' \<longleftrightarrow> Some p \<in> set pl) \<and> (p \<in> set fl' \<longleftrightarrow> p \<in> set fl)"
    "\<And>lf. h' k = Some lf \<Longrightarrow> leaf_class cb lp' ks' pl' fl' k lf"
  shows "leaves_inv cb h' dl' pl' lp' ks' fl'"
  unfolding leaves_inv_def
proof (intro conjI allI impI)
  fix p lf assume "h' p = Some lf"
  then show "leaf_class cb lp' ks' pl' fl' p lf"
    using assms(1,6,7) by (cases "p = k") (simp_all add: leaves_inv_def leaf_class_def)
qed (use assms in simp_all)

lemma leaves_inv_parts:
  assumes "leaves_inv cb h dl pl lp ks fl"
  shows "leaf_chain h dl ks" "length pl = 16" "distinct (lp @ ks @ somes pl @ fl)" "set (lp @ ks @ somes pl @ fl) \<subseteq> dom h"
    "h p = Some lf \<Longrightarrow> leaf_class cb lp ks pl fl p lf"
  using assms by (simp_all add: leaves_inv_def)

text \<open>Changing a leaf in place keeps the chain of the pool when the leaf is not in it.\<close>

lemma leaves_inv_set:
  assumes "leaves_inv cb h dl pl lp ks fl" "k \<notin> set ks" "k \<in> dom h" "leaf_class cb lp ks pl fl k lf"
  shows "leaves_inv cb (h(k \<mapsto> lf)) dl pl lp ks fl"
proof (rule leaves_inv_move [OF assms(1), where k = k])
  show "leaf_chain (h(k \<mapsto> lf)) dl ks"
    using leaves_inv_parts(1) [OF assms(1)] by (rule leaf_chain_frame) (use assms(2) in auto)
qed (use leaves_inv_parts [OF assms(1)] assms in auto)

lemma leaves_inv_pop:
  assumes inv: "leaves_inv cb h (Some k) pl lp ks fl" and lf: "h k = Some lf"
  shows "\<exists>ks'. ks = k # ks' \<and> leaves_inv cb h (k_next lf) pl lp ks' (k # fl) \<and> k \<notin> set lp \<and> idle_leaf lf"
proof -
  note parts = leaves_inv_parts [OF inv]
  obtain ks' where ks: "ks = k # ks'" "leaf_chain h (k_next lf) ks'" using parts(1) lf by (cases ks) auto
  then have k: "k \<notin> set lp" "idle_leaf lf" using parts(3) parts(5) [OF lf] by (auto simp: leaf_class_def)
  have d: "distinct (lp @ ks' @ somes pl @ k # fl)" using parts(3) ks(1) by auto
  have sub: "set (lp @ ks' @ somes pl @ k # fl) \<subseteq> dom h" using parts(4) ks(1) by auto
  have cl: "leaf_class cb lp ks' pl (k # fl) k lf'" if "h k = Some lf'" for lf'
    using that lf k d by (auto simp: leaf_class_def idle_leaf_def)
  have "leaves_inv cb h (k_next lf) pl lp ks' (k # fl)"
    by (rule leaves_inv_move [OF inv ks(2) parts(2) d sub _ cl]) (simp add: ks(1))
  then show ?thesis using ks k by blast
qed

lemma leaves_inv_fresh:
  assumes inv: "leaves_inv cb h dl pl lp ks fl" and k: "k \<notin> dom h"
  shows "leaves_inv cb (h(k \<mapsto> blank_leaf)) dl pl lp ks (k # fl)"
proof -
  note parts = leaves_inv_parts [OF inv]
  have ch: "leaf_chain (h(k \<mapsto> blank_leaf)) dl ks"
    using parts(1) by (rule leaf_chain_frame) (use parts(4) k in auto)
  have n: "k \<notin> set (lp @ ks @ somes pl @ fl)" using parts(4) k by blast
  have d: "distinct (lp @ ks @ somes pl @ k # fl)" using parts(3) n by auto
  have sub: "set (lp @ ks @ somes pl @ k # fl) \<subseteq> dom (h(k \<mapsto> blank_leaf))" using parts(4) by auto
  have cl: "leaf_class cb lp ks pl (k # fl) k lf'" if "(h(k \<mapsto> blank_leaf)) k = Some lf'" for lf'
    using that n by (auto simp: leaf_class_def blank_leaf_def)
  show ?thesis by (rule leaves_inv_move [OF inv ch parts(2) d sub _ cl]) simp
qed

text \<open>A leaf that is in no part of the structure is taken from the pool or the host.\<close>

lemma leaf_view_unlinked:
  assumes "k \<notin> set lp" "\<And>lf. h k = Some lf \<Longrightarrow> k_to_be_freed lf = None" "k_to_be_freed lf' = None"
  shows "leaf_val lp (h(k \<mapsto> lf')) = leaf_val lp h" "leaf_refs lp (h(k \<mapsto> lf')) = leaf_refs lp h"
  using assms by (auto simp: leaf_val_def leaf_refs_def fun_eq_iff split: option.splits)

lemma alloc_leaf_ok:
  assumes inv: "crit_inv c t ns ks [] []"
  shows "\<exists>r c'. alloc_leaf c = Some (r, c') \<and> unchanged_env c c' \<and> view_of t (cr_leaves c') = view_of t (cr_leaves c) \<and>
    (case r of None \<Rightarrow> True \<in> set (oom (cr_host c)) \<and> crit_inv c' t ns ks [] [] | Some k \<Rightarrow> \<exists>ks'. crit_inv c' t ns ks' [] [k])"
proof (cases "cr_deleted_leaf c")
  case None
  note parts = crit_inv_parts [OF inv]
  have e: "alloc_leaf c = (case ba_global_alloc (cr_host c) of
            (None, s) \<Rightarrow> Some (None, c\<lparr>cr_host := s\<rparr>)
          | (Some a, s) \<Rightarrow> Some (Some a, c\<lparr>cr_host := s, cr_leaves := (cr_leaves c)(a \<mapsto> blank_leaf)\<rparr>))"
    unfolding alloc_leaf_def None by (subst pop_leaf_loop.simps) simp
  show ?thesis
  proof (cases rule: ba_global_alloc_cases [of "cr_host c"])
    case (fail rest)
    have "crit_inv (c\<lparr>cr_host := (cr_host c)\<lparr>oom := rest\<rparr>\<rparr>) t ns ks [] []"
      by (rule crit_invI) (use parts in simp_all)
    then show ?thesis unfolding e fail by (simp add: unchanged_env_def fail) blast
  next
    case (ok s')
    let ?k = "next_id (cr_host c)" and ?c = "c\<lparr>cr_host := s', cr_leaves := (cr_leaves c)(next_id (cr_host c) \<mapsto> blank_leaf)\<rparr>"
    have k: "?k \<notin> dom (cr_leaves c)" using parts(6) [of ?k] by blast
    have t: "?k \<notin> set (leaf_ptrs t)" using k leaves_inv_parts(4) [OF parts(5)] by auto
    have "crit_inv ?c t ns ks [] [?k]"
    proof (rule crit_invI)
      show "ct_rep (cr_nodes ?c) (cr_leaves ?c) t" using parts(3) by (rule ct_rep_frame) (use t in auto)
      show "p < next_id (cr_host ?c)" if "p \<in> dom (cr_nodes ?c) \<union> dom (cr_leaves ?c)" for p
        using that parts(6) [of p] ok(2) by (cases "p = ?k") (simp_all add: less_SucI domIff)
    qed (use parts leaves_inv_fresh [OF parts(5) k] in simp_all)
    moreover have "view_of t (cr_leaves ?c) = view_of t (cr_leaves c)"
      using t k leaf_view_unlinked [of ?k "leaf_ptrs t" "cr_leaves c" blank_leaf]
      by (simp add: view_of_def domIff) (simp add: blank_leaf_def)
    moreover have "alloc_leaf c = Some (Some ?k, ?c)" unfolding e ok by simp
    moreover have "unchanged_env c ?c" using set_mono_tl [of "oom (cr_host c)"] by (simp add: unchanged_env_def ok)
    ultimately show ?thesis by (intro exI [of _ "Some ?k"] exI [of _ ?c]) auto
  qed
next
  case (Some k)
  note parts = crit_inv_parts [OF inv]
  have lv: "leaves_inv (cr_cb c \<noteq> None) (cr_leaves c) (Some k) (cr_pending_leaves c) (leaf_ptrs t) ks []"
    using parts(5) Some by simp
  then obtain lf where lf: "cr_leaves c k = Some lf" using leaves_inv_parts(1) [OF lv] by (cases ks) auto
  have e: "alloc_leaf c = Some (Some k, c\<lparr>cr_deleted_leaf := k_next lf\<rparr>)"
    unfolding alloc_leaf_def Some by (subst pop_leaf_loop.simps) (simp add: lf Some)
  obtain ks' where "leaves_inv (cr_cb c \<noteq> None) (cr_leaves c) (k_next lf) (cr_pending_leaves c) (leaf_ptrs t) ks' [k]"
    using leaves_inv_pop [OF lv lf] by auto
  then have "crit_inv (c\<lparr>cr_deleted_leaf := k_next lf\<rparr>) t ns ks' [] [k]" by (intro crit_invI) (use parts in simp_all)
  then show ?thesis unfolding e by (auto simp: unchanged_env_def)
qed

text \<open>A leaf that is not linked can be written freely, and given back.\<close>

lemma crit_inv_set_unlinked:
  assumes inv: "crit_inv c t ns ks fn [k]" and "k_to_be_freed lf' = None"
  shows "crit_inv (c\<lparr>cr_leaves := (cr_leaves c)(k \<mapsto> lf')\<rparr>) t ns ks fn [k]"
    and "view_of t ((cr_leaves c)(k \<mapsto> lf')) = view_of t (cr_leaves c)"
proof -
  note parts = crit_inv_parts [OF inv]
  note lp = leaves_inv_parts [OF parts(5)]
  have k: "k \<in> dom (cr_leaves c)" "k \<notin> set (leaf_ptrs t)" "k \<notin> set ks" "Some k \<notin> set (cr_pending_leaves c)"
    using lp(3,4) by auto
  show "crit_inv (c\<lparr>cr_leaves := (cr_leaves c)(k \<mapsto> lf')\<rparr>) t ns ks fn [k]"
  proof (rule crit_invI)
    show "ct_rep (cr_nodes (c\<lparr>cr_leaves := (cr_leaves c)(k \<mapsto> lf')\<rparr>)) (cr_leaves (c\<lparr>cr_leaves := (cr_leaves c)(k \<mapsto> lf')\<rparr>)) t"
      using parts(3) by (rule ct_rep_frame) (use k in auto)
    have "leaf_class (cr_cb c \<noteq> None) (leaf_ptrs t) ks (cr_pending_leaves c) [k] k lf'"
      using k assms(2) by (simp add: leaf_class_def)
    from leaves_inv_set [OF parts(5) k(3,1) this]
    show "leaves_inv (cr_cb (c\<lparr>cr_leaves := (cr_leaves c)(k \<mapsto> lf')\<rparr>) \<noteq> None) (cr_leaves (c\<lparr>cr_leaves := (cr_leaves c)(k \<mapsto> lf')\<rparr>))
      (cr_deleted_leaf (c\<lparr>cr_leaves := (cr_leaves c)(k \<mapsto> lf')\<rparr>)) (cr_pending_leaves (c\<lparr>cr_leaves := (cr_leaves c)(k \<mapsto> lf')\<rparr>)) (leaf_ptrs t) ks [k]"
      by simp
    show "p < next_id (cr_host (c\<lparr>cr_leaves := (cr_leaves c)(k \<mapsto> lf')\<rparr>))"
      if "p \<in> dom (cr_nodes (c\<lparr>cr_leaves := (cr_leaves c)(k \<mapsto> lf')\<rparr>)) \<union> dom (cr_leaves (c\<lparr>cr_leaves := (cr_leaves c)(k \<mapsto> lf')\<rparr>))" for p
      using that k(1) parts(6) [of p] by (auto simp: domIff split: if_splits)
  qed (use parts in simp_all)
  have "k_to_be_freed lf = None" if "cr_leaves c k = Some lf" for lf
    using lp(5) [OF that] k by (simp add: leaf_class_def)
  then show "view_of t ((cr_leaves c)(k \<mapsto> lf')) = view_of t (cr_leaves c)"
    using leaf_view_unlinked [OF k(2) _ assms(2)] by (simp add: view_of_def)
qed

lemma leaves_inv_push:
  assumes inv: "leaves_inv cb h dl pl lp ks [k]" and "idle_leaf lf'"
  shows "leaves_inv cb (h(k \<mapsto> lf'\<lparr>k_next := dl\<rparr>)) (Some k) pl lp (k # ks) []"
proof -
  note parts = leaves_inv_parts [OF inv]
  have k: "k \<notin> set ks" "k \<notin> set lp" using parts(3) by auto
  have "leaf_chain (h(k \<mapsto> lf'\<lparr>k_next := dl\<rparr>)) dl ks" using parts(1) by (rule leaf_chain_frame) (use k in auto)
  then have ch: "leaf_chain (h(k \<mapsto> lf'\<lparr>k_next := dl\<rparr>)) (Some k) (k # ks)" by simp
  have d: "distinct (lp @ (k # ks) @ somes pl @ [])" using parts(3) by auto
  have sub: "set (lp @ (k # ks) @ somes pl @ []) \<subseteq> dom (h(k \<mapsto> lf'\<lparr>k_next := dl\<rparr>))" using parts(4) by auto
  have cl: "leaf_class cb lp (k # ks) pl [] k lf" if "(h(k \<mapsto> lf'\<lparr>k_next := dl\<rparr>)) k = Some lf" for lf
    using that k assms(2) by (auto simp: leaf_class_def idle_leaf_def)
  show ?thesis by (rule leaves_inv_move [OF inv ch parts(2) d sub _ cl]) simp
qed

lemma discard_leaf_ok:
  assumes inv: "crit_inv c t ns ks fn [k]" and lf: "cr_leaves c k = Some lf" "\<not> k_pending lf" "cr_cb c = None \<Longrightarrow> k_ref_count lf = 0"
  shows "\<exists>c'. discard_leaf k c = Some c' \<and> unchanged_env c c' \<and> crit_inv c' t ns (k # ks) fn [] \<and> view_of t (cr_leaves c') = view_of t (cr_leaves c)
    \<and> (\<forall>p. p \<noteq> k \<longrightarrow> cr_leaves c' p = cr_leaves c p)"
proof -
  note parts = crit_inv_parts [OF inv]
  note lp = leaves_inv_parts [OF parts(5)]
  have k: "k \<in> dom (cr_leaves c)" "k \<notin> set (leaf_ptrs t)" "k \<notin> set ks" "Some k \<notin> set (cr_pending_leaves c)"
    using lp(3,4) by auto
  have tbf: "k_to_be_freed lf = None" using lp(5) [OF lf(1)] k by (simp add: leaf_class_def)
  define lf1 where "lf1 = lf\<lparr>k_ref_count := 0, k_pending := False\<rparr>"
  let ?c = "c\<lparr>cr_leaves := (cr_leaves c)(k \<mapsto> lf1\<lparr>k_next := cr_deleted_leaf c\<rparr>), cr_deleted_leaf := Some k\<rparr>"
  have "cr_cb c = None \<Longrightarrow> lf = lf\<lparr>k_ref_count := 0\<rparr>" using lf(3) by (cases lf) simp
  then have e: "discard_leaf k c = Some ?c"
    using lf(1) by (cases "cr_cb c") (simp_all add: discard_leaf_def upd_leaf_def free_leaf_eq lf1_def)
  have "idle_leaf lf1" using tbf by (simp add: lf1_def idle_leaf_def)
  note pu = leaves_inv_push [OF parts(5) this]
  have "crit_inv ?c t ns (k # ks) fn []"
  proof (rule crit_invI)
    show "ct_rep (cr_nodes ?c) (cr_leaves ?c) t" using parts(3) by (rule ct_rep_frame) (use k in auto)
    show "p < next_id (cr_host ?c)" if "p \<in> dom (cr_nodes ?c) \<union> dom (cr_leaves ?c)" for p
      using that k(1) parts(6) [of p] by (auto simp: domIff split: if_splits)
  qed (use parts pu in simp_all)
  moreover have "view_of t (cr_leaves ?c) = view_of t (cr_leaves c)"
    using leaf_view_unlinked [OF k(2), of "cr_leaves c" "lf1\<lparr>k_next := cr_deleted_leaf c\<rparr>"] tbf lf
    by (simp add: view_of_def lf1_def)
  ultimately show ?thesis unfolding e by (auto simp: unchanged_env_def)
qed

section \<open>Nodes\<close>

lemma nodes_inv_parts:
  assumes "nodes_inv h dn pn tp ns fn"
  shows "node_chain h dn ns" "length pn = 16" "distinct (tp @ ns @ somes pn @ fn)" "dom h = set (tp @ ns @ somes pn @ fn)"
    "h p = Some nd \<Longrightarrow> length (n_child nd) = 16"
  using assms by (auto simp: nodes_inv_def)

lemma nodes_inv_set:
  assumes inv: "nodes_inv h dn pn tp ns fn" and a: "a \<in> dom h" "a \<notin> set ns" "length (n_child nd) = 16"
  shows "nodes_inv (h(a \<mapsto> nd)) dn pn tp ns fn"
proof -
  note parts = nodes_inv_parts [OF inv]
  have "node_chain (h(a \<mapsto> nd)) dn ns" using parts(1) by (rule node_chain_frame) (use a in auto)
  moreover have "dom (h(a \<mapsto> nd)) = set (tp @ ns @ somes pn @ fn)" using parts(4) a(1) by auto
  moreover have "\<forall>p nd'. (h(a \<mapsto> nd)) p = Some nd' \<longrightarrow> length (n_child nd') = 16" using parts(5) a(3) by auto
  ultimately show ?thesis using parts by (simp add: nodes_inv_def)
qed

lemma nodes_inv_regroup:
  assumes "nodes_inv h dn pn tp ns fn" "length pn' = 16" "distinct (tp' @ ns @ somes pn' @ fn')"
    "set (tp' @ ns @ somes pn' @ fn') = set (tp @ ns @ somes pn @ fn)"
  shows "nodes_inv h dn pn' tp' ns fn'"
  using assms unfolding nodes_inv_def by metis

lemma alloc_node_ok:
  assumes inv: "crit_inv c t ns ks [] fl"
  shows "\<exists>r c'. alloc_node c = Some (r, c') \<and> unchanged_env c c' \<and> cr_leaves c' = cr_leaves c \<and> cr_root c' = cr_root c \<and>
    (case r of
       None \<Rightarrow> True \<in> set (oom (cr_host c)) \<and> crit_inv c' t ns ks [] fl
     | Some a \<Rightarrow> \<exists>ns'. crit_inv c' t ns' ks [a] fl)"
proof (cases "cr_deleted_node c")
  case None
  note parts = crit_inv_parts [OF inv]
  note np = nodes_inv_parts [OF parts(4)]
  show ?thesis
  proof (cases rule: ba_global_alloc_cases [of "cr_host c"])
    case (fail rest)
    have "crit_inv (c\<lparr>cr_host := (cr_host c)\<lparr>oom := rest\<rparr>\<rparr>) t ns ks [] fl"
      by (rule crit_invI) (use parts in simp_all)
    then show ?thesis by (simp add: alloc_node_def None unchanged_env_def fail) blast
  next
    case (ok s')
    let ?a = "next_id (cr_host c)" and ?c = "c\<lparr>cr_host := s', cr_nodes := (cr_nodes c)(next_id (cr_host c) \<mapsto> blank_node)\<rparr>"
    have a: "?a \<notin> dom (cr_nodes c)" using parts(6) [of ?a] by blast
    then have n: "?a \<notin> set (node_ptrs t @ ns @ somes (cr_pending_nodes c))" using np(4) by auto
    have "crit_inv ?c t ns ks [?a] fl"
    proof (rule crit_invI)
      show "ct_rep (cr_nodes ?c) (cr_leaves ?c) t" using parts(3) by (rule ct_rep_frame) (use n in auto)
      have "node_chain (cr_nodes ?c) (cr_deleted_node c) ns" using np(1) by (rule node_chain_frame) (use n in auto)
      moreover have "distinct (node_ptrs t @ ns @ somes (cr_pending_nodes c) @ [?a])" using np(3) n by auto
      moreover have "dom (cr_nodes ?c) = set (node_ptrs t @ ns @ somes (cr_pending_nodes c) @ [?a])" using np(4) by auto
      moreover have "\<forall>p nd. cr_nodes ?c p = Some nd \<longrightarrow> length (n_child nd) = 16" using np(5) by (auto simp: blank_node_def)
      ultimately show "nodes_inv (cr_nodes ?c) (cr_deleted_node ?c) (cr_pending_nodes ?c) (node_ptrs t) ns [?a]"
        using np(2) by (simp add: nodes_inv_def)
      show "p < next_id (cr_host ?c)" if "p \<in> dom (cr_nodes ?c) \<union> dom (cr_leaves ?c)" for p
        using that parts(6) [of p] ok(2) by (cases "p = ?a") (simp_all add: less_SucI domIff)
    qed (use parts in simp_all)
    moreover have "alloc_node c = Some (Some ?a, ?c)" by (simp add: alloc_node_def None ok)
    moreover have "unchanged_env c ?c" using set_mono_tl [of "oom (cr_host c)"] by (simp add: unchanged_env_def ok)
    ultimately show ?thesis by (intro exI [of _ "Some ?a"] exI [of _ ?c]) auto
  qed
next
  case (Some a)
  note parts = crit_inv_parts [OF inv]
  note np = nodes_inv_parts [OF parts(4)]
  obtain ns' nd r where ns: "ns = a # ns'" "cr_nodes c a = Some nd" "n_child nd ! 0 = map_option Node_Ptr r" "node_chain (cr_nodes c) r ns'"
    using np(1) Some by (cases ns) auto
  have e: "alloc_node c = Some (Some a, c\<lparr>cr_deleted_node := r\<rparr>)"
    by (cases r) (simp_all add: alloc_node_def Some ns)
  have "distinct (node_ptrs t @ ns' @ somes (cr_pending_nodes c) @ [a])" using np(3) ns(1) by auto
  moreover have "dom (cr_nodes c) = set (node_ptrs t @ ns' @ somes (cr_pending_nodes c) @ [a])" using np(4) ns(1) by auto
  ultimately have "nodes_inv (cr_nodes c) r (cr_pending_nodes c) (node_ptrs t) ns' [a]"
    using np(2,5) ns(4) by (simp add: nodes_inv_def)
  then have "crit_inv (c\<lparr>cr_deleted_node := r\<rparr>) t ns' ks [a] fl" by (intro crit_invI) (use parts in simp_all)
  then show ?thesis unfolding e by (auto simp: unchanged_env_def)
qed

end
