(* ===== verification/Critnib_Insert.thy ===== *)
theory Critnib_Insert
  imports Critnib_Inv
begin

text \<open>
  The store that replaces one subtree by another, and the correctness of insertion.
\<close>

section \<open>Replacing a subtree\<close>

lemma fill_leaf_ptrs: "\<exists>A B. \<forall>u. leaf_ptrs (fill fs u) = A @ leaf_ptrs u @ B"
proof -
  obtain A B where "\<forall>u. entries (fill fs u) = A @ entries u @ B" using fill_entries by blast
  then have "\<forall>u. leaf_ptrs (fill fs u) = map snd A @ leaf_ptrs u @ map snd B" by (simp add: leaf_ptrs_def)
  then show ?thesis by blast
qed

lemma store_slot_node:
  "store_slot (Child_Slot a i) n c =
     (case cr_nodes c a of
        None \<Rightarrow> None
      | Some nd \<Rightarrow> Some (c\<lparr>cr_nodes := (cr_nodes c)(a \<mapsto> nd\<lparr>n_child := (n_child nd)[i := n]\<rparr>)\<rparr>))"
  by (cases "cr_nodes c a") (simp_all add: store_slot_def upd_node_def)

lemma leaves_inv_regroup:
  assumes inv: "leaves_inv cb h dl pl lp ks fl" and d: "distinct (lp' @ ks @ somes pl @ fl')"
    and st: "set (lp' @ fl') = set (lp @ fl)" and live: "\<And>p lf. p \<in> set lp' \<Longrightarrow> h p = Some lf \<Longrightarrow> live_leaf cb lf"
    and fl: "\<And>p lf. p \<in> set fl' \<Longrightarrow> h p = Some lf \<Longrightarrow> k_to_be_freed lf = None"
  shows "leaves_inv cb h dl pl lp' ks fl'"
  unfolding leaves_inv_def
proof (intro conjI allI impI)
  note parts = leaves_inv_parts [OF inv]
  show "leaf_chain h dl ks" "length pl = 16" "distinct (lp' @ ks @ somes pl @ fl')" using parts d by simp_all
  have "set (x @ ks @ somes pl @ y) = set (x @ y) \<union> set (ks @ somes pl)" for x y by auto
  then show "set (lp' @ ks @ somes pl @ fl') \<subseteq> dom h" using parts(4) st by (simp only:)
  fix p lf assume lf: "h p = Some lf"
  have "p \<in> set (lp' @ fl') \<longleftrightarrow> p \<in> set (lp @ fl)" using st by simp
  then have old: "p \<notin> set (lp' @ fl') \<Longrightarrow> p \<notin> set lp \<and> p \<notin> set fl" by simp
  have dis: "p \<in> set fl' \<Longrightarrow> p \<notin> set ks \<and> Some p \<notin> set pl" "p \<in> set lp' \<Longrightarrow> p \<notin> set ks"
    using d by auto
  show "leaf_class cb lp' ks pl fl' p lf"
  proof (cases "p \<in> set (lp' @ fl')")
    case True
    then show ?thesis using live [OF _ lf] fl [OF _ lf] dis by (auto simp: leaf_class_def)
  next
    case False
    then show ?thesis using parts(5) [OF lf] old [OF False] by (simp add: leaf_class_def)
  qed
qed

lemma exchange_parts:
  assumes "distinct ((A @ u @ B) @ R @ f)" "distinct (u' @ f')" "set (u' @ f') = set (u @ f)"
  shows "distinct ((A @ u' @ B) @ R @ f')" "set ((A @ u' @ B) @ R @ f') = set ((A @ u @ B) @ R @ f)"
proof -
  have o: "distinct (A @ B @ R)" "set (A @ B @ R) \<inter> set (u @ f) = {}" using assms(1) by auto
  then have "set (A @ B @ R) \<inter> set (u' @ f') = {}" using assms(3) by simp
  then show "distinct ((A @ u' @ B) @ R @ f')" using o(1) assms(2) by auto
  have "set ((A @ v @ B) @ R @ g) = set (A @ B @ R) \<union> set (v @ g)" for v g by auto
  then show "set ((A @ u' @ B) @ R @ f') = set ((A @ u @ B) @ R @ f)" by (simp only: assms(3))
qed

text \<open>The general step: the subtree \<open>u\<close> is replaced by \<open>u'\<close>, whose parts were in \<open>u\<close> or not linked.\<close>

lemma tree_store_ok:
  assumes inv: "crit_inv c (fill fs u) ns ks fn fl"
    and wf: "wf_ct (fill fs u')" and rep: "ct_rep (cr_nodes c) (cr_leaves c) u'"
    and nd: "distinct (node_ptrs u' @ fn')" "set (node_ptrs u' @ fn') = set (node_ptrs u @ fn)"
    and ld: "distinct (leaf_ptrs u' @ fl')" "set (leaf_ptrs u' @ fl') = set (leaf_ptrs u @ fl)"
    and live: "\<And>p lf. p \<in> set (leaf_ptrs u') \<Longrightarrow> cr_leaves c p = Some lf \<Longrightarrow> live_leaf (cr_cb c \<noteq> None) lf"
    and tbf: "\<And>p lf. p \<in> set fl' \<Longrightarrow> cr_leaves c p = Some lf \<Longrightarrow> k_to_be_freed lf = None"
  shows "\<exists>c'. store_slot (slot_at Root_Slot fs) (tag u') c = Some c' \<and> crit_inv c' (fill fs u') ns ks fn' fl' \<and> unchanged_env c c' \<and>
    cr_leaves c' = cr_leaves c \<and> cr_pending_leaves c' = cr_pending_leaves c \<and> cr_pending_nodes c' = cr_pending_nodes c"
proof -
  note parts = crit_inv_parts [OF inv]
  note np = nodes_inv_parts [OF parts(4)] and lp = leaves_inv_parts [OF parts(5)]
  obtain A B where AB: "\<And>v. node_ptrs (fill fs v) = A @ node_ptrs v @ B" using fill_node_ptrs by blast
  obtain A' B' where AB': "\<And>v. leaf_ptrs (fill fs v) = A' @ leaf_ptrs v @ B'" using fill_leaf_ptrs by blast
  have dn: "distinct (node_ptrs (fill fs u') @ ns @ somes (cr_pending_nodes c) @ fn')"
    "set (node_ptrs (fill fs u') @ ns @ somes (cr_pending_nodes c) @ fn') = set (node_ptrs (fill fs u) @ ns @ somes (cr_pending_nodes c) @ fn)"
    using exchange_parts [of A "node_ptrs u" B "ns @ somes (cr_pending_nodes c)" fn, OF _ nd] np(3) unfolding AB by (simp_all only: append_assoc)
  have dl1: "distinct (leaf_ptrs (fill fs u') @ ks @ somes (cr_pending_leaves c) @ fl')"
    using exchange_parts(1) [of A' "leaf_ptrs u" B' "ks @ somes (cr_pending_leaves c)" fl, OF _ ld] lp(3) unfolding AB'
    by (simp only: append_assoc)
  have "set (leaf_ptrs (fill fs v) @ g) = set (A' @ B') \<union> set (leaf_ptrs v @ g)" for v g unfolding AB' by auto
  then have dl2: "set (leaf_ptrs (fill fs u') @ fl') = set (leaf_ptrs (fill fs u) @ fl)" by (simp only: ld(2))
  have lv: "leaves_inv (cr_cb c \<noteq> None) (cr_leaves c) (cr_deleted_leaf c) (cr_pending_leaves c) (leaf_ptrs (fill fs u')) ks fl'"
  proof (rule leaves_inv_regroup [OF parts(5) dl1 dl2])
    fix p lf assume p: "p \<in> set (leaf_ptrs (fill fs u'))" "cr_leaves c p = Some lf"
    show "live_leaf (cr_cb c \<noteq> None) lf"
    proof (cases "p \<in> set (leaf_ptrs u')")
      case False
      then have "p \<in> set (leaf_ptrs (fill fs u))" using p(1) AB' by auto
      then show ?thesis using lp(5) [OF p(2)] by (simp add: leaf_class_def)
    qed (use live p in blast)
  qed (use tbf in blast)
  have nv: "nodes_inv (cr_nodes c) (cr_deleted_node c) (cr_pending_nodes c) (node_ptrs (fill fs u')) ns fn'"
    by (rule nodes_inv_regroup [OF parts(4) np(2) dn])
  show ?thesis
  proof (cases fs rule: rev_cases)
    case Nil
    have "crit_inv (c\<lparr>cr_root := tag u'\<rparr>) (fill fs u') ns ks fn' fl'"
      by (rule crit_invI) (use parts wf rep nv lv Nil in simp_all)
    then show ?thesis using Nil by (simp add: store_slot_def unchanged_env_def)
  next
    case (snoc gs f)
    obtain p path sh L R where f: "f = (p, path, sh, L, R)" by (cases f)
    have fs: "fs = gs @ [(p, path, sh, L, R)]" using snoc f by simp
    have pA: "p \<in> set A \<union> set B"
    proof -
      obtain A2 B2 where "\<And>v. node_ptrs (fill gs v) = A2 @ node_ptrs v @ B2" using fill_node_ptrs by blast
      then have "p \<in> set (node_ptrs (fill fs CE))" by (simp add: fs)
      then show ?thesis by (simp add: AB)
    qed
    then obtain nd where pn: "cr_nodes c p = Some nd" using np(4) AB by auto
    let ?h = "(cr_nodes c)(p \<mapsto> nd\<lparr>n_child := (n_child nd)[length L := tag u']\<rparr>)"
    let ?c = "c\<lparr>cr_nodes := ?h\<rparr>"
    have pu: "p \<notin> set (node_ptrs u')" "p \<notin> set ns" using dn(1) pA unfolding AB by auto
    have r': "ct_rep ?h (cr_leaves c) u'" using rep by (rule ct_rep_frame) (use pu in auto)
    have "ct_rep ?h (cr_leaves c) (fill fs u')" unfolding fs
    proof (rule ct_rep_fill_store)
      show "ct_rep (cr_nodes c) (cr_leaves c) (fill (gs @ [(p, path, sh, L, R)]) u)" using parts(3) unfolding fs .
      show "distinct (node_ptrs (fill (gs @ [(p, path, sh, L, R)]) u))" using np(3) unfolding fs distinct_append by blast
    qed (use pn r' in simp_all)
    moreover have "nodes_inv ?h (cr_deleted_node c) (cr_pending_nodes c) (node_ptrs (fill fs u')) ns fn'"
      using np(5) [OF pn] pn pu by (intro nodes_inv_set [OF nv]) auto
    moreover have "tag (fill fs u) = tag (fill fs u')" using fs by (intro tag_fill) simp
    moreover have "dom ?h = dom (cr_nodes c)" using pn by auto
    ultimately have "crit_inv ?c (fill fs u') ns ks fn' fl'"
      by (intro crit_invI) (use parts wf lv in simp_all)
    moreover have "store_slot (slot_at Root_Slot fs) (tag u') c = Some ?c" using pn by (simp add: fs store_slot_node)
    ultimately show ?thesis by (intro exI [of _ ?c]) (simp add: unchanged_env_def)
  qed
qed

section \<open>Keys and views\<close>

lemma hole_key: "wf_ct (fill fs u) \<Longrightarrow> at_hole fs key \<Longrightarrow> key \<in> fst ` set (entries (fill fs u)) \<Longrightarrow> key \<in> fst ` set (entries u)"
proof (induction fs)
  case (Cons f fs)
  obtain p path sh L R where f: "f = (p, path, sh, L, R)" by (cases f)
  have w: "wf_ct (CN p path sh (L @ fill fs u # R))" using Cons.prems(1) by (simp add: f)
  have "slice_index key sh = length L" "at_hole fs key" using Cons.prems(2) by (simp_all add: f)
  moreover have "key \<in> fst ` set (entries ((L @ fill fs u # R) ! slice_index key sh))"
    using Cons.prems(3) unfolding f fill.simps by (rule wf_ct_entry(2) [OF w])
  moreover have "wf_ct (fill fs u)" using w unfolding wf_ct_node by blast
  ultimately show ?case using Cons.IH by simp
qed simp

lemma entries_distinct: "wf_ct t \<Longrightarrow> distinct (map fst (entries t))"
proof -
  assume "wf_ct t"
  then have "sorted_wrt (<) (map fst (entries t))" using entries_sorted by (simp add: sorted_wrt_map)
  then show ?thesis by (simp add: strict_sorted_iff)
qed

lemma map_of_entries: "wf_ct t \<Longrightarrow> map_of (entries t) key = Some p \<longleftrightarrow> (key, p) \<in> set (entries t)"
  using entries_distinct by (simp add: map_of_eq_Some_iff)

lemma map_of_None_entries: "map_of (entries t) key = None \<longleftrightarrow> key \<notin> fst ` set (entries t)"
  by (rule map_of_eq_None_iff)

lemma leaf_ptrs_entries: "p \<in> set (leaf_ptrs t) \<longleftrightarrow> (\<exists>key. (key, p) \<in> set (entries t))"
  by (force simp: leaf_ptrs_def)

lemma ran_map_of_entries: "wf_ct t \<Longrightarrow> ran (map_of (entries t)) = set (leaf_ptrs t)"
  using map_of_entries [of t] by (auto simp: ran_def leaf_ptrs_entries)

text \<open>The view after one leaf has been linked.\<close>

lemma view_link:
  assumes wf: "wf_ct t" "wf_ct t'" and st: "set (entries t') = insert (key, k) (set (entries t))" "key \<notin> fst ` set (entries t)"
    and k: "k \<notin> set (leaf_ptrs t)" "h k = Some lf" "k_value lf = Some v" "k_to_be_freed lf = None" "unat (k_ref_count lf) \<le> 2"
  shows "view_of t' h = (view_of t h)\<lparr>cv_map := (cv_map (view_of t h))(key \<mapsto> k), cv_val := (cv_val (view_of t h))(k \<mapsto> v)\<rparr>"
proof -
  have "map_of (entries t') x = ((map_of (entries t))(key \<mapsto> k)) x" for x
  proof (cases "x = key")
    case True
    then show ?thesis using map_of_entries [OF wf(2), of key k] st(1) by simp
  next
    case False
    have "map_of (entries t') x = Some p \<longleftrightarrow> map_of (entries t) x = Some p" for p
      using False st(1) map_of_entries [OF wf(1), of x p] map_of_entries [OF wf(2), of x p] by auto
    then show ?thesis using False by (metis fun_upd_apply not_None_eq)
  qed
  moreover have l: "p \<in> set (leaf_ptrs t') \<longleftrightarrow> p = k \<or> p \<in> set (leaf_ptrs t)" for p
    using st(1) by (auto simp: leaf_ptrs_entries)
  then have "leaf_val (leaf_ptrs t') h = (leaf_val (leaf_ptrs t) h)(k \<mapsto> v)"
    using k by (auto simp: leaf_val_def fun_eq_iff split: option.splits)
  moreover have "leaf_refs (leaf_ptrs t') h = leaf_refs (leaf_ptrs t) h"
    using k l by (auto simp: leaf_refs_def fun_eq_iff split: option.splits)
  ultimately show ?thesis by (simp add: view_of_def fun_eq_iff)
qed

section \<open>A node for two subtrees\<close>

lemma concat_empty: "f z = [] \<Longrightarrow> concat (map f (replicate n z)) = []"
  by (induction n) auto

lemma concat_one: "i < n \<Longrightarrow> f z = [] \<Longrightarrow> concat (map f ((replicate n z)[i := x])) = f x"
  by (simp add: upd_conv_take_nth_drop concat_empty min_def)

lemma concat_two_less:
  "i < j \<Longrightarrow> j < n \<Longrightarrow> f z = [] \<Longrightarrow> concat (map f ((replicate n z)[i := x, j := y])) = f x @ f y"
  by (simp add: upd_conv_take_nth_drop [of j] take_update_swap drop_update_cancel concat_one concat_empty min_def)

lemma concat_two:
  assumes "i < n" "j < n" "i \<noteq> j" "f z = []"
  shows "concat (map f ((replicate n z)[i := x, j := y])) = (if i < j then f x @ f y else f y @ f x)"
  using assms concat_two_less [of i j n f z x y] concat_two_less [of j i n f z y x] list_update_swap [of i j "replicate n z" x y]
  by (cases "i < j") auto

text \<open>Above a parted slice, keys are told apart by what lies above a lower slice.\<close>

lemma above_higher: "sh + 4 \<le> sh' \<Longrightarrow> unat k div 2 ^ sh' = above k sh div 2 ^ (sh' - (sh + 4))"
  by (simp add: above_def div_mult2_eq [symmetric] flip: power_add)

lemma above_determines:
  assumes "sh + 4 \<le> sh'" "above k sh = above k' sh"
  shows "above k sh' = above k' sh'" "slice_index k sh' = slice_index k' sh'"
proof -
  have "unat k div 2 ^ sh' = unat k' div 2 ^ sh'" using assms by (simp add: above_higher)
  then show "slice_index k sh' = slice_index k' sh'" "above k sh' = above k' sh'"
    by (simp_all add: slice_index_div above_def power_add div_mult2_eq)
qed

lemma above_coarser: "sh \<le> sh' \<Longrightarrow> above k sh = above k' sh \<Longrightarrow> above k sh' = above k' sh'"
proof -
  assume "sh \<le> sh'" "above k sh = above k' sh"
  moreover have "above x sh' = above x sh div 2 ^ (sh' - sh)" for x
    using \<open>sh \<le> sh'\<close> by (simp add: above_def div_mult2_eq [symmetric] add.commute [of 4] flip: power_add)
  ultimately show ?thesis by simp
qed

definition branch :: "ptr \<Rightarrow> u64 \<Rightarrow> nat \<Rightarrow> ptr \<Rightarrow> u64 \<Rightarrow> ct \<Rightarrow> ct" where
  "branch a key sh k path u =
     CN a (key AND path_mask sh) sh ((replicate 16 CE)[slice_index key sh := CL k key, slice_index path sh := u])"

text \<open>The path of a subtree: its key for a leaf, its common part for a node.\<close>

definition ct_path :: "ct \<Rightarrow> u64" where
  "ct_path u = (case u of CE \<Rightarrow> 0 | CL p k \<Rightarrow> k | CN p path sh cs \<Rightarrow> path)"

lemma branch_parts:
  assumes "slice_index path sh \<noteq> slice_index key sh"
  shows "set (entries (branch a key sh k path u)) = insert (key, k) (set (entries u))"
    "set (node_ptrs (branch a key sh k path u)) = insert a (set (node_ptrs u))"
    "distinct (node_ptrs (branch a key sh k path u)) \<longleftrightarrow> distinct (a # node_ptrs u)"
    "set (leaf_ptrs (branch a key sh k path u)) = insert k (set (leaf_ptrs u))"
    "distinct (leaf_ptrs (branch a key sh k path u)) \<longleftrightarrow> distinct (k # leaf_ptrs u)"
  using assms by (auto simp: branch_def concat_two)

lemma branch_wf:
  assumes part: "sh mod 4 = 0" "sh \<le> 60" "above (ct_path u) sh = above key sh" "slice_index (ct_path u) sh \<noteq> slice_index key sh"
    and u: "wf_ct u" "u \<noteq> CE" "\<And>p path sh' cs. u = CN p path sh' cs \<Longrightarrow> above key sh' \<noteq> above path sh'"
  shows "wf_ct (branch a key sh k (ct_path u) u)"
proof -
  let ?cs = "(replicate 16 CE)[slice_index key sh := CL k key, slice_index (ct_path u) sh := u]"
  have keys: "above x sh = above key sh \<and> slice_index x sh = slice_index (ct_path u) sh" if x: "x \<in> fst ` set (entries u)" for x
  proof (cases u)
    case (CL p kk)
    then show ?thesis using x part(3) by (simp add: ct_path_def)
  next
    case (CN p path sh' cs)
    then have a: "above x sh' = above path sh'" using wf_ct_entry(1) u(1) x by blast
    have "\<not> sh \<le> sh'" using above_coarser [of sh sh' path key] part(3) u(3) [OF CN] CN by (auto simp: ct_path_def)
    moreover have "sh' mod 4 = 0" using u(1) CN by simp
    ultimately have "sh' + 4 \<le> sh" using part(1) by presburger
    then show ?thesis using above_determines [OF _ a, of sh] part(3) CN by (simp add: ct_path_def)
  qed (use u in simp)
  have nth: "?cs ! i = (if i = slice_index (ct_path u) sh then u else if i = slice_index key sh then CL k key else CE)" if "i < 16" for i
    using that by (auto simp: nth_list_update)
  have "\<forall>i<16. \<forall>x\<in>fst ` set (entries (?cs ! i)). above x sh = above (key AND path_mask sh) sh \<and> slice_index x sh = i"
    using keys by (auto simp: nth)
  moreover have "\<forall>t\<in>set ?cs. wf_ct t" using u(1) by (auto simp: all_set_conv_all_nth nth)
  moreover have "2 \<le> length (filter (\<lambda>t. t \<noteq> CE) ?cs)"
  proof -
    have "length (concat (map (\<lambda>t. if t = CE then [] else [t]) ?cs)) = 2" using part(4) u(2) by (auto simp: concat_two)
    moreover have "concat (map (\<lambda>t. if t = CE then [] else [t]) xs) = filter (\<lambda>t. t \<noteq> CE) xs" for xs by (induction xs) auto
    ultimately show ?thesis by simp
  qed
  ultimately show ?thesis using part(1,2) unfolding branch_def wf_ct.simps by simp
qed

section \<open>Insertion\<close>

lemma crit_inv_set_unlinked_node:
  assumes inv: "crit_inv c t ns ks [a] fl" and "length (n_child nd) = 16"
  shows "crit_inv (c\<lparr>cr_nodes := (cr_nodes c)(a \<mapsto> nd)\<rparr>) t ns ks [a] fl"
proof -
  note parts = crit_inv_parts [OF inv]
  note np = nodes_inv_parts [OF parts(4)]
  have a: "a \<in> dom (cr_nodes c)" "a \<notin> set ns" "a \<notin> set (node_ptrs t)" using np(3,4) by auto
  have "ct_rep ((cr_nodes c)(a \<mapsto> nd)) (cr_leaves c) t" using parts(3) by (rule ct_rep_frame) (use a in auto)
  moreover have "nodes_inv ((cr_nodes c)(a \<mapsto> nd)) (cr_deleted_node c) (cr_pending_nodes c) (node_ptrs t) ns [a]"
    by (rule nodes_inv_set [OF parts(4) a(1,2) assms(2)])
  moreover have "dom ((cr_nodes c)(a \<mapsto> nd)) = dom (cr_nodes c)" using a(1) by auto
  ultimately show ?thesis by (intro crit_invI) (use parts in simp_all)
qed

text \<open>A leaf is new: it is not linked and ready for use.\<close>

definition new_leaf :: "('v, 's) critnib \<Rightarrow> ptr \<Rightarrow> u64 \<Rightarrow> 'v \<Rightarrow> bool" where
  "new_leaf c k key v \<longleftrightarrow>
     (\<exists>lf. cr_leaves c k = Some lf \<and> k_key lf = key \<and> k_value lf = Some v \<and> k_to_be_freed lf = None \<and> \<not> k_pending lf \<and>
        k_ref_count lf = (if cr_cb c \<noteq> None then LEAF_VALID else 0))"

lemma new_leaf_live: "new_leaf c k key v \<Longrightarrow> cr_leaves c k = Some lf \<Longrightarrow> live_leaf (cr_cb c \<noteq> None) lf"
  by (auto simp: new_leaf_def live_leaf_def)

lemma unlinked_leaf:
  assumes "crit_inv c t ns ks fn [k]"
  shows "k \<notin> set (leaf_ptrs t)" "k \<notin> ran (map_of (entries t))" "leaf_val (leaf_ptrs t) (cr_leaves c) k = None"
proof -
  note parts = crit_inv_parts [OF assms] and lp = leaves_inv_parts [OF crit_inv_parts(5) [OF assms]]
  show k: "k \<notin> set (leaf_ptrs t)" using lp(3) by auto
  then show "k \<notin> ran (map_of (entries t))" using ran_map_of_entries [OF parts(2)] by simp
  have "k \<notin> set ks" "Some k \<notin> set (cr_pending_leaves c)" using lp(3) by auto
  then show "leaf_val (leaf_ptrs t) (cr_leaves c) k = None"
    using k lp(5) [of k] by (auto simp: leaf_val_def leaf_class_def split: option.splits)
qed

text \<open>What an insertion does to the view, by its result.\<close>

definition insert_result :: "u64 \<Rightarrow> 'v \<Rightarrow> bool \<Rightarrow> 'v crit_view \<Rightarrow> int \<Rightarrow> 'v crit_view \<Rightarrow> bool" where
  "insert_result key v update vw e vw' \<longleftrightarrow>
     e = ENOMEM \<and> vw' = vw \<or>
     (case cv_map vw key of
        Some p \<Rightarrow> if update then e = 0 \<and> vw' = vw\<lparr>cv_val := (cv_val vw)(p \<mapsto> v)\<rparr> else e = EEXIST \<and> vw' = vw
      | None \<Rightarrow> e = 0 \<and> (\<exists>k. k \<notin> ran (cv_map vw) \<and> cv_val vw k = None \<and>
          vw' = vw\<lparr>cv_map := (cv_map vw)(key \<mapsto> k), cv_val := (cv_val vw)(k \<mapsto> v)\<rparr>))"

text \<open>The tree with the new leaf linked, by a store or through a new node.\<close>

lemma link_ok:
  assumes inv: "crit_inv c (fill fs u) ns ks fn [k]" and new: "new_leaf c k key v" and wf: "wf_ct (fill fs u')"
    and rep: "ct_rep (cr_nodes c) (cr_leaves c) u'" and key: "key \<notin> fst ` set (entries (fill fs u))"
    and nd: "distinct (node_ptrs u')" "set (node_ptrs u') = set (node_ptrs u @ fn)"
    and es: "set (entries u') = insert (key, k) (set (entries u))" "distinct (leaf_ptrs u')"
  shows "\<exists>c'. store_slot (slot_at Root_Slot fs) (tag u') c = Some c' \<and> unchanged_env c c' \<and>
    (\<exists>vw'. crit_ok c' vw' \<and> insert_result key v upd (view_of (fill fs u) (cr_leaves c)) 0 vw')"
proof -
  note parts = crit_inv_parts [OF inv] and lp = leaves_inv_parts [OF crit_inv_parts(5) [OF inv]]
  note ul = unlinked_leaf [OF inv]
  obtain lf where lf: "cr_leaves c k = Some lf" "k_value lf = Some v" "k_to_be_freed lf = None"
    "k_ref_count lf = (if cr_cb c \<noteq> None then LEAF_VALID else 0)" using new by (auto simp: new_leaf_def)
  have lps: "set (leaf_ptrs u') = set (leaf_ptrs u @ [k])" using es(1) by (simp add: leaf_ptrs_def)
  obtain A B where AB: "\<And>v. entries (fill fs v) = A @ entries v @ B" using fill_entries by blast
  have live: "live_leaf (cr_cb c \<noteq> None) lf'" if "p \<in> set (leaf_ptrs u')" "cr_leaves c p = Some lf'" for p lf'
  proof (cases "p = k")
    case False
    then have "p \<in> set (leaf_ptrs (fill fs u))" using that(1) lps AB [of u] by (auto simp: leaf_ptrs_def)
    then show ?thesis using lp(5) [OF that(2)] by (simp add: leaf_class_def)
  qed (use new_leaf_live [OF new] that in blast)
  obtain c' where c': "store_slot (slot_at Root_Slot fs) (tag u') c = Some c'" "crit_inv c' (fill fs u') ns ks [] []"
    "unchanged_env c c'" "cr_leaves c' = cr_leaves c"
    using tree_store_ok [OF inv wf rep, of "[]" "[]"] nd es(2) lps live by auto
  have se: "set (entries (fill fs u')) = insert (key, k) (set (entries (fill fs u)))" using es(1) by (auto simp: AB)
  have vw: "view_of (fill fs u') (cr_leaves c') = (view_of (fill fs u) (cr_leaves c))
      \<lparr>cv_map := (cv_map (view_of (fill fs u) (cr_leaves c)))(key \<mapsto> k), cv_val := (cv_val (view_of (fill fs u) (cr_leaves c)))(k \<mapsto> v)\<rparr>"
    unfolding c'(4) by (rule view_link [where lf = lf, OF parts(2) wf se key ul(1)]) (use lf in \<open>simp_all add: LEAF_VALID_def\<close>)
  have "insert_result key v upd (view_of (fill fs u) (cr_leaves c)) 0 (view_of (fill fs u') (cr_leaves c'))"
    unfolding vw insert_result_def using ul key map_of_None_entries [of "fill fs u" key] by (auto simp: view_of_def)
  then show ?thesis using c' unfolding crit_ok_def by blast
qed

lemma insert_beside_ok:
  assumes inv: "crit_inv c (fill fs u) ns ks [] [k]" and new: "new_leaf c k key v" and hole: "at_hole fs key"
    and u: "tag u = Some n" "ct_path u \<noteq> key" "\<And>p path sh cs. u = CN p path sh cs \<Longrightarrow> above key sh \<noteq> above path sh"
  shows "\<exists>e c'. insert_beside k key (ct_path u) (slot_at Root_Slot fs) n c = Some (e, c') \<and> unchanged_env c c' \<and>
    (e = ENOMEM \<longrightarrow> True \<in> set (oom (cr_host c))) \<and>
    (\<exists>vw'. crit_ok c' vw' \<and> insert_result key v upd (view_of (fill fs u) (cr_leaves c)) e vw')"
proof -
  note parts = crit_inv_parts [OF inv]
  have une: "u \<noteq> CE" using u(1) by auto
  have wu: "wf_ct u" "\<forall>x\<in>fst ` set (entries u). at_hole fs x" using wf_fill_sub [OF parts(2)] by auto
  have ru: "ct_rep (cr_nodes c) (cr_leaves c) u" using parts(3) by (rule ct_rep_fill_sub)
  have "ct_path u XOR key \<noteq> 0" using u(2) by (simp add: xor_eq_0)
  then obtain m where m: "utils_msb64 (ct_path u XOR key) = Some m" by (rule utils_msb64_Some)
  define sh where "sh = m AND 252"
  note part = parting_slice [OF m u(2) sh_def]
  have ku: "key \<notin> fst ` set (entries u)"
  proof (cases u)
    case (CN p path sh cs)
    then show ?thesis using wf_ct_entry(1) [of p path sh cs key] wu(1) u(3) [OF CN] by auto
  qed (use une u(2) in \<open>auto simp: ct_path_def\<close>)
  have key: "key \<notin> fst ` set (entries (fill fs u))" using hole_key [OF parts(2) hole] ku by blast
  obtain r c1 where r: "alloc_node c = Some (r, c1)" "unchanged_env c c1" "cr_leaves c1 = cr_leaves c"
    "case r of None \<Rightarrow> True \<in> set (oom (cr_host c)) \<and> crit_inv c1 (fill fs u) ns ks [] [k] | Some a \<Rightarrow> \<exists>ns'. crit_inv c1 (fill fs u) ns' ks [a] [k]"
    using alloc_node_ok [OF inv] by blast
  have cb: "cr_cb c1 = cr_cb c" using r(2) by (simp add: unchanged_env_def)
  show ?thesis
  proof (cases r)
    case None
    then have inv1: "crit_inv c1 (fill fs u) ns ks [] [k]" "True \<in> set (oom (cr_host c))" using r(4) by auto
    obtain lf where lf: "cr_leaves c1 k = Some lf" "\<not> k_pending lf" "cr_cb c1 = None \<Longrightarrow> k_ref_count lf = 0"
      using new r(3) cb by (auto simp: new_leaf_def)
    obtain c2 where c2: "discard_leaf k c1 = Some c2" "unchanged_env c1 c2" "crit_inv c2 (fill fs u) ns (k # ks) [] []"
      "view_of (fill fs u) (cr_leaves c2) = view_of (fill fs u) (cr_leaves c1)" using discard_leaf_ok [OF inv1(1) lf] by blast
    have "crit_ok c2 (view_of (fill fs u) (cr_leaves c))" using c2(3,4) r(3) unfolding crit_ok_def by metis
    moreover have "insert_beside k key (ct_path u) (slot_at Root_Slot fs) n c = Some (ENOMEM, c2)"
      using m r(1) c2(1) None by (simp add: insert_beside_def)
    ultimately show ?thesis using inv1(2) unchanged_env_trans [OF r(2) c2(2)] by (auto simp: insert_result_def)
  next
    case (Some a)
    obtain ns' where inv1: "crit_inv c1 (fill fs u) ns' ks [a] [k]" using r(4) Some by auto
    note np = nodes_inv_parts [OF crit_inv_parts(4) [OF inv1]] and lp = leaves_inv_parts [OF crit_inv_parts(5) [OF inv1]]
    let ?u = "branch a key sh k (ct_path u) u"
    let ?nd = "\<lparr>n_child = (replicate 16 None)[slice_index key sh := Some (Leaf_Ptr k), slice_index (ct_path u) sh := Some n],
      n_path = key AND path_mask sh, n_shift = sh\<rparr>"
    let ?c = "c1\<lparr>cr_nodes := (cr_nodes c1)(a \<mapsto> ?nd)\<rparr>"
    have inv2: "crit_inv ?c (fill fs u) ns' ks [a] [k]" by (rule crit_inv_set_unlinked_node [OF inv1]) simp
    obtain A B where AB: "\<And>v. node_ptrs (fill fs v) = A @ node_ptrs v @ B" using fill_node_ptrs by blast
    obtain A' B' where AB': "\<And>v. leaf_ptrs (fill fs v) = A' @ leaf_ptrs v @ B'" using fill_leaf_ptrs by blast
    have "a \<notin> set (node_ptrs u)" "distinct (node_ptrs u)" "k \<notin> set (leaf_ptrs u)" "distinct (leaf_ptrs u)"
      using np(3) lp(3) unfolding AB AB' by auto
    note dis = this
    note bp = branch_parts [OF part(4), of a k u]
    have w: "wf_ct (fill fs ?u)"
      using wf_fill_replace [OF parts(2)] branch_wf [OF part wu(1) une u(3)] bp(1) wu(2) hole by (auto simp: branch_def)
    have "ct_rep (cr_nodes ?c) (cr_leaves ?c) u"
      using crit_inv_parts(3) [OF inv2] by (rule ct_rep_fill_sub)
    then have rep: "ct_rep (cr_nodes ?c) (cr_leaves ?c) ?u"
      using new r(3) u(1) by (auto simp: branch_def map_update new_leaf_def dest!: set_update_subset_insert [THEN subsetD])
    have "new_leaf ?c k key v" using new r(3) cb by (simp add: new_leaf_def)
    from link_ok [OF inv2 this w rep key, of upd]
    obtain c' where c': "store_slot (slot_at Root_Slot fs) (tag ?u) ?c = Some c'" "unchanged_env ?c c'"
      "\<exists>vw'. crit_ok c' vw' \<and> insert_result key v upd (view_of (fill fs u) (cr_leaves c)) 0 vw'"
      using bp dis r(3) by auto
    have "cr_nodes c1 a \<noteq> None" using np(4) by auto
    then have "insert_beside k key (ct_path u) (slot_at Root_Slot fs) n c = Some (0, c')"
      using m r(1) c'(1) Some by (auto simp: insert_beside_def upd_node_def sh_def [symmetric] branch_def)
    moreover have "unchanged_env c c'" using r(2) c'(2) by (auto simp: unchanged_env_def)
    ultimately show ?thesis using c'(3) by (auto simp: ENOMEM_def)
  qed
qed

text \<open>The value of a leaf in the tree is replaced.\<close>

lemma update_ok:
  assumes inv: "crit_inv c t ns ks [] []" and q: "(key, q) \<in> set (entries t)"
  shows "\<exists>c'. upd_leaf (\<lambda>lf. lf\<lparr>k_value := Some v\<rparr>) q c = Some c' \<and> unchanged_env c c' \<and>
    crit_ok c' ((view_of t (cr_leaves c))\<lparr>cv_val := (cv_val (view_of t (cr_leaves c)))(q \<mapsto> v)\<rparr>)"
proof -
  note parts = crit_inv_parts [OF inv] and lp = leaves_inv_parts [OF crit_inv_parts(5) [OF inv]]
  have qt: "q \<in> set (leaf_ptrs t)" using q by (auto simp: leaf_ptrs_entries)
  then obtain lf where lf: "cr_leaves c q = Some lf" using lp(4) by auto
  have live: "live_leaf (cr_cb c \<noteq> None) lf" using lp(5) [OF lf] qt by (simp add: leaf_class_def)
  let ?lf = "lf\<lparr>k_value := Some v\<rparr>"
  let ?c = "c\<lparr>cr_leaves := (cr_leaves c)(q \<mapsto> ?lf)\<rparr>"
  have "leaf_class (cr_cb c \<noteq> None) (leaf_ptrs t) ks (cr_pending_leaves c) [] q ?lf"
    using qt live by (simp add: leaf_class_def live_leaf_def)
  then have lv: "leaves_inv (cr_cb c \<noteq> None) ((cr_leaves c)(q \<mapsto> ?lf)) (cr_deleted_leaf c) (cr_pending_leaves c) (leaf_ptrs t) ks []"
    using lf lp(3) qt by (intro leaves_inv_set [OF parts(5)]) auto
  have "crit_inv ?c t ns ks [] []"
  proof (rule crit_invI)
    show "ct_rep (cr_nodes ?c) (cr_leaves ?c) t" using parts(3) by (rule ct_rep_frame) (use lf in auto)
    show "p < next_id (cr_host ?c)" if "p \<in> dom (cr_nodes ?c) \<union> dom (cr_leaves ?c)" for p
      using that parts(6) [of p] lf by (auto simp: domIff split: if_splits)
  qed (use parts lv in simp_all)
  moreover have "view_of t (cr_leaves ?c) = (view_of t (cr_leaves c))\<lparr>cv_val := (cv_val (view_of t (cr_leaves c)))(q \<mapsto> v)\<rparr>"
    using qt lf by (auto simp: view_of_def leaf_val_def leaf_refs_def fun_eq_iff)
  ultimately have "crit_ok ?c ((view_of t (cr_leaves c))\<lparr>cv_val := (cv_val (view_of t (cr_leaves c)))(q \<mapsto> v)\<rparr>)"
    unfolding crit_ok_def by metis
  then show ?thesis using lf by (auto simp: upd_leaf_def unchanged_env_def)
qed

lemma new_leaf_discard:
  assumes inv: "crit_inv c t ns ks [] [k]" and new: "new_leaf c k key v"
  shows "\<exists>c'. discard_leaf k c = Some c' \<and> unchanged_env c c' \<and> crit_inv c' t ns (k # ks) [] [] \<and> view_of t (cr_leaves c') = view_of t (cr_leaves c)"
  using new discard_leaf_ok [OF inv] by (auto simp: new_leaf_def split: if_splits)

lemma insert_duplicate_ok:
  assumes inv: "crit_inv c t ns ks [] [k]" and new: "new_leaf c k key v" and q: "(key, q) \<in> set (entries t)"
  shows "\<exists>e c'. do { c2 \<leftarrow> discard_leaf k c;
        if update then do { c3 \<leftarrow> upd_leaf (\<lambda>lf. lf\<lparr>k_value := Some v\<rparr>) q c2; Some (0, c3) } else Some (EEXIST, c2) } = Some (e, c') \<and>
    unchanged_env c c' \<and> e \<noteq> ENOMEM \<and> (\<exists>vw'. crit_ok c' vw' \<and> insert_result key v update (view_of t (cr_leaves c)) e vw')"
proof -
  obtain c2 where c2: "discard_leaf k c = Some c2" "unchanged_env c c2" "crit_inv c2 t ns (k # ks) [] []"
    "view_of t (cr_leaves c2) = view_of t (cr_leaves c)" using new_leaf_discard [OF inv new] by blast
  have m: "cv_map (view_of t (cr_leaves c)) key = Some q"
    using map_of_entries [OF crit_inv_parts(2) [OF inv], of key q] q by (simp add: view_of_def)
  show ?thesis
  proof (cases update)
    case True
    obtain c3 where "upd_leaf (\<lambda>lf. lf\<lparr>k_value := Some v\<rparr>) q c2 = Some c3" "unchanged_env c2 c3"
      "crit_ok c3 ((view_of t (cr_leaves c))\<lparr>cv_val := (cv_val (view_of t (cr_leaves c)))(q \<mapsto> v)\<rparr>)"
      using update_ok [OF c2(3) q, of v] c2(4) by auto
    then show ?thesis using True c2(1) m unchanged_env_trans [OF c2(2)] by (auto simp: insert_result_def ENOMEM_def)
  next
    case False
    have "crit_ok c2 (view_of t (cr_leaves c))" using c2(3,4) unfolding crit_ok_def by metis
    then show ?thesis using False c2 m by (auto simp: insert_result_def ENOMEM_def EEXIST_def)
  qed
qed

lemma link_leaf_ok:
  assumes inv: "crit_inv c t ns ks [] [k]" and new: "new_leaf c k key v"
  shows "\<exists>e c'. link_leaf k key (Some v) update c = Some (e, c') \<and> unchanged_env c c' \<and> (e = ENOMEM \<longrightarrow> True \<in> set (oom (cr_host c))) \<and>
    (\<exists>vw'. crit_ok c' vw' \<and> insert_result key v update (view_of t (cr_leaves c)) e vw')"
proof -
  note parts = crit_inv_parts [OF inv]
  obtain fs u where fs: "t = fill fs u" "at_hole fs key"
    "insert_walk (cr_nodes c) key (cr_root c) Root_Slot (cr_root c) =
       Some (if fs = [] then cr_root c else Some (Node_Ptr (fst (last fs))), slot_at Root_Slot fs, tag u)"
    "\<And>p path sh cs. u = CN p path sh cs \<Longrightarrow> above key sh \<noteq> above path sh"
    using insert_walk_ok [OF parts(3,2), of key "cr_root c" Root_Slot] unfolding parts(1) by blast
  have ru: "ct_rep (cr_nodes c) (cr_leaves c) u" using parts(3) unfolding fs(1) by (rule ct_rep_fill_sub)
  show ?thesis
  proof (cases "tag u")
    case None
    then have u: "u = CE" by simp
    have key: "key \<notin> fst ` set (entries (fill fs CE))" using hole_key [of fs CE key] parts(2) fs(1,2) u by auto
    have "wf_ct (fill fs (CL k key))" by (rule wf_fill_replace [of fs u]) (use parts(2) fs(1,2) in auto)
    moreover have "ct_rep (cr_nodes c) (cr_leaves c) (CL k key)" using new by (auto simp: new_leaf_def)
    ultimately obtain c' where c': "store_slot (slot_at Root_Slot fs) (Some (Leaf_Ptr k)) c = Some c'" "unchanged_env c c'"
      "\<exists>vw'. crit_ok c' vw' \<and> insert_result key v update (view_of t (cr_leaves c)) 0 vw'"
      using link_ok [OF inv [unfolded fs(1) u] new _ _ key, of "CL k key" update] unfolding fs(1) u by auto
    have "link_leaf k key (Some v) update c = Some (0, c')"
    proof (cases fs rule: rev_cases)
      case Nil
      then show ?thesis using c'(1) parts(1) fs(1) u by (simp add: link_leaf_def store_slot_def)
    next
      case (snoc gs f)
      obtain p path sh L R where f: "f = (p, path, sh, L, R)" by (cases f)
      have "ct_rep (cr_nodes c) (cr_leaves c) (fill [(p, path, sh, L, R)] CE)"
        using parts(3) ct_rep_fill_sub unfolding fs(1) snoc f u fill_append by blast
      then obtain nd where nd: "cr_nodes c p = Some nd" "n_shift nd = sh" by auto
      have "slice_index key sh = length L" using fs(2) by (simp add: snoc f)
      moreover have "cr_root c \<noteq> None" using parts(1) fill_not_CE [of fs u] fs(1) snoc by auto
      ultimately show ?thesis using c'(1) fs(3) nd None snoc f by (auto simp: link_leaf_def)
    qed
    then show ?thesis using c' by (auto simp: ENOMEM_def)
  next
    case (Some n)
    have "u \<noteq> CE" using Some by auto
    then have root: "cr_root c \<noteq> None" using parts(1) fill_nonempty [of u fs] fs(1) by simp
    have pth: "(case n of Leaf_Ptr q \<Rightarrow> do { lf \<leftarrow> cr_leaves c q; Some (k_key lf) }
                      | Node_Ptr a \<Rightarrow> do { nd \<leftarrow> cr_nodes c a; Some (n_path nd) }) = Some (ct_path u)"
      using Some ru by (cases u) (auto simp: ct_path_def)
    show ?thesis
    proof (cases "ct_path u = key")
      case False
      then have "ct_path u XOR key \<noteq> 0" by (simp add: xor_eq_0)
      then have "link_leaf k key (Some v) update c = insert_beside k key (ct_path u) (slot_at Root_Slot fs) n c"
        using root pth fs(3) Some by (auto simp: link_leaf_def)
      then show ?thesis using insert_beside_ok [OF inv [unfolded fs(1)] new fs(2) Some False fs(4)] unfolding fs(1) by simp
    next
      case True
      obtain q where q: "u = CL q key" "n = Leaf_Ptr q"
      proof (cases u)
        case (CL q kk)
        then show thesis using that True Some by (simp add: ct_path_def)
      next
        case (CN p path sh cs)
        then have "path = key" using True by (simp add: ct_path_def)
        then show thesis using fs(4) [OF CN] by blast
      qed (use Some in simp)
      obtain A B where "\<And>v. entries (fill fs v) = A @ entries v @ B" using fill_entries by blast
      then have "(key, q) \<in> set (entries t)" by (simp add: fs(1) q(1))
      moreover have "link_leaf k key (Some v) update c = do { c2 \<leftarrow> discard_leaf k c;
        if update then do { c3 \<leftarrow> upd_leaf (\<lambda>lf. lf\<lparr>k_value := Some v\<rparr>) q c2; Some (0, c3) } else Some (EEXIST, c2) }"
        using root pth fs(3) Some True q(2) by (auto simp: link_leaf_def)
      ultimately show ?thesis using insert_duplicate_ok [OF inv new, of q update] by auto
    qed
  qed
qed

theorem critnib_insert_ok:
  assumes ok: "crit_ok c vw"
  shows "\<exists>e c' vw'. critnib_insert c key (Some v) update = Some (e, c') \<and> unchanged_env c c' \<and> crit_ok c' vw' \<and>
    insert_result key v update vw e vw' \<and> (e = ENOMEM \<longrightarrow> True \<in> set (oom (cr_host c)))"
proof -
  obtain t ns ks where inv: "crit_inv c t ns ks [] []" and vw: "vw = view_of t (cr_leaves c)" using ok by (auto simp: crit_ok_def)
  obtain r c1 where r: "alloc_leaf c = Some (r, c1)" "unchanged_env c c1" "view_of t (cr_leaves c1) = view_of t (cr_leaves c)"
    "case r of None \<Rightarrow> True \<in> set (oom (cr_host c)) \<and> crit_inv c1 t ns ks [] [] | Some k \<Rightarrow> \<exists>ks'. crit_inv c1 t ns ks' [] [k]"
    using alloc_leaf_ok [OF inv] by blast
  show ?thesis
  proof (cases r)
    case None
    then have "critnib_insert c key (Some v) update = Some (ENOMEM, c1)" using r(1) by (simp add: critnib_insert_def)
    moreover have "crit_ok c1 vw" using r(3,4) None vw unfolding crit_ok_def by force
    ultimately show ?thesis using r(2,4) None by (auto simp: insert_result_def)
  next
    case (Some k)
    obtain ks' where inv1: "crit_inv c1 t ns ks' [] [k]" using r(4) Some by auto
    have "k \<in> dom (cr_leaves c1)" using leaves_inv_parts(4) [OF crit_inv_parts(5) [OF inv1]] by auto
    then obtain lf where lf: "cr_leaves c1 k = Some lf" by auto
    let ?lf = "lf\<lparr>k_to_be_freed := None, k_key := key, k_value := Some v, k_pending := False,
                 k_ref_count := if cr_cb c1 \<noteq> None then LEAF_VALID else 0\<rparr>"
    let ?c = "c1\<lparr>cr_leaves := (cr_leaves c1)(k \<mapsto> ?lf)\<rparr>"
    have inv2: "crit_inv ?c t ns ks' [] [k]" and vw2: "view_of t (cr_leaves ?c) = vw"
      using crit_inv_set_unlinked [OF inv1, of ?lf] r(3) vw by simp_all
    have new: "new_leaf ?c k key v" by (simp add: new_leaf_def)
    obtain e c' vw' where res: "link_leaf k key (Some v) update ?c = Some (e, c')" "unchanged_env ?c c'"
      "e = ENOMEM \<longrightarrow> True \<in> set (oom (cr_host ?c))" "crit_ok c' vw'" "insert_result key v update vw e vw'"
      using link_leaf_ok [OF inv2 new, of update] unfolding vw2 by blast
    have "critnib_insert c key (Some v) update = Some (e, c')"
      using res(1) r(1) Some lf by (simp add: critnib_insert_def upd_leaf_def)
    moreover have "unchanged_env c c'" using res(2) r(2) by (auto simp: unchanged_env_def)
    moreover have "e = ENOMEM \<longrightarrow> True \<in> set (oom (cr_host c))" using res(3) r(2) by (auto simp: unchanged_env_def)
    ultimately show ?thesis using res(4,5) by blast
  qed
qed

end
