(* ===== verification/Critnib_Remove.thy ===== *)
theory Critnib_Remove
  imports Critnib_Insert
begin

text \<open>
  The correctness of removal: the ring of recent removals, the removal of a leaf and of a
  node that is left with one child, and the release of references.
\<close>

section \<open>Recycling\<close>

lemma valid_pos: "LEAF_VALID \<le> r \<Longrightarrow> 0 < r"
  by (simp add: LEAF_VALID_def word_le_nat_alt word_less_nat_alt)

lemma nodes_recycle:
  assumes inv: "nodes_inv h dn pn tp ns []" and i: "i < 16" "pn ! i = Some a"
  shows "\<exists>nd. h a = Some nd \<and>
    nodes_inv (h(a \<mapsto> nd\<lparr>n_child := (n_child nd)[0 := map_option Node_Ptr dn]\<rparr>)) (Some a) (pn[i := None]) tp (a # ns) [] \<and> a \<notin> set tp"
proof -
  note parts = nodes_inv_parts [OF inv]
  obtain A B where AB: "somes pn = A @ somes [pn ! i] @ B" "\<And>y. somes (pn[i := y]) = A @ somes [y] @ B"
    using somes_split [of i pn] i(1) parts(2) by auto
  have a: "a \<notin> set tp" "a \<notin> set ns" using parts(3) i(2) by (auto simp: AB)
  obtain nd where nd: "h a = Some nd" using parts(4) i(2) by (auto simp: AB)
  let ?nd = "nd\<lparr>n_child := (n_child nd)[0 := map_option Node_Ptr dn]\<rparr>"
  have "node_chain (h(a \<mapsto> ?nd)) dn ns" using parts(1) by (rule node_chain_frame) (use a in auto)
  then have "node_chain (h(a \<mapsto> ?nd)) (Some a) (a # ns)" using parts(5) [OF nd] by auto
  moreover have "distinct (tp @ (a # ns) @ somes (pn[i := None]) @ [])" using parts(3) i(2) by (auto simp: AB)
  moreover have "dom (h(a \<mapsto> ?nd)) = set (tp @ (a # ns) @ somes (pn[i := None]) @ [])" using parts(4) i(2) nd by (auto simp: AB)
  moreover have "\<forall>p nd'. (h(a \<mapsto> ?nd)) p = Some nd' \<longrightarrow> length (n_child nd') = 16" using parts(5) nd by auto
  ultimately show ?thesis using nd a parts(2) by (simp add: nodes_inv_def)
qed

lemma ring_split:
  assumes "distinct (somes pl)" "i < length pl" "pl ! i = Some k"
  shows "Some p \<in> set (pl[i := None]) \<longleftrightarrow> Some p \<in> set pl \<and> p \<noteq> k"
proof -
  obtain A B where AB: "somes pl = A @ somes [pl ! i] @ B" "\<And>y. somes (pl[i := y]) = A @ somes [y] @ B"
    using somes_split [OF assms(2)] by blast
  have "k \<notin> set A" "k \<notin> set B" using assms(1,3) by (auto simp: AB)
  then have "p \<in> set (somes (pl[i := None])) \<longleftrightarrow> p \<in> set (somes pl) \<and> p \<noteq> k" using assms(3) by (auto simp only: AB set_append set_simps somes_simps)
  then show ?thesis by simp
qed

lemma leaves_recycle:
  assumes inv: "leaves_inv cb h dl pl lp ks []" and i: "i < 16" "pl ! i = Some k"
  shows "\<exists>lf. h k = Some lf \<and> k \<notin> set lp \<and> ring_leaf cb lf \<and>
    (if cb \<and> k_ref_count lf > 0 then leaves_inv cb (h(k \<mapsto> lf\<lparr>k_pending := True\<rparr>)) dl (pl[i := None]) lp ks []
     else leaves_inv cb (h(k \<mapsto> lf\<lparr>k_pending := False, k_next := dl\<rparr>)) (Some k) (pl[i := None]) lp (k # ks) [])"
proof -
  note parts = leaves_inv_parts [OF inv]
  have dp: "distinct (somes pl)" using parts(3) by simp
  note ring = ring_split [OF dp, of i k] 
  have inpl: "Some k \<in> set pl" using i parts(2) by (metis nth_mem)
  then have k: "k \<notin> set lp" "k \<notin> set ks" using parts(3) by auto
  obtain lf where lf: "h k = Some lf" using parts(4) inpl by auto
  have cl: "ring_leaf cb lf" using parts(5) [OF lf] k inpl by (simp add: leaf_class_def)
  obtain A B where AB: "somes pl = A @ somes [pl ! i] @ B" "\<And>y. somes (pl[i := y]) = A @ somes [y] @ B"
    using somes_split [of i pl] i(1) parts(2) by auto
  have ring: "Some p \<in> set (pl[i := None]) \<longleftrightarrow> Some p \<in> set pl \<and> p \<noteq> k" for p using ring i parts(2) by auto
  show ?thesis
  proof (cases "cb \<and> k_ref_count lf > 0")
    case True
    let ?h = "h(k \<mapsto> lf\<lparr>k_pending := True\<rparr>)"
    have "leaf_chain ?h dl ks" using parts(1) by (rule leaf_chain_frame) (use k in auto)
    moreover have "distinct (lp @ ks @ somes (pl[i := None]) @ [])" using parts(3) i(2) by (auto simp: AB)
    moreover have "set (lp @ ks @ somes (pl[i := None]) @ []) \<subseteq> dom ?h" using parts(4) by (auto simp: ring)
    moreover have "leaf_class cb lp ks (pl[i := None]) [] k lf'" if "?h k = Some lf'" for lf'
      using that k cl True by (auto simp: leaf_class_def ring held_leaf_def ring_leaf_def removed_leaf_def idle_leaf_def)
    ultimately have "leaves_inv cb ?h dl (pl[i := None]) lp ks []"
      using parts(2) by (intro leaves_inv_move [OF inv, where k = k]) (simp_all add: ring)
    then show ?thesis using lf k cl True by simp
  next
    case False
    let ?h = "h(k \<mapsto> lf\<lparr>k_pending := False, k_next := dl\<rparr>)"
    have idle: "idle_leaf lf" using cl False valid_pos [of "k_ref_count lf"] by (auto simp: ring_leaf_def removed_leaf_def split: if_splits)
    have "leaf_chain ?h dl ks" using parts(1) by (rule leaf_chain_frame) (use k in auto)
    then have "leaf_chain ?h (Some k) (k # ks)" by simp
    moreover have "distinct (lp @ (k # ks) @ somes (pl[i := None]) @ [])" using parts(3) i(2) by (auto simp: AB)
    moreover have "set (lp @ (k # ks) @ somes (pl[i := None]) @ []) \<subseteq> dom ?h" using parts(4) by (auto simp: ring)
    moreover have "leaf_class cb lp (k # ks) (pl[i := None]) [] k lf'" if "?h k = Some lf'" for lf'
      using that k idle by (auto simp: leaf_class_def idle_leaf_def)
    ultimately have "leaves_inv cb ?h (Some k) (pl[i := None]) lp (k # ks) []"
      using parts(2) by (intro leaves_inv_move [OF inv, where k = k]) (simp_all add: ring)
    then show ?thesis using lf k cl False by auto
  qed
qed

text \<open>The view does not depend on the flag and the link of a leaf.\<close>

lemma leaf_view_same:
  assumes "h k = Some lf" "k_value lf' = k_value lf" "k_to_be_freed lf' = k_to_be_freed lf" "k_ref_count lf' = k_ref_count lf"
  shows "view_of t (h(k \<mapsto> lf')) = view_of t h"
  using assms by (auto simp: view_of_def leaf_val_def leaf_refs_def fun_eq_iff)

lemma free_node_ok:
  assumes inv: "nodes_inv (cr_nodes c) (cr_deleted_node c) (cr_pending_nodes c) tp ns []" and i: "i < 16"
  shows "\<exists>c' ns'. free_node (cr_pending_nodes c ! i) c = Some c' \<and>
    c' = c\<lparr>cr_nodes := cr_nodes c', cr_deleted_node := cr_deleted_node c'\<rparr> \<and> dom (cr_nodes c') = dom (cr_nodes c) \<and>
    nodes_inv (cr_nodes c') (cr_deleted_node c') ((cr_pending_nodes c)[i := None]) tp ns' [] \<and> (\<forall>p\<in>set tp. cr_nodes c' p = cr_nodes c p)"
proof (cases "cr_pending_nodes c ! i")
  case None
  then have "(cr_pending_nodes c)[i := None] = cr_pending_nodes c" by (metis list_update_id)
  then show ?thesis using inv None by (auto simp: free_node_def)
next
  case (Some a)
  then show ?thesis using nodes_recycle [OF inv i Some] by (auto simp: free_node_eq)
qed

lemma free_leaf_ok:
  assumes inv: "leaves_inv (cr_cb c \<noteq> None) (cr_leaves c) (cr_deleted_leaf c) (cr_pending_leaves c) lp ks []" and i: "i < 16"
  shows "\<exists>c' ks'. free_leaf (cr_pending_leaves c ! i) c = Some c' \<and>
    c' = c\<lparr>cr_leaves := cr_leaves c', cr_deleted_leaf := cr_deleted_leaf c'\<rparr> \<and> dom (cr_leaves c') = dom (cr_leaves c) \<and>
    leaves_inv (cr_cb c \<noteq> None) (cr_leaves c') (cr_deleted_leaf c') ((cr_pending_leaves c)[i := None]) lp ks' [] \<and>
    (\<forall>p\<in>set lp. cr_leaves c' p = cr_leaves c p) \<and> (\<forall>t. view_of t (cr_leaves c') = view_of t (cr_leaves c))"
proof (cases "cr_pending_leaves c ! i")
  case None
  then have "(cr_pending_leaves c)[i := None] = cr_pending_leaves c" by (metis list_update_id)
  then show ?thesis using inv None by (auto simp: free_leaf_def)
next
  case (Some k)
  obtain lf where lf: "cr_leaves c k = Some lf" "k \<notin> set lp"
    "if cr_cb c \<noteq> None \<and> k_ref_count lf > 0
     then leaves_inv (cr_cb c \<noteq> None) ((cr_leaves c)(k \<mapsto> lf\<lparr>k_pending := True\<rparr>)) (cr_deleted_leaf c) ((cr_pending_leaves c)[i := None]) lp ks []
     else leaves_inv (cr_cb c \<noteq> None) ((cr_leaves c)(k \<mapsto> lf\<lparr>k_pending := False, k_next := cr_deleted_leaf c\<rparr>)) (Some k)
       ((cr_pending_leaves c)[i := None]) lp (k # ks) []"
    using leaves_recycle [OF inv i Some] by blast
  have v: "view_of t ((cr_leaves c)(k \<mapsto> lf\<lparr>k_pending := True\<rparr>)) = view_of t (cr_leaves c)"
    "view_of t ((cr_leaves c)(k \<mapsto> lf\<lparr>k_pending := False, k_next := cr_deleted_leaf c\<rparr>)) = view_of t (cr_leaves c)" for t
    using lf(1) by (simp_all add: leaf_view_same)
  show ?thesis
  proof (cases "cr_cb c \<noteq> None \<and> k_ref_count lf > 0")
    case True
    then show ?thesis using lf v Some by (auto simp: free_leaf_eq)
  next
    case False
    then have "free_leaf (cr_pending_leaves c ! i) c =
        Some (c\<lparr>cr_leaves := (cr_leaves c)(k \<mapsto> lf\<lparr>k_pending := False, k_next := cr_deleted_leaf c\<rparr>), cr_deleted_leaf := Some k\<rparr>)"
      using lf(1) Some by (auto simp: free_leaf_eq)
    then show ?thesis using lf v False by (auto simp del: not_gr_zero)
  qed
qed

lemma recycle_ok:
  assumes inv: "crit_inv c t ns ks [] []" and i: "i < 16"
  shows "\<exists>c' ns' ks'. recycle i c = Some c' \<and> crit_inv c' t ns' ks' [] [] \<and> unchanged_env c c' \<and> view_of t (cr_leaves c') = view_of t (cr_leaves c) \<and>
    cr_pending_nodes c' ! i = None \<and> cr_pending_leaves c' ! i = None"
proof -
  note parts = crit_inv_parts [OF inv]
  obtain c1 ns' where c1: "free_node (cr_pending_nodes c ! i) c = Some c1"
    "c1 = c\<lparr>cr_nodes := cr_nodes c1, cr_deleted_node := cr_deleted_node c1\<rparr>" "dom (cr_nodes c1) = dom (cr_nodes c)"
    "nodes_inv (cr_nodes c1) (cr_deleted_node c1) ((cr_pending_nodes c)[i := None]) (node_ptrs t) ns' []"
    "\<forall>p\<in>set (node_ptrs t). cr_nodes c1 p = cr_nodes c p"
    using free_node_ok [OF parts(4) i] by blast
  obtain hn dn where c1e: "c1 = c\<lparr>cr_nodes := hn, cr_deleted_node := dn\<rparr>" using c1(2) by blast
  have same: "cr_leaves c1 = cr_leaves c" "cr_deleted_leaf c1 = cr_deleted_leaf c" "cr_pending_leaves c1 = cr_pending_leaves c" "cr_cb c1 = cr_cb c"
    by (simp_all add: c1e)
  then have lv: "leaves_inv (cr_cb c1 \<noteq> None) (cr_leaves c1) (cr_deleted_leaf c1) (cr_pending_leaves c1) (leaf_ptrs t) ks []"
    using parts(5) by simp
  obtain c2 ks' where c2: "free_leaf (cr_pending_leaves c1 ! i) c1 = Some c2"
    "c2 = c1\<lparr>cr_leaves := cr_leaves c2, cr_deleted_leaf := cr_deleted_leaf c2\<rparr>" "dom (cr_leaves c2) = dom (cr_leaves c1)"
    "leaves_inv (cr_cb c1 \<noteq> None) (cr_leaves c2) (cr_deleted_leaf c2) ((cr_pending_leaves c1)[i := None]) (leaf_ptrs t) ks' []"
    "\<forall>p\<in>set (leaf_ptrs t). cr_leaves c2 p = cr_leaves c1 p" "\<forall>t. view_of t (cr_leaves c2) = view_of t (cr_leaves c1)"
    using free_leaf_ok [OF lv i] by blast
  let ?c = "c2\<lparr>cr_pending_nodes := (cr_pending_nodes c2)[i := None], cr_pending_leaves := (cr_pending_leaves c2)[i := None]\<rparr>"
  obtain hl dl where c2e: "c2 = c1\<lparr>cr_leaves := hl, cr_deleted_leaf := dl\<rparr>" using c2(2) by blast
  have eq: "cr_nodes c2 = cr_nodes c1" "cr_deleted_node c2 = cr_deleted_node c1" "cr_pending_nodes c2 = cr_pending_nodes c"
    "cr_pending_leaves c2 = cr_pending_leaves c" "cr_cb c2 = cr_cb c" "cr_root c2 = cr_root c" "cr_host c2 = cr_host c"
    "cr_alloc c2 = cr_alloc c" "cr_remove_count c2 = cr_remove_count c"
    by (simp_all add: c2e c1e)
  have "ct_rep (cr_nodes c1) (cr_leaves c2) t" using parts(3) by (rule ct_rep_frame) (use c1(5) c2(5) same in auto)
  then have "crit_inv ?c t ns' ks' [] []"
    by (intro crit_invI) (use parts c1(3,4) c2(3,4) eq same in simp_all)
  moreover have "recycle i c = Some ?c" using c1(1) c2(1) by (simp add: recycle_def)
  moreover have "unchanged_env c ?c" using eq by (simp add: unchanged_env_def)
  moreover have "length (cr_pending_nodes c) = 16" "length (cr_pending_leaves c) = 16"
    using nodes_inv_parts(2) [OF parts(4)] leaves_inv_parts(2) [OF parts(5)] by auto
  ultimately show ?thesis using c2(6) same(1) eq i by auto
qed

section \<open>Removal of a leaf\<close>

text \<open>What a removal does to the view.\<close>

definition removed_view :: "bool \<Rightarrow> u64 \<Rightarrow> ptr \<Rightarrow> 'v crit_view \<Rightarrow> 'v crit_view" where
  "removed_view cb key k vw =
     (if cb then vw\<lparr>cv_map := (cv_map vw)(key := None), cv_refs := (cv_refs vw)(k := Suc (cv_refs vw k))\<rparr>
      else vw\<lparr>cv_map := (cv_map vw)(key := None), cv_val := (cv_val vw)(k := None)\<rparr>)"

definition unlinked :: "bool \<Rightarrow> 'v critnib_leaf \<Rightarrow> 'v critnib_leaf" where
  "unlinked cb lf = (if cb then lf\<lparr>k_to_be_freed := k_value lf, k_value := None\<rparr> else lf)"

lemma view_unlink:
  assumes wf: "wf_ct t" "wf_ct t'" and st: "set (entries t) = insert (key, k) (set (entries t'))" "key \<notin> fst ` set (entries t')"
    and k: "k \<notin> set (leaf_ptrs t')" "h k = Some lf" "live_leaf cb lf"
  shows "view_of t' (h(k \<mapsto> unlinked cb lf)) = removed_view cb key k (view_of t h)"
proof -
  have m: "map_of (entries t') = (map_of (entries t))(key := None)"
  proof
    fix x
    show "map_of (entries t') x = ((map_of (entries t))(key := None)) x"
    proof (cases "x = key")
      case False
      have "map_of (entries t') x = Some p \<longleftrightarrow> map_of (entries t) x = Some p" for p
        using False st(1) map_of_entries [OF wf(1), of x p] map_of_entries [OF wf(2), of x p] by auto
      then show ?thesis using False by (metis fun_upd_apply not_None_eq)
    qed (use st(2) map_of_None_entries in auto)
  qed
  have l: "p \<in> set (leaf_ptrs t) \<longleftrightarrow> p = k \<or> p \<in> set (leaf_ptrs t')" for p
    using st(1) by (auto simp: leaf_ptrs_entries)
  have r: "cb \<Longrightarrow> 2 \<le> unat (k_ref_count lf)" "\<not> cb \<Longrightarrow> k_ref_count lf = 0" "k_value lf \<noteq> None" "k_to_be_freed lf = None"
    using k(3) by (simp_all add: live_leaf_def LEAF_VALID_def word_le_nat_alt)
  have v: "leaf_val (leaf_ptrs t') (h(k \<mapsto> unlinked cb lf)) =
      (if cb then leaf_val (leaf_ptrs t) h else (leaf_val (leaf_ptrs t) h)(k := None))"
    using k(1,2) l r by (auto simp: leaf_val_def unlinked_def fun_eq_iff split: option.splits)
  have "leaf_refs (leaf_ptrs t') (h(k \<mapsto> unlinked cb lf)) =
      (if cb then (leaf_refs (leaf_ptrs t) h)(k := Suc (leaf_refs (leaf_ptrs t) h k)) else leaf_refs (leaf_ptrs t) h)"
    using k(1,2) l r by (auto simp: leaf_refs_def unlinked_def fun_eq_iff Suc_diff_le split: option.splits)
  then show ?thesis using m v by (simp add: removed_view_def view_of_def)
qed

text \<open>The last part of a removal: the leaf goes to the ring.\<close>

lemma del_leaf_ok:
  assumes inv: "crit_inv c t ns ks [] [k]" and lf: "cr_leaves c k = Some lf" "live_leaf (cr_cb c \<noteq> None) lf"
    and i: "i < 16" "cr_pending_leaves c ! i = None"
  shows "\<exists>c'. del_leaf k i c = Some (k_value lf, if cr_cb c \<noteq> None then Some k else None, c') \<and> crit_inv c' t ns ks [] [] \<and> unchanged_env c c' \<and>
    cr_leaves c' = (cr_leaves c)(k \<mapsto> unlinked (cr_cb c \<noteq> None) lf)"
proof -
  let ?cb = "cr_cb c \<noteq> None" and ?pl = "cr_pending_leaves c"
  let ?lf = "unlinked ?cb lf"
  let ?h = "(cr_leaves c)(k \<mapsto> ?lf)"
  let ?c = "c\<lparr>cr_leaves := ?h, cr_pending_leaves := ?pl[i := Some k]\<rparr>"
  note parts = crit_inv_parts [OF inv]
  note lp = leaves_inv_parts [OF parts(5)]
  have k: "k \<notin> set (leaf_ptrs t)" "k \<notin> set ks" "Some k \<notin> set ?pl" using lp(3) by auto
  obtain A B where AB: "somes ?pl = A @ somes [?pl ! i] @ B" "\<And>y. somes (?pl[i := y]) = A @ somes [y] @ B"
    using somes_split [of i ?pl] i(1) lp(2) by auto
  have ring: "Some p \<in> set (?pl[i := Some k]) \<longleftrightarrow> p = k \<or> Some p \<in> set ?pl" for p
  proof -
    have "p \<in> set (somes (?pl[i := Some k])) \<longleftrightarrow> p = k \<or> p \<in> set (somes ?pl)" by (auto simp only: AB i(2) set_append set_simps somes_simps)
    then show ?thesis by simp
  qed
  have "leaf_chain ?h (cr_deleted_leaf c) ks" using lp(1) by (rule leaf_chain_frame) (use k in auto)
  moreover have "distinct (leaf_ptrs t @ ks @ somes (?pl[i := Some k]) @ [])" using lp(3) i(2) by (auto simp: AB)
  moreover have "set (leaf_ptrs t @ ks @ somes (?pl[i := Some k]) @ []) \<subseteq> dom ?h" using lp(4) by (auto simp: ring)
  moreover have "leaf_class ?cb (leaf_ptrs t) ks (?pl[i := Some k]) [] k lf'" if "?h k = Some lf'" for lf'
    using that k lf(2) by (auto simp: leaf_class_def ring ring_leaf_def removed_leaf_def idle_leaf_def live_leaf_def unlinked_def)
  ultimately have lv: "leaves_inv ?cb ?h (cr_deleted_leaf c) (?pl[i := Some k]) (leaf_ptrs t) ks []"
    using lp(2) by (intro leaves_inv_move [OF parts(5), where k = k]) (simp_all add: ring)
  have "ct_rep (cr_nodes c) ?h t" using parts(3) by (rule ct_rep_frame) (use k in auto)
  moreover have "dom ?h = dom (cr_leaves c)" using lf(1) by auto
  ultimately have "crit_inv ?c t ns ks [] []" by (intro crit_invI) (use parts lv in simp_all)
  moreover have "(cr_leaves c)(k \<mapsto> lf) = cr_leaves c" using lf(1) by auto
  then have "del_leaf k i c = Some (k_value lf, if ?cb then Some k else None, ?c)"
    using lf(1) by (cases "cr_cb c") (simp_all add: del_leaf_def upd_leaf_def unlinked_def)
  ultimately show ?thesis by (simp add: unchanged_env_def)
qed

lemma ring_node_ok:
  assumes inv: "crit_inv c t ns ks [b] fl" and i: "i < 16" "cr_pending_nodes c ! i = None"
  shows "crit_inv (c\<lparr>cr_pending_nodes := (cr_pending_nodes c)[i := Some b]\<rparr>) t ns ks [] fl"
proof -
  note parts = crit_inv_parts [OF inv]
  note np = nodes_inv_parts [OF parts(4)]
  obtain A B where AB: "somes (cr_pending_nodes c) = A @ somes [cr_pending_nodes c ! i] @ B"
      "\<And>y. somes ((cr_pending_nodes c)[i := y]) = A @ somes [y] @ B"
    using somes_split [of i "cr_pending_nodes c"] i(1) np(2) by auto
  have "distinct (node_ptrs t @ ns @ somes ((cr_pending_nodes c)[i := Some b]) @ [])" using np(3) i(2) by (auto simp: AB)
  moreover have "set (node_ptrs t @ ns @ somes ((cr_pending_nodes c)[i := Some b]) @ []) = set (node_ptrs t @ ns @ somes (cr_pending_nodes c) @ [b])"
    unfolding AB by (auto simp: i(2))
  ultimately have "nodes_inv (cr_nodes c) (cr_deleted_node c) ((cr_pending_nodes c)[i := Some b]) (node_ptrs t) ns []"
    using nodes_inv_regroup [OF parts(4)] np(2) by simp
  then show ?thesis by (intro crit_invI) (use parts in simp_all)
qed

text \<open>The result of a removal.\<close>

definition remove_result :: "bool \<Rightarrow> u64 \<Rightarrow> 'v crit_view \<Rightarrow> 'v option \<Rightarrow> ref \<Rightarrow> 'v crit_view \<Rightarrow> bool" where
  "remove_result cb key vw res ref vw' \<longleftrightarrow>
     (case cv_map vw key of
        None \<Rightarrow> res = None \<and> ref = None \<and> vw' = vw
      | Some k \<Rightarrow> res \<noteq> None \<and> res = cv_val vw k \<and> ref = (if cb then Some k else None) \<and> vw' = removed_view cb key k vw)"

lemma removal_finish:
  assumes t: "wf_ct t" "set (entries t) = insert (key, k) (set (entries t'))" "key \<notin> fst ` set (entries t')"
    and inv: "crit_inv c t' ns ks [] [k]" and live: "\<And>lf. cr_leaves c k = Some lf \<Longrightarrow> live_leaf (cr_cb c \<noteq> None) lf"
    and i: "i < 16" "cr_pending_leaves c ! i = None"
  shows "\<exists>res ref c' vw'. del_leaf k i c = Some (res, ref, c') \<and> unchanged_env c c' \<and> crit_ok c' vw' \<and>
    remove_result (cr_cb c \<noteq> None) key (view_of t (cr_leaves c)) res ref vw'"
proof -
  note parts = crit_inv_parts [OF inv] and lp = leaves_inv_parts [OF crit_inv_parts(5) [OF inv]]
  obtain lf where lf: "cr_leaves c k = Some lf" using lp(4) by auto
  have k: "k \<notin> set (leaf_ptrs t')" using lp(3) by auto
  obtain c' where c': "del_leaf k i c = Some (k_value lf, if cr_cb c \<noteq> None then Some k else None, c')" "crit_inv c' t' ns ks [] []"
    "unchanged_env c c'" "cr_leaves c' = (cr_leaves c)(k \<mapsto> unlinked (cr_cb c \<noteq> None) lf)"
    using del_leaf_ok [OF inv lf live [OF lf] i] by blast
  let ?vw = "view_of t (cr_leaves c)"
  have "crit_ok c' (removed_view (cr_cb c \<noteq> None) key k ?vw)"
    unfolding crit_ok_def using c'(2,4) view_unlink [where h = "cr_leaves c" and lf = lf and cb = "cr_cb c \<noteq> None", OF t(1) parts(2) t(2,3) k lf live [OF lf]] by metis
  moreover have kt: "k \<in> set (leaf_ptrs t)" using t(2) by (auto simp: leaf_ptrs_entries)
  have "cv_map ?vw key = Some k" using map_of_entries [OF t(1)] t(2) by (simp add: view_of_def)
  moreover have "cv_val ?vw k = k_value lf" using kt lf by (simp add: view_of_def leaf_val_def)
  moreover have "k_value lf \<noteq> None" using live [OF lf] by (simp add: live_leaf_def)
  ultimately show ?thesis using c'(1,3) by (intro exI conjI) (auto simp: remove_result_def)
qed

lemma filter_nth: "filter P xs = map ((!) xs) (filter (\<lambda>i. P (xs ! i)) [0..<length xs])"
proof -
  have "filter P (map ((!) xs) [0..<length xs]) = map ((!) xs) (filter (P \<circ> (!) xs) [0..<length xs])" by (rule filter_map)
  then show ?thesis by (simp add: map_nth comp_def)
qed

lemma concat_nonempty: "f CE = [] \<Longrightarrow> concat (map f xs) = concat (map f (filter (\<lambda>t. t \<noteq> CE) xs))"
  by (induction xs) auto

text \<open>The children of a node that are left when one of them is gone.\<close>

lemma rest_children:
  assumes "length L + length R = 15" 
  defines "idx \<equiv> filter (\<lambda>i. (map tag L @ None # map tag R) ! i \<noteq> None) [0..<16]"
  shows "filter (\<lambda>t. t \<noteq> CE) (L @ R) = map ((!) (L @ CE # R)) idx"
proof -
  have len: "length (L @ CE # R) = 16" using assms(1) by simp
  have tag: "(map tag L @ None # map tag R) ! i = tag ((L @ CE # R) ! i)" if "i < 16" for i
  proof -
    have "map tag (L @ CE # R) ! i = tag ((L @ CE # R) ! i)" by (rule nth_map) (use that len in simp)
    then show ?thesis by simp
  qed
  have "idx = filter (\<lambda>i. (L @ CE # R) ! i \<noteq> CE) [0..<16]"
    unfolding idx_def by (rule filter_cong) (simp_all only: tag set_upt atLeastLessThan_iff tag_None_iff not_False_eq_True)
  moreover have "filter (\<lambda>t. t \<noteq> CE) (L @ CE # R) = map ((!) (L @ CE # R)) (filter (\<lambda>i. (L @ CE # R) ! i \<noteq> CE) [0..<length (L @ CE # R)])"
    by (rule filter_nth)
  moreover have "filter (\<lambda>t. t \<noteq> CE) (L @ CE # R) = filter (\<lambda>t. t \<noteq> CE) (L @ R)" by simp
  ultimately show ?thesis by (simp only: len)
qed

text \<open>Several children are left: the leaf is unlinked and the node stays.\<close>

lemma unlink_keep:
  assumes inv: "crit_inv c (fill fs (CN b path sh (L @ CL k key # R))) ns ks [] []"
    and many: "2 \<le> length (filter (\<lambda>t. t \<noteq> CE) (L @ R))"
  shows "\<exists>c'. store_slot (Child_Slot b (length L)) None c = Some c' \<and> crit_inv c' (fill fs (CN b path sh (L @ CE # R))) ns ks [] [k] \<and>
    unchanged_env c c' \<and> cr_leaves c' = cr_leaves c \<and> cr_pending_leaves c' = cr_pending_leaves c"
proof -
  note parts = crit_inv_parts [OF inv] and lp = leaves_inv_parts [OF crit_inv_parts(5) [OF inv]]
  let ?fs = "fs @ [(b, path, sh, L, R)]"
  have w: "wf_ct (CN b path sh (L @ CL k key # R))" and h: "\<forall>x\<in>fst ` set (entries (CN b path sh (L @ CL k key # R))). at_hole fs x"
    using wf_fill_sub [OF parts(2)] by auto
  have o: "(L @ CE # R) ! j = (L @ CL k key # R) ! j" if "j \<noteq> length L" for j using that by (rule nth_other)
  have w': "wf_ct (CN b path sh (L @ CE # R))" using w many o unfolding wf_ct_node by simp
  have "wf_ct (fill fs (CN b path sh (L @ CE # R)))"
    by (rule wf_fill_replace [OF parts(2) w']) (use h in auto)
  then have wf: "wf_ct (fill ?fs CE)" by simp
  have inv': "crit_inv c (fill ?fs (CL k key)) ns ks [] []" using inv by simp
  have "k \<in> set (leaf_ptrs (fill ?fs (CL k key)))" using fill_leaf_ptrs [of ?fs] by auto
  then have "\<And>lf. cr_leaves c k = Some lf \<Longrightarrow> live_leaf (cr_cb c \<noteq> None) lf" using lp(5) by (simp add: leaf_class_def)
  then have "\<And>p lf. p \<in> set [k] \<Longrightarrow> cr_leaves c p = Some lf \<Longrightarrow> k_to_be_freed lf = None" by (auto simp: live_leaf_def)
  note tbf = this
  have "\<exists>c'. store_slot (slot_at Root_Slot ?fs) (tag CE) c = Some c' \<and> crit_inv c' (fill ?fs CE) ns ks [] [k] \<and> unchanged_env c c' \<and>
      cr_leaves c' = cr_leaves c \<and> cr_pending_leaves c' = cr_pending_leaves c \<and> cr_pending_nodes c' = cr_pending_nodes c"
    by (rule tree_store_ok [OF inv' wf]) (use tbf in simp_all)
  then show ?thesis by auto
qed

text \<open>One child is left: it takes the place of the node.\<close>

lemma unlink_collapse:
  assumes inv: "crit_inv c (fill fs (CN b path sh (L @ CL k key # R))) ns ks [] []"
    and one: "filter (\<lambda>t. t \<noteq> CE) (L @ R) = [u]"
  shows "\<exists>c'. store_slot (slot_at Root_Slot fs) (tag u) c = Some c' \<and> crit_inv c' (fill fs u) ns ks [b] [k] \<and>
    unchanged_env c c' \<and> cr_leaves c' = cr_leaves c \<and> cr_pending_leaves c' = cr_pending_leaves c \<and> cr_pending_nodes c' = cr_pending_nodes c"
proof -
  note parts = crit_inv_parts [OF inv] and lp = leaves_inv_parts [OF crit_inv_parts(5) [OF inv]] and np = nodes_inv_parts [OF crit_inv_parts(4) [OF inv]]
  let ?t = "CN b path sh (L @ CL k key # R)"
  have "u \<in> set (filter (\<lambda>t. t \<noteq> CE) (L @ R))" unfolding one by simp
  then have uin: "u \<in> set (L @ R)" "u \<noteq> CE" by auto
  have w: "wf_ct ?t" and h: "\<forall>x\<in>fst ` set (entries ?t). at_hole fs x" using wf_fill_sub [OF parts(2)] by auto
  have wu: "wf_ct u" using w uin unfolding wf_ct_node by blast
  have "ct_rep (cr_nodes c) (cr_leaves c) ?t" using parts(3) by (rule ct_rep_fill_sub)
  then have ru: "ct_rep (cr_nodes c) (cr_leaves c) u" using uin by auto
  have wf: "wf_ct (fill fs u)" by (rule wf_fill_replace [OF parts(2) wu uin(2)]) (use h uin in auto)
  have cc: "concat (map f L) @ concat (map f R) = f u" if "f CE = []" for f :: "ct \<Rightarrow> 'x list"
    using concat_nonempty [of f "L @ R", OF that] unfolding one by simp
  obtain A B where AB: "\<And>v. node_ptrs (fill fs v) = A @ node_ptrs v @ B" using fill_node_ptrs by blast
  obtain A' B' where AB': "\<And>v. leaf_ptrs (fill fs v) = A' @ leaf_ptrs v @ B'" using fill_leaf_ptrs by blast
  have dn: "distinct (node_ptrs ?t)" using np(3) unfolding AB distinct_append by blast
  have dl: "distinct (leaf_ptrs ?t)" using lp(3) unfolding AB' distinct_append by blast
  have nd: "distinct (node_ptrs u @ [b])" "set (node_ptrs u @ [b]) = set (node_ptrs ?t @ [])"
    using dn cc [of node_ptrs, symmetric] by auto
  have ld: "distinct (leaf_ptrs u @ [k])" "set (leaf_ptrs u @ [k]) = set (leaf_ptrs ?t @ [])"
    using dl cc [of leaf_ptrs, symmetric] by auto
  have live: "live_leaf (cr_cb c \<noteq> None) lf" if "p \<in> set (leaf_ptrs ?t)" "cr_leaves c p = Some lf" for p lf
  proof -
    have "p \<in> set (leaf_ptrs (fill fs ?t))" unfolding AB' using that(1) by auto
    then show ?thesis using lp(5) [OF that(2)] by (simp add: leaf_class_def)
  qed
  have l1: "\<And>p lf. p \<in> set (leaf_ptrs u) \<Longrightarrow> cr_leaves c p = Some lf \<Longrightarrow> live_leaf (cr_cb c \<noteq> None) lf"
    using live ld(2) by (metis Un_iff append_Nil2 set_append)
  have l2: "\<And>p lf. p \<in> set [k] \<Longrightarrow> cr_leaves c p = Some lf \<Longrightarrow> k_to_be_freed lf = None"
    using live by (auto simp: live_leaf_def)
  from tree_store_ok [OF inv wf ru nd ld l1 l2] show ?thesis by auto
qed

lemma entries_unlink:
  assumes wf: "wf_ct (fill fs (CN b path sh (L @ CL k key # R)))" and u: "entries u = concat (map entries L) @ concat (map entries R)"
  shows "set (entries (fill fs (CN b path sh (L @ CL k key # R)))) = insert (key, k) (set (entries (fill fs u)))"
    "key \<notin> fst ` set (entries (fill fs u))"
proof -
  obtain A B where AB: "\<And>v. entries (fill fs v) = A @ entries v @ B" using fill_entries by blast
  show "set (entries (fill fs (CN b path sh (L @ CL k key # R)))) = insert (key, k) (set (entries (fill fs u)))"
    unfolding AB u by auto
  have "distinct (map fst (entries (fill fs (CN b path sh (L @ CL k key # R)))))" by (rule entries_distinct [OF wf])
  then show "key \<notin> fst ` set (entries (fill fs u))" unfolding AB u by auto
qed

text \<open>The node above the unlinked one is another one.\<close>

lemma frame_node_neq:
  assumes "distinct (node_ptrs (fill (gs @ [(p, path', sh', L', R')]) (CN b path sh cs)))"
  shows "p \<noteq> b"
proof -
  obtain A B where AB: "\<And>v. node_ptrs (fill gs v) = A @ node_ptrs v @ B" using fill_node_ptrs by blast
  have "distinct (node_ptrs (CN p path' sh' (L' @ CN b path sh cs # R')))" using assms unfolding fill_append AB distinct_append fill.simps by blast
  then show ?thesis by auto
qed

lemma unlink_leaf_ok:
  assumes inv: "crit_inv c (fill fs (CN b path sh (L @ CL k key # R))) ns ks [] []"
    and i: "i < 16" "cr_pending_leaves c ! i = None" "cr_pending_nodes c ! i = None"
  shows "\<exists>res ref c' vw'. unlink_leaf b (slot_at Root_Slot fs) k key i c = Some (res, ref, c') \<and> unchanged_env c c' \<and> crit_ok c' vw' \<and>
    remove_result (cr_cb c \<noteq> None) key (view_of (fill fs (CN b path sh (L @ CL k key # R))) (cr_leaves c)) res ref vw'"
proof -
  let ?t = "CN b path sh (L @ CL k key # R)"
  note parts = crit_inv_parts [OF inv] and lp = leaves_inv_parts [OF crit_inv_parts(5) [OF inv]] and np = nodes_inv_parts [OF crit_inv_parts(4) [OF inv]]
  have w: "wf_ct ?t" using wf_fill_sub [OF parts(2)] by blast
  then have sl: "slice_index key sh = length L" and len: "length L + length R = 15" unfolding wf_ct_node by auto
  have "ct_rep (cr_nodes c) (cr_leaves c) ?t" using parts(3) by (rule ct_rep_fill_sub)
  then have nd: "cr_nodes c b = Some \<lparr>n_child = map tag L @ Some (Leaf_Ptr k) # map tag R, n_path = path, n_shift = sh\<rparr>" by simp
  let ?nd = "\<lparr>n_child = map tag L @ None # map tag R, n_path = path, n_shift = sh\<rparr>"
  let ?c2 = "c\<lparr>cr_nodes := (cr_nodes c)(b \<mapsto> ?nd)\<rparr>"
  have st: "store_slot (Child_Slot b (length L)) None c = Some ?c2"
    using list_update_length [of "map tag L"] by (simp add: store_slot_node nd)
  define idx where "idx = filter (\<lambda>i. (map tag L @ None # map tag R) ! i \<noteq> None) [0..<16]"
  have rest: "filter (\<lambda>t. t \<noteq> CE) (L @ R) = map ((!) (L @ CE # R)) idx" unfolding idx_def by (rule rest_children [OF len])
  have eq: "unlink_leaf b (slot_at Root_Slot fs) k key i c = (case idx of
        [] \<Rightarrow> None
      | [ochild] \<Rightarrow> do {
          c3 \<leftarrow> store_slot (slot_at Root_Slot fs) ((map tag L @ None # map tag R) ! ochild) ?c2;
          del_leaf k i (c3\<lparr>cr_pending_nodes := (cr_pending_nodes c3)[i := Some b]\<rparr>)
        }
      | _ \<Rightarrow> del_leaf k i ?c2)"
    unfolding unlink_leaf_def idx_def using nd sl st by (simp split: list.split)
  have kin: "k \<in> set (leaf_ptrs (fill fs ?t))" using fill_leaf_ptrs [of fs] by auto
  then have live: "\<And>lf. cr_leaves c k = Some lf \<Longrightarrow> live_leaf (cr_cb c \<noteq> None) lf" using lp(5) by (simp add: leaf_class_def)
  have "2 \<le> length (filter (\<lambda>t. t \<noteq> CE) (L @ R)) + 1" using w unfolding wf_ct_node by auto
  then consider (one) o' where "idx = [o']" | (many) o1 o2 os where "idx = o1 # o2 # os" unfolding rest by (cases idx rule: remdups_adj.cases) auto
  then show ?thesis
  proof cases
    case (many o1 o2 os)
    then have "2 \<le> length (filter (\<lambda>t. t \<noteq> CE) (L @ R))" unfolding rest by simp
    from unlink_keep [OF inv this] st
    have c2: "crit_inv ?c2 (fill fs (CN b path sh (L @ CE # R))) ns ks [] [k]" "unchanged_env c ?c2" by auto
    have "\<exists>res ref c' vw'. del_leaf k i ?c2 = Some (res, ref, c') \<and> unchanged_env ?c2 c' \<and> crit_ok c' vw' \<and>
        remove_result (cr_cb ?c2 \<noteq> None) key (view_of (fill fs ?t) (cr_leaves ?c2)) res ref vw'"
      by (rule removal_finish [OF parts(2) entries_unlink [OF parts(2)] c2(1)]) (use live i in simp_all)
    then show ?thesis unfolding eq many using unchanged_env_trans [OF c2(2)] by fastforce
  next
    case (one o')
    let ?u = "(L @ CE # R) ! o'"
    have u: "filter (\<lambda>t. t \<noteq> CE) (L @ R) = [?u]" unfolding rest one by simp
    have "o' \<in> set idx" using one by simp
    then have o': "o' < 16" unfolding idx_def by simp
    have tg: "(map tag L @ None # map tag R) ! o' = tag ?u"
    proof -
      have "map tag (L @ CE # R) ! o' = tag ?u" by (rule nth_map) (use o' len in simp)
      then show ?thesis by simp
    qed
    obtain c' where c': "store_slot (slot_at Root_Slot fs) (tag ?u) c = Some c'" "crit_inv c' (fill fs ?u) ns ks [b] [k]"
      "unchanged_env c c'" "cr_leaves c' = cr_leaves c" "cr_pending_leaves c' = cr_pending_leaves c" "cr_pending_nodes c' = cr_pending_nodes c"
      using unlink_collapse [OF inv u] by blast
    let ?c3 = "c'\<lparr>cr_nodes := (cr_nodes c')(b \<mapsto> ?nd)\<rparr>"
    have s3: "store_slot (slot_at Root_Slot fs) (tag ?u) ?c2 = Some ?c3"
    proof (cases fs rule: rev_cases)
      case Nil
      then show ?thesis using c'(1) by (auto simp: store_slot_def)
    next
      case (snoc gs f)
      obtain p path' sh' L' R' where f: "f = (p, path', sh', L', R')" by (cases f)
      have "distinct (node_ptrs (fill fs ?t))" using np(3) unfolding distinct_append by blast
      then have "p \<noteq> b" unfolding snoc f by (rule frame_node_neq)
      then show ?thesis using c'(1) by (auto simp: snoc f store_slot_node fun_upd_twist split: option.splits)
    qed
    let ?c4 = "?c3\<lparr>cr_pending_nodes := (cr_pending_nodes ?c3)[i := Some b]\<rparr>"
    have "crit_inv ?c3 (fill fs ?u) ns ks [b] [k]" by (rule crit_inv_set_unlinked_node [OF c'(2)]) (use len in simp)
    then have inv4: "crit_inv ?c4 (fill fs ?u) ns ks [] [k]" by (rule ring_node_ok) (use i c'(6) in simp_all)
    have env: "unchanged_env c ?c4" "cr_cb ?c4 = cr_cb c" "cr_leaves ?c4 = cr_leaves c" using c'(3,4) by (auto simp: unchanged_env_def)
    have ue: "entries ?u = concat (map entries L) @ concat (map entries R)"
      using concat_nonempty [of entries "L @ R"] unfolding u by simp
    have "\<exists>res ref c' vw'. del_leaf k i ?c4 = Some (res, ref, c') \<and> unchanged_env ?c4 c' \<and> crit_ok c' vw' \<and>
        remove_result (cr_cb ?c4 \<noteq> None) key (view_of (fill fs ?t) (cr_leaves ?c4)) res ref vw'"
      by (rule removal_finish [OF parts(2) entries_unlink [OF parts(2) ue] inv4]) (use live i c'(5) env in simp_all)
    then obtain res ref c5 vw' where "del_leaf k i ?c4 = Some (res, ref, c5)" "unchanged_env ?c4 c5" "crit_ok c5 vw'"
      "remove_result (cr_cb c \<noteq> None) key (view_of (fill fs ?t) (cr_leaves c)) res ref vw'"
      unfolding env(2,3) by blast
    then show ?thesis unfolding eq one using tg s3 unchanged_env_trans [OF env(1)] by auto
  qed
qed

text \<open>What a removal leaves alone.\<close>

definition removal_env :: "('v, 's) critnib \<Rightarrow> ('v, 's) critnib \<Rightarrow> bool" where
  "removal_env c c' \<longleftrightarrow> cr_cb c' = cr_cb c \<and> cr_alloc c' = cr_alloc c \<and> set (oom (cr_host c')) \<subseteq> set (oom (cr_host c)) \<and>
     (cr_remove_count c' = cr_remove_count c \<or> cr_remove_count c' = cr_remove_count c + 1)"

text \<open>The removal from a tree that is a single leaf, and from one with nodes, after the ring entry has been emptied.\<close>

lemma remove_root_leaf:
  assumes inv: "crit_inv c (CL k kk) ns ks [] []" and i: "i < 16" "cr_pending_leaves c ! i = None"
  shows "\<exists>res ref c' vw'. do { lf \<leftarrow> cr_leaves c k; if k_key lf = key then del_leaf k i (c\<lparr>cr_root := None\<rparr>) else Some (None, None, c) } =
      Some (res, ref, c') \<and> unchanged_env c c' \<and> crit_ok c' vw' \<and>
    remove_result (cr_cb c \<noteq> None) key (view_of (CL k kk) (cr_leaves c)) res ref vw'"
proof -
  note parts = crit_inv_parts [OF inv]
  obtain lf where lf: "cr_leaves c k = Some lf" "k_key lf = kk" using parts(3) by auto
  show ?thesis
  proof (cases "kk = key")
    case False
    have "crit_ok c (view_of (CL k kk) (cr_leaves c))" using inv unfolding crit_ok_def by blast
    then show ?thesis using lf False by (auto simp: remove_result_def view_of_def)
  next
    case True
    have "live_leaf (cr_cb c \<noteq> None) lf" using leaves_inv_parts(5) [OF parts(5) lf(1)] by (simp add: leaf_class_def)
    then have live: "\<And>lf. cr_leaves c k = Some lf \<Longrightarrow> live_leaf (cr_cb c \<noteq> None) lf" using lf by simp
    let ?c = "c\<lparr>cr_root := None\<rparr>"
    have inv1: "crit_inv c (fill [] (CL k key)) ns ks [] []" using inv True by simp
    have "\<exists>c'. store_slot (slot_at Root_Slot []) (tag CE) c = Some c' \<and> crit_inv c' (fill [] CE) ns ks [] [k] \<and> unchanged_env c c' \<and>
      cr_leaves c' = cr_leaves c \<and> cr_pending_leaves c' = cr_pending_leaves c \<and> cr_pending_nodes c' = cr_pending_nodes c"
      by (rule tree_store_ok [OF inv1]) (use live in \<open>auto simp: live_leaf_def\<close>)
    then have inv2: "crit_inv ?c CE ns ks [] [k]" by (simp add: store_slot_def)
    have "\<exists>res ref c' vw'. del_leaf k i ?c = Some (res, ref, c') \<and> unchanged_env ?c c' \<and> crit_ok c' vw' \<and>
        remove_result (cr_cb ?c \<noteq> None) key (view_of (CL k key) (cr_leaves ?c)) res ref vw'"
      by (rule removal_finish [OF _ _ _ inv2]) (use live i in simp_all)
    then show ?thesis using lf True by (simp add: unchanged_env_def)
  qed
qed

lemma remove_below:
  assumes inv: "crit_inv c (CN a path sh cs) ns ks [] []"
    and i: "i < 16" "cr_pending_leaves c ! i = None" "cr_pending_nodes c ! i = None"
  shows "\<exists>res ref c' vw'. do {
      r \<leftarrow> remove_walk (cr_nodes c) key Root_Slot Root_Slot a (Node_Ptr a);
      (case r of
         None \<Rightarrow> Some (None, None, c)
       | Some (b, n_parent, k) \<Rightarrow> do {
           lf \<leftarrow> cr_leaves c k;
           if k_key lf \<noteq> key then Some (None, None, c) else unlink_leaf b n_parent k key i c
         }) } = Some (res, ref, c') \<and> unchanged_env c c' \<and> crit_ok c' vw' \<and>
    remove_result (cr_cb c \<noteq> None) key (view_of (CN a path sh cs) (cr_leaves c)) res ref vw'"
proof -
  let ?t = "CN a path sh cs"
  note parts = crit_inv_parts [OF inv]
  obtain r where r: "remove_walk (cr_nodes c) key Root_Slot Root_Slot a (Node_Ptr a) = Some r" "removal_spot key Root_Slot ?t r"
    using remove_walk_ok [OF parts(3,2)] by blast
  have miss: "crit_ok c (view_of ?t (cr_leaves c)) \<and> remove_result (cr_cb c \<noteq> None) key (view_of ?t (cr_leaves c)) None None (view_of ?t (cr_leaves c))"
    if "key \<notin> fst ` set (entries ?t)"
  proof -
    have "cv_map (view_of ?t (cr_leaves c)) key = None" using that by (simp add: view_of_def map_of_None_entries del: entries.simps)
    then show ?thesis using inv unfolding crit_ok_def remove_result_def by auto
  qed
  show ?thesis
  proof (cases r)
    case None
    then show ?thesis using miss r by (auto simp: removal_spot_def)
  next
    case (Some x)
    obtain b sl k where x: "x = (b, sl, k)" by (cases x)
    obtain fs path' sh' L kk R where y: "?t = fill fs (CN b path' sh' (L @ CL k kk # R))" "sl = slot_at Root_Slot fs"
      "kk \<noteq> key \<longrightarrow> key \<notin> fst ` set (entries ?t)"
      using r(2) unfolding removal_spot_def Some x option.case case_prod_conv by blast
    have "ct_rep (cr_nodes c) (cr_leaves c) (CN b path' sh' (L @ CL k kk # R))" using parts(3) unfolding y(1) by (rule ct_rep_fill_sub)
    then obtain lf where lf: "cr_leaves c k = Some lf" "k_key lf = kk" by auto
    show ?thesis
    proof (cases "kk = key")
      case False
      then show ?thesis using miss r(1) Some x lf y(3) by auto
    next
      case True
      have inv1: "crit_inv c (fill fs (CN b path' sh' (L @ CL k key # R))) ns ks [] []" using inv unfolding y(1) True .
      then show ?thesis using unlink_leaf_ok [OF inv1 i] r(1) Some x lf unfolding y(1,2) True by simp
    qed
  qed
qed

theorem critnib_remove_ok:
  assumes ok: "crit_ok c vw" and ref: "cr_cb c \<noteq> None \<Longrightarrow> refp"
  shows "\<exists>res ref c' vw'. critnib_remove c key refp = Some (res, ref, c') \<and> removal_env c c' \<and> crit_ok c' vw' \<and>
    remove_result (cr_cb c \<noteq> None) key vw res ref vw'"
proof -
  obtain t ns ks where inv: "crit_inv c t ns ks [] []" and vw: "vw = view_of t (cr_leaves c)" using ok by (auto simp: crit_ok_def)
  note parts = crit_inv_parts [OF inv]
  show ?thesis
  proof (cases "cr_root c")
    case None
    then have "t = CE" using parts(1) by simp
    then have "cv_map vw key = None" by (simp add: vw view_of_def)
    then show ?thesis using None ok ref by (intro exI [of _ None] exI [of _ c] exI [of _ vw]) (auto simp: critnib_remove_def remove_result_def removal_env_def)
  next
    case (Some n)
    define del where "del = unat (cr_remove_count c mod DELETED_LIFE)"
    have del: "del < 16" by (simp add: del_def DELETED_LIFE_def unat_mod)
    let ?c = "c\<lparr>cr_remove_count := cr_remove_count c + 1\<rparr>"
    have "crit_inv ?c t ns ks [] []" by (rule crit_invI) (use parts in simp_all)
    from recycle_ok [OF this del]
    obtain c1 ns' ks' where c1: "recycle del ?c = Some c1" "crit_inv c1 t ns' ks' [] []" "unchanged_env ?c c1"
      "view_of t (cr_leaves c1) = vw" "cr_pending_nodes c1 ! del = None" "cr_pending_leaves c1 ! del = None"
      by (auto simp: vw)
    have d: "unat ((cr_remove_count c + 1 - 1) mod DELETED_LIFE) = del" by (simp add: del_def)
    have rm: "critnib_remove c key refp =
        (case n of
           Leaf_Ptr k \<Rightarrow> do { lf \<leftarrow> cr_leaves c1 k; if k_key lf = key then del_leaf k del (c1\<lparr>cr_root := None\<rparr>) else Some (None, None, c1) }
         | Node_Ptr a \<Rightarrow> do {
             r \<leftarrow> remove_walk (cr_nodes c1) key Root_Slot Root_Slot a (Node_Ptr a);
             (case r of
                None \<Rightarrow> Some (None, None, c1)
              | Some (b, n_parent, k) \<Rightarrow> do {
                  lf \<leftarrow> cr_leaves c1 k;
                  if k_key lf \<noteq> key then Some (None, None, c1) else unlink_leaf b n_parent k key del c1
                }) })"
      unfolding critnib_remove_def utils_atomic_increment_u64_def Let_def prod.case d using Some ref c1(1) by auto
    have "\<exists>res ref c' vw'. critnib_remove c key refp = Some (res, ref, c') \<and> unchanged_env c1 c' \<and> crit_ok c' vw' \<and>
      remove_result (cr_cb c1 \<noteq> None) key vw res ref vw'"
    proof (cases n)
      case (Leaf_Ptr k)
      then obtain kk where t: "t = CL k kk" using parts(1) Some by (cases t) auto
      have "critnib_remove c key refp = do { lf \<leftarrow> cr_leaves c1 k; if k_key lf = key then del_leaf k del (c1\<lparr>cr_root := None\<rparr>) else Some (None, None, c1) }"
        using rm Leaf_Ptr by simp
      then show ?thesis using remove_root_leaf [OF c1(2) [unfolded t] del c1(6), of key] c1(4) unfolding t by simp
    next
      case (Node_Ptr a)
      then obtain path sh cs where t: "t = CN a path sh cs" using parts(1) Some by (cases t) auto
      have "critnib_remove c key refp = do {
          r \<leftarrow> remove_walk (cr_nodes c1) key Root_Slot Root_Slot a (Node_Ptr a);
          (case r of
             None \<Rightarrow> Some (None, None, c1)
           | Some (b, n_parent, k) \<Rightarrow> do {
               lf \<leftarrow> cr_leaves c1 k;
               if k_key lf \<noteq> key then Some (None, None, c1) else unlink_leaf b n_parent k key del c1
             }) }"
        using rm Node_Ptr by simp
      then show ?thesis using remove_below [OF c1(2) [unfolded t] del c1(6,5), of key] c1(4) unfolding t by simp
    qed
    moreover have "removal_env c c' \<and> cr_cb c1 = cr_cb c" if "unchanged_env c1 c'" for c'
      using that c1(3) unfolding removal_env_def unchanged_env_def by auto
    ultimately show ?thesis by metis
  qed
qed

end
