(* ===== verification/Critnib_Refs.thy ===== *)
theory Critnib_Refs
  imports Critnib_Remove
begin

text \<open>
  References to the values of a critnib: queries take them, releases give them back, and the
  last release of a removed leaf hands its value to the callback.
\<close>

section \<open>Changing the count of a leaf\<close>

lemma release_loop_eq:
  "cr_leaves c k = Some lf \<Longrightarrow> LEAF_VALID \<le> k_ref_count lf \<Longrightarrow>
   release_loop k (k_ref_count lf) c =
     Some (k_ref_count lf - 1, c\<lparr>cr_leaves := (cr_leaves c)(k \<mapsto> lf\<lparr>k_ref_count := k_ref_count lf - 1\<rparr>)\<rparr>)"
  by (subst release_loop.simps) (simp add: utils_compare_exchange_u64_def Let_def)

lemma increment_ref_count_eq:
  "cr_leaves c k = Some lf \<Longrightarrow> LEAF_VALID \<le> k_ref_count lf \<Longrightarrow>
   increment_ref_count k c = Some (0, c\<lparr>cr_leaves := (cr_leaves c)(k \<mapsto> lf\<lparr>k_ref_count := k_ref_count lf + 1\<rparr>)\<rparr>)"
  by (subst increment_ref_count_def, simp add: utils_atomic_load_acquire_u64_def, subst increment_loop.simps)
    (simp add: utils_compare_exchange_u64_def Let_def)

text \<open>A change of a leaf that keeps its class.\<close>

lemma crit_inv_set_leaf:
  assumes inv: "crit_inv c t ns ks [] []" and k: "cr_leaves c k = Some lf" "k \<notin> set ks" "k_key lf' = k_key lf"
    "leaf_class (cr_cb c \<noteq> None) (leaf_ptrs t) ks (cr_pending_leaves c) [] k lf'"
  shows "crit_inv (c\<lparr>cr_leaves := (cr_leaves c)(k \<mapsto> lf')\<rparr>) t ns ks [] []"
proof -
  note parts = crit_inv_parts [OF inv]
  have "leaves_inv (cr_cb c \<noteq> None) ((cr_leaves c)(k \<mapsto> lf')) (cr_deleted_leaf c) (cr_pending_leaves c) (leaf_ptrs t) ks []"
    by (rule leaves_inv_set [OF parts(5) k(2) _ k(4)]) (use k(1) in auto)
  moreover have "ct_rep (cr_nodes c) ((cr_leaves c)(k \<mapsto> lf')) t" using parts(3) by (rule ct_rep_frame) (use k in auto)
  moreover have "dom ((cr_leaves c)(k \<mapsto> lf')) = dom (cr_leaves c)" using k(1) by auto
  ultimately show ?thesis by (intro crit_invI) (use parts in simp_all)
qed

section \<open>Taking a reference\<close>

definition taken_view :: "ptr \<Rightarrow> 'v crit_view \<Rightarrow> 'v crit_view" where
  "taken_view k vw = vw\<lparr>cv_refs := (cv_refs vw)(k := Suc (cv_refs vw k))\<rparr>"

text \<open>The result of a query that hits the leaf \<open>hit\<close>, or none.\<close>

definition query_result :: "bool \<Rightarrow> ref \<Rightarrow> 'v crit_view \<Rightarrow> 'v option \<Rightarrow> ref \<Rightarrow> 'v crit_view \<Rightarrow> bool" where
  "query_result cb hit vw res ref vw' \<longleftrightarrow>
     (case hit of
        None \<Rightarrow> res = None \<and> ref = None \<and> vw' = vw
      | Some k \<Rightarrow> res \<noteq> None \<and> res = cv_val vw k \<and>
          (if cb then ref = Some k \<and> vw' = taken_view k vw else ref = None \<and> vw' = vw))"

lemma word_Suc: "unat (r :: u64) + 1 < 2 ^ 64 \<Longrightarrow> unat (r + 1) = Suc (unat r)"
  by (simp add: unat_word_ariths)

lemma take_in_tree:
  assumes inv: "crit_inv c t ns ks [] []" and k: "k \<in> set (leaf_ptrs t)" "cr_cb c \<noteq> None"
    and bound: "cv_refs (view_of t (cr_leaves c)) k + 3 < 2 ^ 64"
  shows "\<exists>c'. increment_ref_count k c = Some (0, c') \<and> unchanged_env c c' \<and> crit_ok c' (taken_view k (view_of t (cr_leaves c)))"
proof -
  note parts = crit_inv_parts [OF inv] and lp = leaves_inv_parts [OF crit_inv_parts(5) [OF inv]]
  obtain lf where lf: "cr_leaves c k = Some lf" using lp(4) k(1) by auto
  have live: "live_leaf True lf" using lp(5) [OF lf] k by (auto simp: leaf_class_def)
  have r: "LEAF_VALID \<le> k_ref_count lf" "2 \<le> unat (k_ref_count lf)" using live by (simp_all add: live_leaf_def LEAF_VALID_def word_le_nat_alt)
  have "unat (k_ref_count lf) - 2 + 3 < 2 ^ 64" using bound k(1) lf by (simp add: view_of_def leaf_refs_def)
  then have "unat (k_ref_count lf) + 1 < 2 ^ 64" using r(2) by linarith
  then have r1: "unat (k_ref_count lf + 1) = Suc (unat (k_ref_count lf))" by (rule word_Suc)
  let ?lf = "lf\<lparr>k_ref_count := k_ref_count lf + 1\<rparr>"
  let ?c = "c\<lparr>cr_leaves := (cr_leaves c)(k \<mapsto> ?lf)\<rparr>"
  have "leaf_class (cr_cb c \<noteq> None) (leaf_ptrs t) ks (cr_pending_leaves c) [] k ?lf"
    using k live r r1 by (simp add: leaf_class_def live_leaf_def LEAF_VALID_def word_le_nat_alt)
  then have "crit_inv ?c t ns ks [] []" using lf k(1) lp(3) by (intro crit_inv_set_leaf [OF inv]) auto
  moreover have "view_of t (cr_leaves ?c) = taken_view k (view_of t (cr_leaves c))"
    using lf k(1) r(2) r1 by (auto simp: view_of_def leaf_val_def leaf_refs_def taken_view_def fun_eq_iff Suc_diff_le)
  ultimately have "crit_ok ?c (taken_view k (view_of t (cr_leaves c)))" unfolding crit_ok_def by metis
  then show ?thesis using increment_ref_count_eq [OF lf r(1)] by (simp add: unchanged_env_def)
qed

text \<open>
  The counter of removals is far from wrapping around. Then the check after a query never
  asks for another look.
\<close>

definition few_removals :: "('v, 's) critnib \<Rightarrow> bool" where
  "few_removals c \<longleftrightarrow> unat (cr_remove_count c) + 16 < 2 ^ 64"

lemma retry_eq: "few_removals c \<Longrightarrow> retry c look = look"
proof -
  assume "few_removals c"
  then have "unat (cr_remove_count c + DELETED_LIFE) = unat (cr_remove_count c) + 16"
    by (simp add: few_removals_def DELETED_LIFE_def unat_word_ariths)
  then have "\<not> cr_remove_count c + DELETED_LIFE \<le> cr_remove_count c" by (simp add: word_le_nat_alt)
  then show ?thesis by (subst retry.simps) (simp add: utils_atomic_load_acquire_u64_def Let_def)
qed

lemma take_ref_ok:
  assumes inv: "crit_inv c t ns ks [] []" and k: "k \<in> set (leaf_ptrs t)" "cr_leaves c k = Some lf"
    and bound: "cr_cb c \<noteq> None \<Longrightarrow> cv_refs (view_of t (cr_leaves c)) k + 3 < 2 ^ 64"
  shows "\<exists>res ref c' vw'. take_ref (Some k) (k_value lf) c = Some (res, ref, c') \<and> unchanged_env c c' \<and> crit_ok c' vw' \<and>
    query_result (cr_cb c \<noteq> None) (Some k) (view_of t (cr_leaves c)) res ref vw'"
proof -
  have live: "live_leaf (cr_cb c \<noteq> None) lf" using leaves_inv_parts(5) [OF crit_inv_parts(5) [OF inv] k(2)] k(1) by (simp add: leaf_class_def)
  then obtain v where v: "k_value lf = Some v" by (auto simp: live_leaf_def)
  then have cv: "cv_val (view_of t (cr_leaves c)) k = Some v" using k by (simp add: view_of_def leaf_val_def)
  show ?thesis
  proof (cases "cr_cb c = None")
    case True
    have "crit_ok c (view_of t (cr_leaves c))" using inv unfolding crit_ok_def by blast
    then show ?thesis using True v cv by (auto simp: take_ref_def query_result_def)
  next
    case False
    obtain c' where "increment_ref_count k c = Some (0, c')" "unchanged_env c c'" "crit_ok c' (taken_view k (view_of t (cr_leaves c)))"
      using take_in_tree [OF inv k(1) False bound [OF False]] by blast
    then show ?thesis using False v cv by (auto simp: take_ref_def query_result_def)
  qed
qed

section \<open>Queries\<close>

lemma ct_rep_entry: "ct_rep nodes leaves t \<Longrightarrow> (k, p) \<in> set (entries t) \<Longrightarrow> \<exists>lf. leaves p = Some lf \<and> k_key lf = k"
  by (induction t rule: entries.induct) auto

theorem critnib_get_ok:
  assumes ok: "crit_ok c vw" and ref: "cr_cb c \<noteq> None \<Longrightarrow> refp" and few: "few_removals c"
    and bound: "\<And>k. cr_cb c \<noteq> None \<Longrightarrow> cv_map vw key = Some k \<Longrightarrow> cv_refs vw k + 3 < 2 ^ 64"
  shows "\<exists>res ref c' vw'. critnib_get c key refp = Some (res, ref, c') \<and> unchanged_env c c' \<and> crit_ok c' vw' \<and>
    query_result (cr_cb c \<noteq> None) (cv_map vw key) vw res ref vw'"
proof -
  obtain t ns ks where inv: "crit_inv c t ns ks [] []" and vw: "vw = view_of t (cr_leaves c)" using ok by (auto simp: crit_ok_def)
  note parts = crit_inv_parts [OF inv]
  obtain r where r: "get_walk (cr_nodes c) key (tag t) = Some r"
    "case r of None \<Rightarrow> key \<notin> fst ` set (entries t) | Some p \<Rightarrow> \<exists>k. (k, p) \<in> set (entries t) \<and> (key \<in> fst ` set (entries t) \<longrightarrow> k = key)"
    using get_walk_ok [OF parts(3,2)] by blast
  have miss: ?thesis if "critnib_get c key refp = Some (None, None, c)" "key \<notin> fst ` set (entries t)"
  proof -
    have "cv_map vw key = None" using that(2) by (simp add: vw view_of_def map_of_None_entries)
    then show ?thesis using that(1) ok by (auto simp: query_result_def)
  qed
  show ?thesis
  proof (cases r)
    case None
    then have "critnib_get c key refp = Some (None, None, c)"
      using r(1) ref parts(1) by (auto simp: critnib_get_def retry_eq [OF few] take_ref_def)
    then show ?thesis using miss r(2) None by simp
  next
    case (Some p)
    obtain k where k: "(k, p) \<in> set (entries t)" "key \<in> fst ` set (entries t) \<longrightarrow> k = key" using r(2) Some by auto
    obtain lf where lf: "cr_leaves c p = Some lf" "k_key lf = k" using ct_rep_entry [OF parts(3) k(1)] by blast
    show ?thesis
    proof (cases "k = key")
      case False
      then have "critnib_get c key refp = Some (None, None, c)"
        using r(1) ref parts(1) Some lf by (auto simp: critnib_get_def retry_eq [OF few] take_ref_def)
      then show ?thesis using miss k False by auto
    next
      case True
      have m: "cv_map vw key = Some p" using map_of_entries [OF parts(2)] k(1) True by (simp add: vw view_of_def)
      have p: "p \<in> set (leaf_ptrs t)" using k(1) by (auto simp: leaf_ptrs_entries)
      have "critnib_get c key refp = take_ref (Some p) (k_value lf) c"
        using r(1) ref parts(1) Some lf True by (auto simp: critnib_get_def retry_eq [OF few])
      then show ?thesis using take_ref_ok [OF inv p lf(1)] bound m unfolding m vw by auto
    qed
  qed
qed

text \<open>The neighbours of a key in a map: the greatest key below a bound, the least key above one.\<close>

definition greatest :: "(u64 \<rightharpoonup> ptr) \<Rightarrow> (u64 \<Rightarrow> bool) \<Rightarrow> (u64 \<times> ptr) option \<Rightarrow> bool" where
  "greatest m P hit \<longleftrightarrow>
     (case hit of
        None \<Rightarrow> \<forall>k\<in>dom m. \<not> P k
      | Some (k, p) \<Rightarrow> m k = Some p \<and> P k \<and> (\<forall>k'\<in>dom m. P k' \<longrightarrow> k' \<le> k))"

definition least :: "(u64 \<rightharpoonup> ptr) \<Rightarrow> (u64 \<Rightarrow> bool) \<Rightarrow> (u64 \<times> ptr) option \<Rightarrow> bool" where
  "least m P hit \<longleftrightarrow>
     (case hit of
        None \<Rightarrow> \<forall>k\<in>dom m. \<not> P k
      | Some (k, p) \<Rightarrow> m k = Some p \<and> P k \<and> (\<forall>k'\<in>dom m. P k' \<longrightarrow> k \<le> k'))"

lemma sorted_last_max:
  "sorted_wrt (\<lambda>x y. fst x < fst y) (es :: (u64 \<times> ptr) list) \<Longrightarrow> x \<in> set es \<Longrightarrow> fst x \<le> fst (last es)"
  by (induction es) (auto simp: less_imp_le)

lemma sorted_hd_min:
  "sorted_wrt (\<lambda>x y. fst x < fst y) (es :: (u64 \<times> ptr) list) \<Longrightarrow> x \<in> set es \<Longrightarrow> fst (hd es) \<le> fst x"
  by (cases es) (auto simp: less_imp_le)

lemma dom_map_of_entries: "dom (map_of (entries t)) = fst ` set (entries t)"
  by (rule dom_map_of_conv_image_fst)

lemma last_le_greatest:
  assumes "wf_ct t"
  shows "\<exists>hit. last_le key (entries t) = map_option snd hit \<and> greatest (map_of (entries t)) (\<lambda>k. k \<le> key) hit"
proof (cases "filter (\<lambda>e. fst e \<le> key) (entries t) = []")
  case True
  then have "greatest (map_of (entries t)) (\<lambda>k. k \<le> key) None"
    by (auto simp: greatest_def dom_map_of_entries filter_empty_conv)
  then show ?thesis using True by (auto simp: last_le_def)
next
  case False
  let ?xs = "filter (\<lambda>e. fst e \<le> key) (entries t)"
  obtain k p where kp: "last ?xs = (k, p)" by (cases "last ?xs")
  have "(k, p) \<in> set ?xs" using last_in_set [OF False] kp by simp
  then have "map_of (entries t) k = Some p" "k \<le> key" using map_of_entries [OF assms] by auto
  moreover have "k' \<le> k" if "k' \<in> fst ` set (entries t)" "k' \<le> key" for k'
  proof -
    have "\<exists>x\<in>set ?xs. fst x = k'" using that by auto
    then show ?thesis using sorted_last_max [of ?xs] sorted_wrt_filter [OF entries_sorted [OF assms]] kp by auto
  qed
  ultimately have "greatest (map_of (entries t)) (\<lambda>k. k \<le> key) (Some (k, p))" by (simp add: greatest_def dom_map_of_entries)
  then show ?thesis using False kp by (intro exI [of _ "Some (k, p)"]) (simp add: last_le_def Let_def)
qed

lemma first_ge_least:
  assumes "wf_ct t"
  shows "\<exists>hit. first_ge key (entries t) = map_option snd hit \<and> least (map_of (entries t)) (\<lambda>k. key \<le> k) hit"
proof (cases "filter (\<lambda>e. key \<le> fst e) (entries t) = []")
  case True
  then have "least (map_of (entries t)) (\<lambda>k. key \<le> k) None"
    by (auto simp: least_def dom_map_of_entries filter_empty_conv)
  then show ?thesis using True by (auto simp: first_ge_def)
next
  case False
  let ?xs = "filter (\<lambda>e. key \<le> fst e) (entries t)"
  obtain k p where kp: "hd ?xs = (k, p)" by (cases "hd ?xs")
  have "(k, p) \<in> set ?xs" using list.set_sel(1) [OF False] kp by simp
  then have "map_of (entries t) k = Some p" "key \<le> k" using map_of_entries [OF assms] by auto
  moreover have "k \<le> k'" if "k' \<in> fst ` set (entries t)" "key \<le> k'" for k'
  proof -
    have "\<exists>x\<in>set ?xs. fst x = k'" using that by auto
    then show ?thesis using sorted_hd_min [of ?xs] sorted_wrt_filter [OF entries_sorted [OF assms]] kp by auto
  qed
  ultimately have "least (map_of (entries t)) (\<lambda>k. key \<le> k) (Some (k, p))" by (simp add: least_def dom_map_of_entries)
  then show ?thesis using False kp by (intro exI [of _ "Some (k, p)"]) (simp add: first_ge_def Let_def)
qed

theorem critnib_find_le_ok:
  assumes ok: "crit_ok c vw" and ref: "cr_cb c \<noteq> None \<Longrightarrow> refp" and few: "few_removals c"
    and bound: "\<And>k. cr_cb c \<noteq> None \<Longrightarrow> k \<in> ran (cv_map vw) \<Longrightarrow> cv_refs vw k + 3 < 2 ^ 64"
  shows "\<exists>hit res ref c' vw'. critnib_find_le c key refp = Some (res, ref, c') \<and> unchanged_env c c' \<and> crit_ok c' vw' \<and>
    greatest (cv_map vw) (\<lambda>k. k \<le> key) hit \<and> query_result (cr_cb c \<noteq> None) (map_option snd hit) vw res ref vw'"
proof -
  obtain t ns ks where inv: "crit_inv c t ns ks [] []" and vw: "vw = view_of t (cr_leaves c)" using ok by (auto simp: crit_ok_def)
  note parts = crit_inv_parts [OF inv]
  obtain hit where hit: "last_le key (entries t) = map_option snd hit" "greatest (map_of (entries t)) (\<lambda>k. k \<le> key) hit"
    using last_le_greatest [OF parts(2)] by blast
  have "find_le (cr_nodes c) (cr_leaves c) key (cr_root c) = Some (map_option snd hit)"
    using find_le_ok [OF parts(3,2), of key] hit(1) parts(1) by simp
  then have f: "(case cr_root c of None \<Rightarrow> Some None | Some n \<Rightarrow> find_le (cr_nodes c) (cr_leaves c) key (Some n)) = Some (map_option snd hit)"
    by (cases "cr_root c") (simp_all add: find_le.simps)
  show ?thesis
  proof (cases hit)
    case None
    then have "critnib_find_le c key refp = Some (None, None, c)"
      using f ref by (auto simp: critnib_find_le_def retry_eq [OF few] take_ref_def)
    then show ?thesis using hit(2) ok None by (intro exI [of _ None] exI [of _ c] exI [of _ vw]) (simp add: query_result_def vw view_of_def)
  next
    case (Some x)
    obtain k p where x: "x = (k, p)" by (cases x)
    have "map_of (entries t) k = Some p" using hit(2) Some x by (simp add: greatest_def)
    then have kp: "(k, p) \<in> set (entries t)" "p \<in> ran (cv_map vw)" using map_of_entries [OF parts(2)] by (auto simp: vw view_of_def ran_def)
    then have p: "p \<in> set (leaf_ptrs t)" by (auto simp: leaf_ptrs_entries)
    obtain lf where lf: "cr_leaves c p = Some lf" using ct_rep_entry [OF parts(3) kp(1)] by blast
    have "critnib_find_le c key refp = take_ref (Some p) (k_value lf) c"
      using f ref Some x lf by (auto simp: critnib_find_le_def retry_eq [OF few])
    moreover have "greatest (cv_map vw) (\<lambda>k. k \<le> key) hit" using hit(2) by (simp add: vw view_of_def)
    moreover obtain res ref c' vw' where "take_ref (Some p) (k_value lf) c = Some (res, ref, c')" "unchanged_env c c'" "crit_ok c' vw'"
      "query_result (cr_cb c \<noteq> None) (Some p) vw res ref vw'"
      using take_ref_ok [OF inv p lf] bound kp(2) unfolding vw by blast
    ultimately show ?thesis using Some x by (intro exI [of _ hit]) auto
  qed
qed

text \<open>The searches in all directions.\<close>

definition nearest :: "find_dir_t \<Rightarrow> u64 \<Rightarrow> (u64 \<rightharpoonup> ptr) \<Rightarrow> (u64 \<times> ptr) option \<Rightarrow> bool" where
  "nearest dir key m hit \<longleftrightarrow>
     (case dir of
        FIND_L \<Rightarrow> greatest m (\<lambda>k. k < key) hit
      | FIND_LE \<Rightarrow> greatest m (\<lambda>k. k \<le> key) hit
      | FIND_EQ \<Rightarrow> hit = map_option (Pair key) (m key)
      | FIND_GE \<Rightarrow> least m (\<lambda>k. key \<le> k) hit
      | FIND_G \<Rightarrow> least m (\<lambda>k. key < k) hit)"

definition find_result ::
  "bool \<Rightarrow> (u64 \<times> ptr) option \<Rightarrow> 'v crit_view \<Rightarrow> int \<Rightarrow> (u64 \<times> 'v option) option \<Rightarrow> ref \<Rightarrow> 'v crit_view \<Rightarrow> bool" where
  "find_result cb hit vw e found ref vw' \<longleftrightarrow>
     (case hit of
        None \<Rightarrow> e = 0 \<and> found = None \<and> ref = None \<and> vw' = vw
      | Some (k, p) \<Rightarrow> e = 1 \<and> cv_val vw p \<noteq> None \<and> found = Some (k, cv_val vw p) \<and>
          (if cb then ref = Some p \<and> vw' = taken_view p vw else ref = None \<and> vw' = vw))"

lemma below_pred: "key \<noteq> 0 \<Longrightarrow> k \<le> key - 1 \<longleftrightarrow> k < (key :: u64)"
proof -
  assume "key \<noteq> 0"
  then have "unat (key - 1) = unat key - 1" "0 < unat key" by (simp_all add: unat_minus_one unat_gt_0)
  then show ?thesis by (auto simp: word_le_nat_alt word_less_nat_alt)
qed

lemma above_succ: "key \<noteq> - 1 \<Longrightarrow> key + 1 \<le> k \<longleftrightarrow> (key :: u64) < k"
proof -
  assume k: "key \<noteq> - 1"
  have "1 + key \<noteq> 0" using k by (metis add.commute add_eq_0_iff2)
  then have "unat (1 + key) = Suc (unat key)" by (rule unatSuc)
  then show ?thesis by (auto simp: word_le_nat_alt word_less_nat_alt add.commute)
qed

text \<open>The part of the search that looks for the leaf.\<close>

lemma find_leaf_ok:
  assumes inv: "crit_inv c t ns ks [] []" and key: "find_key dir key = Some key'" and eq: "dir = FIND_EQ \<Longrightarrow> key \<in> fst ` set (entries t)"
  shows "\<exists>hit. find_leaf c dir key' = Some (map_option snd hit) \<and> nearest dir key (map_of (entries t)) hit"
proof -
  note parts = crit_inv_parts [OF inv]
  have le: "\<exists>hit. find_le (cr_nodes c) (cr_leaves c) x (cr_root c) = Some (map_option snd hit) \<and> greatest (map_of (entries t)) (\<lambda>k. k \<le> x) hit" for x
    using find_le_ok [OF parts(3,2), of x] last_le_greatest [OF parts(2), of x] parts(1) by auto
  have ge: "\<exists>hit. find_ge (cr_nodes c) (cr_leaves c) x (cr_root c) = Some (map_option snd hit) \<and> least (map_of (entries t)) (\<lambda>k. x \<le> k) hit" for x
    using find_ge_ok [OF parts(3,2), of x] first_ge_least [OF parts(2), of x] parts(1) by auto
  show ?thesis
  proof (cases dir)
    case FIND_L
    then have "key \<noteq> 0" "key' = key - 1" using key by (simp_all add: find_key_def split: if_splits)
    then show ?thesis using le [of key'] FIND_L by (simp add: find_leaf_def nearest_def below_pred)
  next
    case FIND_LE
    then show ?thesis using le [of key'] key by (simp add: find_leaf_def nearest_def find_key_def)
  next
    case FIND_EQ
    then have k: "key' = key" using key by (simp add: find_key_def)
    obtain r where r: "get_walk (cr_nodes c) key (tag t) = Some r"
      "case r of None \<Rightarrow> key \<notin> fst ` set (entries t) | Some p \<Rightarrow> \<exists>k. (k, p) \<in> set (entries t) \<and> (key \<in> fst ` set (entries t) \<longrightarrow> k = key)"
      using get_walk_ok [OF parts(3,2)] by blast
    then obtain p where p: "r = Some p" "(key, p) \<in> set (entries t)" using eq [OF FIND_EQ] by (auto split: option.splits)
    obtain lf where "cr_leaves c p = Some lf" "k_key lf = key" using ct_rep_entry [OF parts(3) p(2)] by blast
    moreover have "map_of (entries t) key = Some p" using map_of_entries [OF parts(2)] p(2) by simp
    ultimately show ?thesis using r(1) p(1) k FIND_EQ parts(1)
      by (intro exI [of _ "Some (key, p)"]) (simp add: find_leaf_def nearest_def deref_def)
  next
    case FIND_GE
    then show ?thesis using ge [of key'] key by (simp add: find_leaf_def nearest_def find_key_def)
  next
    case FIND_G
    then have "key \<noteq> - 1" "key' = key + 1" using key by (simp_all add: find_key_def split: if_splits)
    then show ?thesis using ge [of key'] FIND_G by (simp add: find_leaf_def nearest_def above_succ)
  qed
qed

lemma nearest_none: "find_key dir key = None \<Longrightarrow> nearest dir key m None"
proof -
  assume "find_key dir key = None"
  then consider "dir = FIND_L" "key = 0" | "dir = FIND_G" "key = - 1" by (cases dir) (auto simp: find_key_def split: if_splits)
  then show ?thesis
  proof cases
    case 1
    then show ?thesis by (simp add: nearest_def greatest_def)
  next
    case 2
    have "\<not> (- 1 :: u64) < k" for k by (simp add: not_less)
    then show ?thesis using 2 by (simp add: nearest_def least_def)
  qed
qed

lemma nearest_in: "nearest dir key m (Some (k, p)) \<Longrightarrow> m k = Some p"
  by (cases dir) (auto simp: nearest_def greatest_def least_def map_option_case split: option.splits)

theorem critnib_find_ok:
  assumes ok: "crit_ok c vw" and ref: "cr_cb c \<noteq> None \<Longrightarrow> refp" and few: "few_removals c"
    and bound: "\<And>k. cr_cb c \<noteq> None \<Longrightarrow> k \<in> ran (cv_map vw) \<Longrightarrow> cv_refs vw k + 3 < 2 ^ 64"
    and eq: "dir = FIND_EQ \<Longrightarrow> key \<in> dom (cv_map vw)"
  shows "\<exists>hit e found ref c' vw'. critnib_find c key dir refp = Some (e, found, ref, c') \<and> unchanged_env c c' \<and> crit_ok c' vw' \<and>
    nearest dir key (cv_map vw) hit \<and> find_result (cr_cb c \<noteq> None) hit vw e found ref vw'"
proof -
  obtain t ns ks where inv: "crit_inv c t ns ks [] []" and vw: "vw = view_of t (cr_leaves c)" using ok by (auto simp: crit_ok_def)
  note parts = crit_inv_parts [OF inv]
  have miss: ?thesis if "critnib_find c key dir refp = Some (0, None, None, c)" "nearest dir key (cv_map vw) None"
    using that ok by (intro exI [of _ None] exI [of _ 0] exI [of _ c] exI [of _ vw]) (simp add: find_result_def)
  show ?thesis
  proof (cases "find_key dir key")
    case None
    then have "critnib_find c key dir refp = Some (0, None, None, c)" using ref by (auto simp: critnib_find_def)
    then show ?thesis using miss nearest_none [OF None] by blast
  next
    case (Some key')
    have "dir = FIND_EQ \<Longrightarrow> key \<in> fst ` set (entries t)" using eq by (simp add: vw view_of_def dom_map_of_entries)
    then obtain hit where hit: "find_leaf c dir key' = Some (map_option snd hit)" "nearest dir key (cv_map vw) hit"
      using find_leaf_ok [OF inv Some] by (auto simp: vw view_of_def)
    show ?thesis
    proof (cases hit)
      case None
      then have "critnib_find c key dir refp = Some (0, None, None, c)"
        using hit(1) ref Some by (auto simp: critnib_find_def retry_eq [OF few])
      then show ?thesis using miss hit(2) None by blast
    next
      case (Some x)
      obtain k p where x: "x = (k, p)" by (cases x)
      have m: "cv_map vw k = Some p" using hit(2) Some x nearest_in by blast
      then have kp: "(k, p) \<in> set (entries t)" "p \<in> ran (cv_map vw)" using map_of_entries [OF parts(2)] by (auto simp: vw view_of_def ran_def)
      then have p: "p \<in> set (leaf_ptrs t)" by (auto simp: leaf_ptrs_entries)
      obtain lf where lf: "cr_leaves c p = Some lf" "k_key lf = k" using ct_rep_entry [OF parts(3) kp(1)] by blast
      have "live_leaf (cr_cb c \<noteq> None) lf" using leaves_inv_parts(5) [OF parts(5) lf(1)] p by (simp add: leaf_class_def)
      then have val: "cv_val vw p = k_value lf" "k_value lf \<noteq> None" using p lf(1) by (simp_all add: vw view_of_def leaf_val_def live_leaf_def)
      show ?thesis
      proof (cases "cr_cb c = None")
        case True
        then have "critnib_find c key dir refp = Some (1, Some (k, k_value lf), None, c)"
          using hit(1) \<open>find_key dir key = Some key'\<close> Some x lf by (simp add: critnib_find_def retry_eq [OF few])
        then show ?thesis using hit(2) Some x val ok True by (intro exI [of _ hit] exI) (auto simp: find_result_def)
      next
        case False
        obtain c' where c': "increment_ref_count p c = Some (0, c')" "unchanged_env c c'" "crit_ok c' (taken_view p vw)"
          using take_in_tree [OF inv p False] bound [OF False kp(2)] unfolding vw by blast
        then have "critnib_find c key dir refp = Some (1, Some (k, k_value lf), Some p, c')"
          using hit(1) \<open>find_key dir key = Some key'\<close> Some x lf ref [OF False] by (simp add: critnib_find_def retry_eq [OF few] False)
        then show ?thesis using hit(2) Some x val c' False by (intro exI [of _ hit] exI) (auto simp: find_result_def)
      qed
    qed
  qed
qed

section \<open>Releasing a reference\<close>

text \<open>
  The last reference to a leaf that has been removed gives the value back; any other one
  only lowers the count.
\<close>

definition release_result :: "('s \<Rightarrow> 'v \<Rightarrow> 's) \<Rightarrow> ptr \<Rightarrow> 'v crit_view \<Rightarrow> 's \<Rightarrow> 'v crit_view \<Rightarrow> 's \<Rightarrow> bool" where
  "release_result cb k vw al vw' al' \<longleftrightarrow>
     (if k \<in> ran (cv_map vw) \<or> 1 < cv_refs vw k
      then al' = al \<and> vw' = vw\<lparr>cv_refs := (cv_refs vw)(k := cv_refs vw k - 1)\<rparr>
      else \<exists>v. cv_val vw k = Some v \<and> al' = cb al v \<and>
        vw' = vw\<lparr>cv_val := (cv_val vw)(k := None), cv_refs := (cv_refs vw)(k := 0)\<rparr>)"

text \<open>What a release leaves alone.\<close>

definition release_env :: "('v, 's) critnib \<Rightarrow> ('v, 's) critnib \<Rightarrow> bool" where
  "release_env c c' \<longleftrightarrow> cr_cb c' = cr_cb c \<and> cr_remove_count c' = cr_remove_count c \<and> cr_host c' = cr_host c"

text \<open>A leaf on which references are held is in the tree, in the ring, or waiting.\<close>

lemma held_refs:
  assumes inv: "crit_inv c t ns ks [] []" and cb: "cr_cb c \<noteq> None" and r: "0 < leaf_refs (leaf_ptrs t) (cr_leaves c) k"
  shows "\<exists>lf. cr_leaves c k = Some lf \<and> k \<notin> set ks \<and>
    (if k \<in> set (leaf_ptrs t) then live_leaf True lf \<and> leaf_refs (leaf_ptrs t) (cr_leaves c) k = unat (k_ref_count lf) - 2
     else removed_leaf lf \<and> k_pending lf = (Some k \<notin> set (cr_pending_leaves c)) \<and> leaf_refs (leaf_ptrs t) (cr_leaves c) k = unat (k_ref_count lf) - 1)"
proof -
  note lp = leaves_inv_parts [OF crit_inv_parts(5) [OF inv]]
  obtain lf where lf: "cr_leaves c k = Some lf" using r by (cases "cr_leaves c k") (auto simp: leaf_refs_def)
  have cl: "leaf_class True (leaf_ptrs t) ks (cr_pending_leaves c) [] k lf" using lp(5) [OF lf] cb by simp
  show ?thesis
  proof (cases "k \<in> set (leaf_ptrs t)")
    case True
    then have "k \<notin> set ks" using lp(3) by auto
    then show ?thesis using True cl lf by (simp add: leaf_class_def leaf_refs_def)
  next
    case False
    then have "k_to_be_freed lf \<noteq> None" using r lf by (auto simp: leaf_refs_def split: if_splits)
    then show ?thesis using False cl lf r
      by (auto simp: leaf_class_def leaf_refs_def idle_leaf_def ring_leaf_def held_leaf_def split: if_splits)
  qed
qed

lemma release_kept:
  assumes inv: "crit_inv c t ns ks [] []" and cb: "cr_cb c = Some cb" and vw: "vw = view_of t (cr_leaves c)"
    and r: "0 < cv_refs vw k" "k \<in> ran (cv_map vw) \<or> 1 < cv_refs vw k"
  shows "\<exists>c' vw'. critnib_release c (Some k) = Some (0, c') \<and> release_env c c' \<and> crit_ok c' vw' \<and> release_result cb k vw (cr_alloc c) vw' (cr_alloc c')"
proof -
  have refs: "cv_refs vw k = leaf_refs (leaf_ptrs t) (cr_leaves c) k" by (simp add: vw view_of_def)
  have ran: "ran (cv_map vw) = set (leaf_ptrs t)" using ran_map_of_entries [OF crit_inv_parts(2) [OF inv]] by (simp add: vw view_of_def)
  obtain lf where lf: "cr_leaves c k = Some lf" "k \<notin> set ks"
    "if k \<in> set (leaf_ptrs t) then live_leaf True lf \<and> leaf_refs (leaf_ptrs t) (cr_leaves c) k = unat (k_ref_count lf) - 2
     else removed_leaf lf \<and> k_pending lf = (Some k \<notin> set (cr_pending_leaves c)) \<and> leaf_refs (leaf_ptrs t) (cr_leaves c) k = unat (k_ref_count lf) - 1"
    using held_refs [OF inv, of k] cb r(1) unfolding refs by auto
  let ?r = "k_ref_count lf - 1"
  have big: "3 \<le> unat (k_ref_count lf)" using lf(3) r refs ran by (auto split: if_splits)
  then have nz: "k_ref_count lf \<noteq> 0" by auto
  have u: "unat ?r = unat (k_ref_count lf) - 1" using nz by (rule unat_minus_one)
  have v: "LEAF_VALID \<le> k_ref_count lf" "LEAF_VALID \<le> ?r" using big u by (simp_all add: LEAF_VALID_def word_le_nat_alt)
  let ?lf = "lf\<lparr>k_ref_count := ?r\<rparr>"
  let ?c = "c\<lparr>cr_leaves := (cr_leaves c)(k \<mapsto> ?lf)\<rparr>"
  have e: "critnib_release c (Some k) = Some (0, ?c)"
    using release_loop_eq [OF lf(1) v(1)] v(2) lf(1) cb by (simp add: critnib_release_def utils_atomic_load_acquire_u64_def)
  have "leaf_class (cr_cb c \<noteq> None) (leaf_ptrs t) ks (cr_pending_leaves c) [] k ?lf"
    using lf(2,3) v(2) cb by (auto simp: leaf_class_def live_leaf_def ring_leaf_def held_leaf_def removed_leaf_def split: if_splits)
  then have "crit_inv ?c t ns ks [] []" using lf by (intro crit_inv_set_leaf [OF inv]) auto
  moreover have "view_of t (cr_leaves ?c) = vw\<lparr>cv_refs := (cv_refs vw)(k := cv_refs vw k - 1)\<rparr>"
    using lf(1) u by (auto simp: vw view_of_def leaf_val_def leaf_refs_def fun_eq_iff)
  ultimately have "crit_ok ?c (vw\<lparr>cv_refs := (cv_refs vw)(k := cv_refs vw k - 1)\<rparr>)" unfolding crit_ok_def by metis
  then show ?thesis using e r(2) by (auto simp: release_env_def release_result_def)
qed

text \<open>The waiting leaf goes to the pool.\<close>

lemma leaves_inv_held:
  assumes inv: "leaves_inv cb h dl pl lp ks []" and k: "h k = Some lf" "k \<notin> set lp" "k \<notin> set ks" "Some k \<notin> set pl" and idle: "idle_leaf lf'"
  shows "leaves_inv cb (h(k \<mapsto> lf'\<lparr>k_next := dl\<rparr>)) (Some k) pl lp (k # ks) []"
proof -
  note parts = leaves_inv_parts [OF inv]
  let ?h = "h(k \<mapsto> lf'\<lparr>k_next := dl\<rparr>)"
  have "leaf_chain ?h dl ks" using parts(1) by (rule leaf_chain_frame) (use k in auto)
  then have ch: "leaf_chain ?h (Some k) (k # ks)" by simp
  have d: "distinct (lp @ (k # ks) @ somes pl @ [])" using parts(3) k by auto
  have sub: "set (lp @ (k # ks) @ somes pl @ []) \<subseteq> dom ?h" using parts(4) k(1) by auto
  have cl: "leaf_class cb lp (k # ks) pl [] k lf2" if "?h k = Some lf2" for lf2
    using that k idle by (auto simp: leaf_class_def idle_leaf_def)
  show ?thesis by (rule leaves_inv_move [OF inv ch parts(2) d sub _ cl]) simp
qed

lemma release_last:
  assumes inv: "crit_inv c t ns ks [] []" and cb: "cr_cb c = Some cb" and vw: "vw = view_of t (cr_leaves c)"
    and r: "0 < cv_refs vw k" "\<not> (k \<in> ran (cv_map vw) \<or> 1 < cv_refs vw k)"
  shows "\<exists>c' vw'. critnib_release c (Some k) = Some (0, c') \<and> release_env c c' \<and> crit_ok c' vw' \<and> release_result cb k vw (cr_alloc c) vw' (cr_alloc c')"
proof -
  note parts = crit_inv_parts [OF inv]
  have refs: "cv_refs vw k = leaf_refs (leaf_ptrs t) (cr_leaves c) k" by (simp add: vw view_of_def)
  have ran: "ran (cv_map vw) = set (leaf_ptrs t)" using ran_map_of_entries [OF parts(2)] by (simp add: vw view_of_def)
  have kt: "k \<notin> set (leaf_ptrs t)" using r(2) ran by simp
  obtain lf where lf: "cr_leaves c k = Some lf" "k \<notin> set ks" "removed_leaf lf" "k_pending lf = (Some k \<notin> set (cr_pending_leaves c))"
    "leaf_refs (leaf_ptrs t) (cr_leaves c) k = unat (k_ref_count lf) - 1"
    using held_refs [OF inv, of k] cb r(1) kt unfolding refs by auto
  obtain v where v: "k_to_be_freed lf = Some v" using lf(3) by (auto simp: removed_leaf_def)
  have two: "unat (k_ref_count lf) = 2" using lf(3,5) r refs by (auto simp: removed_leaf_def LEAF_VALID_def word_le_nat_alt)
  then have two': "k_ref_count lf = 2" by (simp add: word_unat_eq_iff)
  let ?lf = "lf\<lparr>k_to_be_freed := None, k_ref_count := 0\<rparr>"
  define c1 where "c1 = c\<lparr>cr_leaves := (cr_leaves c)(k \<mapsto> ?lf), cr_alloc := cb (cr_alloc c) v\<rparr>"
  let ?vw = "vw\<lparr>cv_val := (cv_val vw)(k := None), cv_refs := (cv_refs vw)(k := 0)\<rparr>"
  have vw1: "view_of t ((cr_leaves c)(k \<mapsto> lf')) = ?vw" if "k_to_be_freed lf' = None" for lf'
    using kt that by (auto simp: vw view_of_def leaf_val_def leaf_refs_def fun_eq_iff)
  have le: "\<not> (2 :: u64) \<le> 1" by (simp add: word_le_nat_alt)
  have e: "critnib_release c (Some k) =
      (if k_pending lf then
         Some (0, c1\<lparr>cr_leaves := (cr_leaves c)(k \<mapsto> ?lf\<lparr>k_pending := False, k_next := cr_deleted_leaf c\<rparr>), cr_deleted_leaf := Some k\<rparr>)
       else Some (0, c1))"
    using release_loop_eq [OF lf(1)] lf(1) cb v two' le
    by (simp add: critnib_release_def utils_atomic_load_acquire_u64_def LEAF_VALID_def upd_leaf_def add_to_deleted_leaf_list_eq c1_def)
  have res: "release_result cb k vw (cr_alloc c) ?vw (cb (cr_alloc c) v)"
    using r(2) kt lf(1) v by (auto simp: release_result_def vw view_of_def leaf_val_def)
  show ?thesis
  proof (cases "k_pending lf")
    case True
    let ?lf2 = "?lf\<lparr>k_pending := False, k_next := cr_deleted_leaf c\<rparr>"
    let ?c = "c1\<lparr>cr_leaves := (cr_leaves c)(k \<mapsto> ?lf2), cr_deleted_leaf := Some k\<rparr>"
    have "leaves_inv (cr_cb c \<noteq> None) ((cr_leaves c)(k \<mapsto> ?lf2)) (Some k) (cr_pending_leaves c) (leaf_ptrs t) (k # ks) []"
      using leaves_inv_held [OF parts(5) lf(1) kt lf(2), of "?lf\<lparr>k_pending := False\<rparr>"] lf(4) True by (simp add: idle_leaf_def)
    moreover have "ct_rep (cr_nodes c) ((cr_leaves c)(k \<mapsto> ?lf2)) t" using parts(3) by (rule ct_rep_frame) (use kt in auto)
    moreover have "dom ((cr_leaves c)(k \<mapsto> ?lf2)) = dom (cr_leaves c)" using lf(1) by auto
    ultimately have "crit_inv ?c t ns (k # ks) [] []" by (intro crit_invI) (use parts in \<open>simp_all add: c1_def\<close>)
    moreover have "view_of t (cr_leaves ?c) = ?vw" using vw1 [of ?lf2] by simp
    ultimately have "crit_ok ?c ?vw" unfolding crit_ok_def by metis
    then show ?thesis using e True res by (auto simp: release_env_def c1_def)
  next
    case False
    have "leaf_class (cr_cb c \<noteq> None) (leaf_ptrs t) ks (cr_pending_leaves c) [] k ?lf"
      using False lf kt cb by (auto simp: leaf_class_def ring_leaf_def idle_leaf_def removed_leaf_def)
    then have "crit_inv (c\<lparr>cr_leaves := (cr_leaves c)(k \<mapsto> ?lf)\<rparr>) t ns ks [] []" using lf by (intro crit_inv_set_leaf [OF inv]) auto
    then have "crit_inv c1 t ns ks [] []" unfolding crit_inv_def c1_def by simp
    moreover have "view_of t (cr_leaves c1) = ?vw" using vw1 [of ?lf] by (simp add: c1_def)
    ultimately have "crit_ok c1 ?vw" unfolding crit_ok_def by metis
    then show ?thesis using e False res by (auto simp: release_env_def c1_def)
  qed
qed

theorem critnib_release_ok:
  assumes "crit_ok c vw" "cr_cb c = Some cb" "0 < cv_refs vw k"
  shows "\<exists>c' vw'. critnib_release c (Some k) = Some (0, c') \<and> release_env c c' \<and> crit_ok c' vw' \<and> release_result cb k vw (cr_alloc c) vw' (cr_alloc c')"
proof -
  obtain t ns ks where inv: "crit_inv c t ns ks [] []" and vw: "vw = view_of t (cr_leaves c)" using assms(1) by (auto simp: crit_ok_def)
  show ?thesis
    using release_kept [OF inv assms(2) vw assms(3)] release_last [OF inv assms(2) vw assms(3)] by blast
qed

end
