(* ===== verification/Critnib_Delete.thy ===== *)
theory Critnib_Delete
  imports Critnib_Refs
begin

text \<open>
  The depth of critnib trees, the destruction of a critnib, and its iteration.
\<close>

section \<open>Depth\<close>

text \<open>A recursion of depth \<open>d\<close> reaches every part of the tree.\<close>

fun fits :: "nat \<Rightarrow> ct \<Rightarrow> bool" where
  "fits d CE \<longleftrightarrow> True"
| "fits d (CL p k) \<longleftrightarrow> 0 < d"
| "fits d (CN p path sh cs) \<longleftrightarrow> 0 < d \<and> (\<forall>t\<in>set cs. fits (d - 1) t)"

lemma fits_mono: "fits d t \<Longrightarrow> d \<le> d' \<Longrightarrow> fits d' t"
  by (induction d t arbitrary: d' rule: fits.induct) (auto intro: diff_le_mono)

lemma two_children:
  assumes "2 \<le> length (filter P xs)"
  obtains i j where "i < j" "j < length xs" "P (xs ! i)" "P (xs ! j)"
proof -
  define ix where "ix = filter (\<lambda>i. P (xs ! i)) [0..<length xs]"
  have "length ix = length (filter P xs)" unfolding ix_def using arg_cong [OF filter_nth, of length P xs] by simp
  then have l: "1 < length ix" using assms by simp
  have "sorted_wrt (<) ix" unfolding ix_def by (rule sorted_wrt_filter) simp
  then have "ix ! 0 < ix ! 1" using l by (simp add: sorted_wrt_iff_nth_less)
  moreover have "ix ! 0 \<in> set ix" by (rule nth_mem) (use l in linarith)
  moreover have "ix ! 1 \<in> set ix" by (rule nth_mem [OF l])
  ultimately show thesis using that [of "ix ! 0" "ix ! 1"] unfolding ix_def by auto
qed

text \<open>Every node parts two of its keys.\<close>

lemma parted_keys:
  assumes w: "wf_ct (CN p path sh cs)"
  obtains x y where "x \<in> fst ` set (entries (CN p path sh cs))" "y \<in> fst ` set (entries (CN p path sh cs))" "slice_index x sh < slice_index y sh"
proof -
  have two: "2 \<le> length (filter (\<lambda>t. t \<noteq> CE) cs)" and len: "length cs = 16" using w by simp_all
  obtain a b where ab: "a < b" "b < 16" "cs ! a \<noteq> CE" "cs ! b \<noteq> CE" using two_children [OF two] len by metis
  have key: "\<exists>k. k \<in> fst ` set (entries (CN p path sh cs)) \<and> slice_index k sh = j" if j: "j < 16" "cs ! j \<noteq> CE" for j
  proof -
    have "entries (cs ! j) \<noteq> []" using entries_nonempty [OF wf_ct_child(1) [OF w j(1)] j(2)] .
    then obtain e where e: "e \<in> set (entries (cs ! j))" by (cases "entries (cs ! j)") auto
    moreover have "cs ! j \<in> set cs" using j(1) len by auto
    moreover have "slice_index (fst e) sh = j" using wf_ct_child(2) [OF w j(1), of "fst e"] e by auto
    ultimately show ?thesis by (intro exI [of _ "fst e"]) auto
  qed
  obtain x y where xy: "x \<in> fst ` set (entries (CN p path sh cs))" "slice_index x sh = a"
    "y \<in> fst ` set (entries (CN p path sh cs))" "slice_index y sh = b"
    using key [of a] key [of b] ab by auto
  show thesis by (rule that [OF xy(1,3)]) (simp add: xy ab(1))
qed

text \<open>The shifts fall along a path.\<close>

lemma child_shift:
  assumes w: "wf_ct (CN p path sh cs)" and c: "CN q path' sh' cs' \<in> set cs"
  shows "sh' + 4 \<le> sh"
proof -
  obtain i where i: "i < 16" "cs ! i = CN q path' sh' cs'" using w c by (auto simp: in_set_conv_nth)
  have w': "wf_ct (CN q path' sh' cs')" using wf_ct_child(1) [OF w i(1)] i(2) by simp
  obtain x y where x: "x \<in> fst ` set (entries (cs ! i))" and y: "y \<in> fst ` set (entries (cs ! i))" and xy: "slice_index x sh' < slice_index y sh'"
    using parted_keys [OF w'] i(2) by metis
  have "unat x div 2 ^ sh = unat y div 2 ^ sh"
    using wf_ct_child(2) [OF w i(1) x] wf_ct_child(2) [OF w i(1) y] by (simp add: digit_split)
  then have "\<not> sh \<le> sh'"
  proof (intro notI)
    assume "sh \<le> sh'"
    then have "unat k div 2 ^ sh' = unat k div 2 ^ sh div 2 ^ (sh' - sh)" for k :: u64
      by (simp add: div_mult2_eq [symmetric] flip: power_add)
    then have "slice_index x sh' = slice_index y sh'" using \<open>unat x div 2 ^ sh = unat y div 2 ^ sh\<close> by (simp add: slice_index_div)
    then show False using xy by simp
  qed
  moreover have "sh mod 4 = 0" "sh' mod 4 = 0" using w w' by auto
  ultimately show ?thesis by presburger
qed

lemma wf_fits: "wf_ct t \<Longrightarrow> (\<And>p path sh cs. t = CN p path sh cs \<Longrightarrow> sh div 4 + 2 \<le> d) \<Longrightarrow> 0 < d \<Longrightarrow> fits d t"
proof (induction d t rule: fits.induct)
  case (3 d p path sh cs)
  have "fits (d - 1) t" if t: "t \<in> set cs" for t
  proof (rule "3.IH" [OF t])
    show "wf_ct t" using 3(2) t by auto
    show "sh' div 4 + 2 \<le> d - 1" if "t = CN q path' sh' cs'" for q path' sh' cs'
    proof -
      have "sh' + 4 \<le> sh" using child_shift [OF 3(2)] t that by blast
      then have "sh' div 4 + 1 \<le> sh div 4" by presburger
      then show ?thesis using 3(3) [OF refl] by linarith
    qed
    show "0 < d - 1" using 3(3) [OF refl] by linarith
  qed
  then show ?case using 3(4) by simp
qed auto

lemma wf_fits_17: "wf_ct t \<Longrightarrow> fits 17 t"
proof (rule wf_fits)
  show "sh div 4 + 2 \<le> 17" if "wf_ct t" "t = CN p path sh cs" for p path sh cs
  proof -
    have "sh \<le> 60" using that by simp
    then show ?thesis by presburger
  qed
qed auto

section \<open>Destruction\<close>

text \<open>The values that are handed to the callback when the leaves are freed.\<close>

definition give_back :: "('s \<Rightarrow> 'v \<Rightarrow> 's) option \<Rightarrow> 'v critnib_leaf list \<Rightarrow> 's \<Rightarrow> 's" where
  "give_back cb lfs al =
     foldl (\<lambda>al lf. case cb of
        None \<Rightarrow> al
      | Some f \<Rightarrow> (case k_value lf of Some v \<Rightarrow> f al v | None \<Rightarrow> (case k_to_be_freed lf of Some v \<Rightarrow> f al v | None \<Rightarrow> al))) al lfs"

definition drop_parts :: "ptr list \<Rightarrow> ptr list \<Rightarrow> ('v, 's) critnib \<Rightarrow> ('v, 's) critnib" where
  "drop_parts ns ls c =
     c\<lparr>cr_nodes := cr_nodes c |` (- set ns), cr_leaves := cr_leaves c |` (- set ls),
       cr_alloc := give_back (cr_cb c) (map (\<lambda>p. the (cr_leaves c p)) ls) (cr_alloc c)\<rparr>"

lemma restrict_map_UNIV [simp]: "m |` UNIV = m"
  by (simp add: restrict_map_def)

lemma drop_parts_append:
  "set ls \<inter> set ls' = {} \<Longrightarrow> drop_parts ns' ls' (drop_parts ns ls c) = drop_parts (ns @ ns') (ls @ ls') c"
proof -
  assume d: "set ls \<inter> set ls' = {}"
  then have e: "map (\<lambda>p. the ((cr_leaves c |` (- set ls)) p)) ls' = map (\<lambda>p. the (cr_leaves c p)) ls'"
    by (auto simp: restrict_map_def)
  show ?thesis by (simp add: drop_parts_def give_back_def Int_commute e del: map_eq_conv)
qed

lemma drop_parts_nil [simp]: "drop_parts [] [] c = c"
  by (simp add: drop_parts_def give_back_def)

lemma drop_parts_cong: "set ns = set ns' \<Longrightarrow> drop_parts ns ls c = drop_parts ns' ls c"
  by (simp add: drop_parts_def)

lemma drop_node: "cr_nodes c a \<noteq> None \<Longrightarrow> ba_free_node (Some a) c = Some (drop_parts [a] [] c)"
proof -
  have "m(a := None) = m |` (- {a})" for m :: "critnib_node heap" by (auto simp: restrict_map_def fun_eq_iff)
  then show "cr_nodes c a \<noteq> None \<Longrightarrow> ba_free_node (Some a) c = Some (drop_parts [a] [] c)"
    by (auto simp: ba_free_node_def drop_parts_def give_back_def)
qed

lemma drop_leaf: "cr_leaves c k = Some lf \<Longrightarrow> ba_free_leaf (Some k) (free_value lf c) = Some (drop_parts [] [k] c)"
proof -
  assume k: "cr_leaves c k = Some lf"
  have "m(k := None) = m |` (- {k})" for m :: "'a critnib_leaf heap" by (auto simp: restrict_map_def fun_eq_iff)
  then show ?thesis using k
    by (auto simp: ba_free_leaf_def free_value_def drop_parts_def give_back_def split: option.splits)
qed

lemma ct_rep_drop:
  "ct_rep (cr_nodes c) (cr_leaves c) t \<Longrightarrow> set (node_ptrs t) \<inter> set ns = {} \<Longrightarrow> set (leaf_ptrs t) \<inter> set ls = {} \<Longrightarrow>
   ct_rep (cr_nodes (drop_parts ns ls c)) (cr_leaves (drop_parts ns ls c)) t"
  by (erule ct_rep_frame) (auto simp: drop_parts_def restrict_map_def)

lemma delete_children:
  fixes c :: "('v, 's) critnib"
  assumes "\<And>t (c :: ('v, 's) critnib) n. t \<in> set cs \<Longrightarrow> ct_rep (cr_nodes c) (cr_leaves c) t \<Longrightarrow> tag t = Some n \<Longrightarrow>
      delete_node d n c = Some (drop_parts (node_ptrs t) (leaf_ptrs t) c)"
    "\<forall>t\<in>set cs. ct_rep (cr_nodes c) (cr_leaves c) t" "distinct (concat (map node_ptrs cs))" "distinct (concat (map leaf_ptrs cs))"
  shows "fold_opt (\<lambda>ch c. case ch of None \<Rightarrow> Some c | Some m \<Rightarrow> delete_node d m c) (map tag cs) c =
    Some (drop_parts (concat (map node_ptrs cs)) (concat (map leaf_ptrs cs)) c)"
  using assms
proof (induction cs arbitrary: c)
  case (Cons t cs)
  let ?c = "drop_parts (node_ptrs t) (leaf_ptrs t) c"
  have one: "(case tag t of None \<Rightarrow> Some c | Some m \<Rightarrow> delete_node d m c) = Some ?c"
    using Cons.prems(1) [of t c] Cons.prems(2) by (cases t) auto
  have d: "set (node_ptrs t) \<inter> set (concat (map node_ptrs cs)) = {}" "set (leaf_ptrs t) \<inter> set (concat (map leaf_ptrs cs)) = {}"
    using Cons.prems(3,4) by auto
  have "fold_opt (\<lambda>ch c. case ch of None \<Rightarrow> Some c | Some m \<Rightarrow> delete_node d m c) (map tag cs) ?c =
      Some (drop_parts (concat (map node_ptrs cs)) (concat (map leaf_ptrs cs)) ?c)"
  proof (rule Cons.IH)
    show "\<forall>t'\<in>set cs. ct_rep (cr_nodes ?c) (cr_leaves ?c) t'"
      using Cons.prems(2) d by (intro ballI ct_rep_drop) auto
  qed (use Cons.prems in auto)
  then show ?case using one drop_parts_append [OF d(2)] by simp
qed simp

lemma delete_node_ok:
  "ct_rep (cr_nodes c) (cr_leaves c) t \<Longrightarrow> distinct (node_ptrs t) \<Longrightarrow> distinct (leaf_ptrs t) \<Longrightarrow> fits d t \<Longrightarrow> tag t = Some n \<Longrightarrow>
   delete_node d n (c :: ('v, 's) critnib) = Some (drop_parts (node_ptrs t) (leaf_ptrs t) c)"
proof (induction d t arbitrary: c n rule: fits.induct)
  case (2 d p k)
  then obtain d' lf where "d = Suc d'" "cr_leaves c p = Some lf" by (cases d) auto
  then show ?case using 2 drop_leaf [of c p lf] by auto
next
  case (3 d p path sh cs)
  obtain d' where d: "d = Suc d'" "\<forall>t\<in>set cs. fits d' t" using 3(5) by (cases d) auto
  have dn: "\<forall>t\<in>set cs. distinct (node_ptrs t)" "\<forall>t\<in>set cs. distinct (leaf_ptrs t)"
    using 3(3,4) by (auto simp: distinct_concat_iff)
  have nd: "cr_nodes c p = Some \<lparr>n_child = map tag cs, n_path = path, n_shift = sh\<rparr>" using 3(2) by simp
  let ?c = "drop_parts (concat (map node_ptrs cs)) (concat (map leaf_ptrs cs)) c"
  have "fold_opt (\<lambda>ch c. case ch of None \<Rightarrow> Some c | Some m \<Rightarrow> delete_node d' m c) (map tag cs) c = Some ?c"
  proof (rule delete_children)
    fix t n and c :: "('v, 's) critnib"
    assume "t \<in> set cs" "ct_rep (cr_nodes c) (cr_leaves c) t" "tag t = Some n"
    then show "delete_node d' n c = Some (drop_parts (node_ptrs t) (leaf_ptrs t) c)" using 3(1) [of t c n] d dn by simp
  qed (use 3 in auto)
  moreover have "cr_nodes ?c p \<noteq> None" using nd 3(3) by (simp add: drop_parts_def restrict_map_def)
  ultimately have "delete_node d n c = Some (drop_parts [p] [] ?c)" using 3(6) d(1) nd drop_node [of ?c p] by auto
  also have "drop_parts [p] [] ?c = drop_parts (concat (map node_ptrs cs) @ [p]) (concat (map leaf_ptrs cs)) c"
    using drop_parts_append [of "concat (map leaf_ptrs cs)" "[]" "[p]"] by simp
  also have "\<dots> = drop_parts (node_ptrs (CN p path sh cs)) (leaf_ptrs (CN p path sh cs)) c" by (simp add: drop_parts_def)
  finally show ?case .
qed simp

text \<open>The pools and the ring hold no values.\<close>

lemma delete_node_pool_ok:
  "node_chain (cr_nodes c) r ns \<Longrightarrow> distinct ns \<Longrightarrow> delete_node_pool r c = Some (c\<lparr>cr_nodes := cr_nodes c |` (- set ns)\<rparr>)"
proof (induction ns arbitrary: r c)
  case (Cons a ns)
  obtain nd r' where nd: "r = Some a" "cr_nodes c a = Some nd" "n_child nd ! 0 = map_option Node_Ptr r'" "node_chain (cr_nodes c) r' ns"
    using Cons.prems by auto
  let ?c = "c\<lparr>cr_nodes := cr_nodes c |` (- {a})\<rparr>"
  have m: "(cr_nodes c)(a := None) = cr_nodes c |` (- {a})" by (auto simp: restrict_map_def fun_eq_iff)
  have "node_chain (cr_nodes ?c) r' ns" using nd(4) by (rule node_chain_frame) (use Cons.prems(2) in \<open>auto simp: restrict_map_def\<close>)
  then have "delete_node_pool r' ?c = Some (?c\<lparr>cr_nodes := cr_nodes ?c |` (- set ns)\<rparr>)" using Cons by simp
  moreover have "delete_node_pool r c = delete_node_pool r' ?c"
    using nd m by (subst delete_node_pool.simps) (cases r'; simp add: ba_free_node_def)
  moreover have "- {a} \<inter> - set ns = - set (a # ns)" by auto
  ultimately show ?case by simp
qed (simp add: delete_node_pool.simps)

lemma delete_leaf_pool_ok:
  "leaf_chain (cr_leaves c) r ks \<Longrightarrow> distinct ks \<Longrightarrow> delete_leaf_pool r c = Some (c\<lparr>cr_leaves := cr_leaves c |` (- set ks)\<rparr>)"
proof (induction ks arbitrary: r c)
  case (Cons a ks)
  obtain lf where lf: "r = Some a" "cr_leaves c a = Some lf" "leaf_chain (cr_leaves c) (k_next lf) ks" using Cons.prems by auto
  let ?c = "c\<lparr>cr_leaves := cr_leaves c |` (- {a})\<rparr>"
  have m: "(cr_leaves c)(a := None) = cr_leaves c |` (- {a})" by (auto simp: restrict_map_def fun_eq_iff)
  have "leaf_chain (cr_leaves ?c) (k_next lf) ks" using lf(3) by (rule leaf_chain_frame) (use Cons.prems(2) in \<open>auto simp: restrict_map_def\<close>)
  then have "delete_leaf_pool (k_next lf) ?c = Some (?c\<lparr>cr_leaves := cr_leaves ?c |` (- set ks)\<rparr>)" using Cons by simp
  moreover have "delete_leaf_pool r c = delete_leaf_pool (k_next lf) ?c"
    using lf m by (subst delete_leaf_pool.simps) (simp add: ba_free_leaf_def)
  moreover have "- {a} \<inter> - set ks = - set (a # ks)" by auto
  ultimately show ?case by simp
qed (simp add: delete_leaf_pool.simps)

definition without :: "ptr list \<Rightarrow> ptr list \<Rightarrow> ('v, 's) critnib \<Rightarrow> ('v, 's) critnib" where
  "without ns ls c = c\<lparr>cr_nodes := cr_nodes c |` (- set ns), cr_leaves := cr_leaves c |` (- set ls)\<rparr>"

lemma without_append: "without ns' ls' (without ns ls c) = without (ns @ ns') (ls @ ls') c"
  by (simp add: without_def Int_commute)

lemma without_nil [simp]: "without [] [] c = c"
  by (simp add: without_def)

lemma delete_pending_one:
  assumes "\<And>a. cr_pending_nodes c ! i = Some a \<Longrightarrow> cr_nodes c a \<noteq> None"
    "\<And>k. cr_pending_leaves c ! i = Some k \<Longrightarrow> \<exists>lf. cr_leaves c k = Some lf \<and> (cr_cb c \<noteq> None \<longrightarrow> k_value lf = None \<and> k_to_be_freed lf = None)"
  shows "delete_pending i c = Some (without (somes [cr_pending_nodes c ! i]) (somes [cr_pending_leaves c ! i]) c)"
proof -
  have mn: "m(a := None) = m |` (- {a})" for m :: "critnib_node heap" and a by (auto simp: restrict_map_def fun_eq_iff)
  have ml: "m(a := None) = m |` (- {a})" for m :: "'a critnib_leaf heap" and a by (auto simp: restrict_map_def fun_eq_iff)
  have n: "ba_free_node (cr_pending_nodes c ! i) c = Some (without (somes [cr_pending_nodes c ! i]) [] c)"
    using assms(1) by (cases "cr_pending_nodes c ! i") (auto simp: ba_free_node_def without_def mn)
  have l: "(do { c2 \<leftarrow> (case cr_pending_leaves c1 ! i of None \<Rightarrow> Some c1 | Some k \<Rightarrow> do { lf \<leftarrow> cr_leaves c1 k; Some (free_value lf c1) });
      ba_free_leaf (cr_pending_leaves c2 ! i) c2 }) = Some (without [] (somes [cr_pending_leaves c ! i]) c1)"
    if "c1 = without xs [] c" for c1 xs
    using assms(2) that
    by (cases "cr_pending_leaves c ! i") (fastforce simp: ba_free_leaf_def free_value_def without_def ml split: option.splits)+
  show ?thesis unfolding delete_pending_def n by (simp add: l without_append)
qed

lemma delete_pending_all:
  assumes "\<And>i a. i \<in> set is' \<Longrightarrow> cr_pending_nodes c ! i = Some a \<Longrightarrow> cr_nodes c a \<noteq> None"
    "\<And>i k. i \<in> set is' \<Longrightarrow> cr_pending_leaves c ! i = Some k \<Longrightarrow>
      \<exists>lf. cr_leaves c k = Some lf \<and> (cr_cb c \<noteq> None \<longrightarrow> k_value lf = None \<and> k_to_be_freed lf = None)"
    "distinct (somes (map ((!) (cr_pending_nodes c)) is'))" "distinct (somes (map ((!) (cr_pending_leaves c)) is'))"
  shows "fold_opt delete_pending is' c =
    Some (without (somes (map ((!) (cr_pending_nodes c)) is')) (somes (map ((!) (cr_pending_leaves c)) is')) c)"
  using assms
proof (induction is' arbitrary: c)
  case (Cons i is')
  let ?n = "somes [cr_pending_nodes c ! i]" and ?l = "somes [cr_pending_leaves c ! i]"
  let ?c = "without ?n ?l c"
  have one: "delete_pending i c = Some ?c" by (rule delete_pending_one) (use Cons.prems(1,2) [of i] in simp_all)
  have p: "cr_pending_nodes ?c = cr_pending_nodes c" "cr_pending_leaves ?c = cr_pending_leaves c" by (simp_all add: without_def)
  have sn: "somes (map ((!) (cr_pending_nodes c)) (i # is')) = ?n @ somes (map ((!) (cr_pending_nodes c)) is')"
    by (cases "cr_pending_nodes c ! i") simp_all
  have sl: "somes (map ((!) (cr_pending_leaves c)) (i # is')) = ?l @ somes (map ((!) (cr_pending_leaves c)) is')"
    by (cases "cr_pending_leaves c ! i") simp_all
  have dn: "a \<notin> set ?n" if "j \<in> set is'" "cr_pending_nodes c ! j = Some a" for j a
  proof -
    have "Some a \<in> set (map ((!) (cr_pending_nodes c)) is')" using that by force
    then have "a \<in> set (somes (map ((!) (cr_pending_nodes c)) is'))" by simp
    then show ?thesis using Cons.prems(3) unfolding sn distinct_append by blast
  qed
  have dl: "k \<notin> set ?l" if "j \<in> set is'" "cr_pending_leaves c ! j = Some k" for j k
  proof -
    have "Some k \<in> set (map ((!) (cr_pending_leaves c)) is')" using that by force
    then have "k \<in> set (somes (map ((!) (cr_pending_leaves c)) is'))" by simp
    then show ?thesis using Cons.prems(4) unfolding sl distinct_append by blast
  qed
  have "fold_opt delete_pending is' ?c =
      Some (without (somes (map ((!) (cr_pending_nodes ?c)) is')) (somes (map ((!) (cr_pending_leaves ?c)) is')) ?c)"
  proof (rule Cons.IH)
    show "cr_nodes ?c a \<noteq> None" if "j \<in> set is'" "cr_pending_nodes ?c ! j = Some a" for j a
      using Cons.prems(1) [of j a] dn [of j a] that by (simp add: without_def restrict_map_def)
    show "\<exists>lf. cr_leaves ?c k = Some lf \<and> (cr_cb ?c \<noteq> None \<longrightarrow> k_value lf = None \<and> k_to_be_freed lf = None)"
      if "j \<in> set is'" "cr_pending_leaves ?c ! j = Some k" for j k
      using Cons.prems(2) [of j k] dl [of j k] that by (simp add: without_def restrict_map_def)
    show "distinct (somes (map ((!) (cr_pending_nodes ?c)) is'))" "distinct (somes (map ((!) (cr_pending_leaves ?c)) is'))"
      using Cons.prems(3,4) unfolding p sn sl distinct_append by blast+
  qed
  then show ?case unfolding fold_opt.simps one bind.bind_lunit sn sl p without_append .
qed simp

lemma map_nth_16: "length xs = 16 \<Longrightarrow> map ((!) xs) [0..<16] = xs"
  using map_nth [of xs] by simp

lemma restrict_dom_empty: "dom m \<subseteq> S \<Longrightarrow> m |` (- S) = Map.empty"
  by (auto simp: restrict_map_def fun_eq_iff)

lemma no_refs_ring:
  assumes inv: "crit_inv c t ns ks [] []" and none: "\<And>p. cv_refs (view_of t (cr_leaves c)) p = 0" and lf: "cr_leaves c k = Some lf"
  shows "k \<in> set (leaf_ptrs t) \<or> k \<in> set ks \<or> Some k \<in> set (cr_pending_leaves c)"
    "k \<notin> set (leaf_ptrs t) \<Longrightarrow> Some k \<in> set (cr_pending_leaves c) \<Longrightarrow> cr_cb c \<noteq> None \<Longrightarrow> k_value lf = None \<and> k_to_be_freed lf = None"
proof -
  note lp = leaves_inv_parts [OF crit_inv_parts(5) [OF inv]]
  have cl: "leaf_class (cr_cb c \<noteq> None) (leaf_ptrs t) ks (cr_pending_leaves c) [] k lf" using lp(5) [OF lf] .
  have nr: "\<not> removed_leaf lf" if "k \<notin> set (leaf_ptrs t)"
  proof
    assume r: "removed_leaf lf"
    then have "2 \<le> unat (k_ref_count lf)" by (simp add: removed_leaf_def LEAF_VALID_def word_le_nat_alt)
    then show False using none [of k] r that lf by (auto simp: view_of_def leaf_refs_def removed_leaf_def)
  qed
  show "k \<in> set (leaf_ptrs t) \<or> k \<in> set ks \<or> Some k \<in> set (cr_pending_leaves c)"
    using cl nr by (auto simp: leaf_class_def held_leaf_def split: if_splits)
  assume a: "k \<notin> set (leaf_ptrs t)" "Some k \<in> set (cr_pending_leaves c)" "cr_cb c \<noteq> None"
  then have "k \<notin> set ks" using lp(3) by auto
  then show "k_value lf = None \<and> k_to_be_freed lf = None"
    using cl nr a by (auto simp: leaf_class_def ring_leaf_def idle_leaf_def)
qed

lemma entries_view:
  assumes "wf_ct t"
  shows "map fst (entries t) = sorted_list_of_set (dom (map_of (entries t)))"
    "map snd (entries t) = map (\<lambda>k. the (map_of (entries t) k)) (map fst (entries t))"
proof -
  have so: "sorted_wrt (<) (map fst (entries t))" using entries_sorted [OF assms] by (simp add: sorted_wrt_map)
  then have d: "distinct (map fst (entries t))" and "sorted (map fst (entries t))" by (simp_all add: strict_sorted_iff)
  then show "map fst (entries t) = sorted_list_of_set (dom (map_of (entries t)))"
    by (simp add: dom_map_of_conv_image_fst sorted_list_of_set.idem_if_sorted_distinct flip: set_map)
  show "map snd (entries t) = map (\<lambda>k. the (map_of (entries t) k)) (map fst (entries t))"
    using d by (auto intro!: map_cong)
qed

text \<open>The values of a view in the order of their keys.\<close>

definition view_values :: "'v crit_view \<Rightarrow> 'v list" where
  "view_values vw = map (\<lambda>k. the (cv_val vw (the (cv_map vw k)))) (sorted_list_of_set (dom (cv_map vw)))"

lemma give_back_tree:
  assumes inv: "crit_inv c t ns ks [] []"
  shows "give_back (cr_cb c) (map (\<lambda>p. the (cr_leaves c p)) (leaf_ptrs t)) al =
    (case cr_cb c of None \<Rightarrow> al | Some cb \<Rightarrow> foldl cb al (view_values (view_of t (cr_leaves c))))"
proof (cases "cr_cb c")
  case None
  have "foldl (\<lambda>al x. al) al xs = al" for xs :: "'a critnib_leaf list" by (induction xs) auto
  then show ?thesis using None by (simp add: give_back_def)
next
  case (Some cb)
  note lp = leaves_inv_parts [OF crit_inv_parts(5) [OF inv]]
  have v: "k_value (the (cr_leaves c p)) = leaf_val (leaf_ptrs t) (cr_leaves c) p \<and> leaf_val (leaf_ptrs t) (cr_leaves c) p \<noteq> None"
    if p: "p \<in> set (leaf_ptrs t)" for p
  proof -
    obtain lf where lf: "cr_leaves c p = Some lf" using lp(4) p by auto
    then show ?thesis using lp(5) [OF lf] p by (auto simp: leaf_class_def live_leaf_def leaf_val_def)
  qed
  have "give_back (Some cb) (map (\<lambda>p. the (cr_leaves c p)) ps) al = foldl cb al (map (\<lambda>p. the (leaf_val (leaf_ptrs t) (cr_leaves c) p)) ps)"
    if "set ps \<subseteq> set (leaf_ptrs t)" for ps
    using that
  proof (induction ps arbitrary: al)
    case (Cons p ps)
    then show ?case using v [of p] by (auto simp: give_back_def)
  qed (simp add: give_back_def)
  moreover have "leaf_ptrs t = map (\<lambda>k. the (map_of (entries t) k)) (sorted_list_of_set (dom (map_of (entries t))))"
    using entries_view [OF crit_inv_parts(2) [OF inv]] by (metis leaf_ptrs_def)
  then have "view_values (view_of t (cr_leaves c)) = map (\<lambda>p. the (leaf_val (leaf_ptrs t) (cr_leaves c) p)) (leaf_ptrs t)"
    unfolding view_values_def view_of_def crit_view.select_convs
    by (metis (no_types, lifting) map_map comp_apply map_cong)
  ultimately show ?thesis using Some by simp
qed

theorem critnib_delete_ok:
  assumes ok: "crit_ok c vw" and none: "\<And>p. cv_refs vw p = 0"
  shows "\<exists>c'. critnib_delete c = Some c' \<and> cr_nodes c' = Map.empty \<and> cr_leaves c' = Map.empty \<and>
    cr_alloc c' = (case cr_cb c of None \<Rightarrow> cr_alloc c | Some cb \<Rightarrow> foldl cb (cr_alloc c) (view_values vw))"
proof -
  obtain t ns ks where inv: "crit_inv c t ns ks [] []" and vw: "vw = view_of t (cr_leaves c)" using ok by (auto simp: crit_ok_def)
  note parts = crit_inv_parts [OF inv] and lp = leaves_inv_parts [OF crit_inv_parts(5) [OF inv]]
  have np: "node_chain (cr_nodes c) (cr_deleted_node c) ns" "length (cr_pending_nodes c) = 16"
    "distinct (node_ptrs t @ ns @ somes (cr_pending_nodes c))" "dom (cr_nodes c) = set (node_ptrs t @ ns @ somes (cr_pending_nodes c))"
    using parts(4) by (simp_all add: nodes_inv_def)
  note ring = no_refs_ring [OF inv none [unfolded vw]]
  let ?c1 = "drop_parts (node_ptrs t) (leaf_ptrs t) c"
  let ?c2 = "?c1\<lparr>cr_nodes := cr_nodes ?c1 |` (- set ns)\<rparr>"
  let ?c3 = "?c2\<lparr>cr_leaves := cr_leaves ?c2 |` (- set ks)\<rparr>"
  let ?c4 = "without (somes (cr_pending_nodes c)) (somes (cr_pending_leaves c)) ?c3"
  have d1: "(case cr_root c of None \<Rightarrow> Some c | Some n \<Rightarrow> delete_node 17 n c) = Some ?c1"
  proof (cases "tag t")
    case (Some n)
    have "delete_node 17 n c = Some ?c1" by (rule delete_node_ok [OF parts(3) _ _ wf_fits_17 [OF parts(2)] Some]) (use np(3) lp(3) in simp_all)
    then show ?thesis using Some parts(1) by simp
  qed (use parts(1) in simp)
  have "node_chain (cr_nodes ?c1) (cr_deleted_node c) ns"
    using np(1) by (rule node_chain_frame) (use np(3) in \<open>auto simp: drop_parts_def restrict_map_def\<close>)
  then have d2: "delete_node_pool (cr_deleted_node ?c1) ?c1 = Some ?c2"
    using delete_node_pool_ok [of ?c1 "cr_deleted_node c" ns] np(3) by (simp add: drop_parts_def)
  have "leaf_chain (cr_leaves ?c2) (cr_deleted_leaf c) ks"
    using lp(1) by (rule leaf_chain_frame) (use lp(3) in \<open>auto simp: drop_parts_def restrict_map_def\<close>)
  then have d3: "delete_leaf_pool (cr_deleted_leaf ?c2) ?c2 = Some ?c3"
    using delete_leaf_pool_ok [of ?c2 "cr_deleted_leaf c" ks] lp(3) by (simp add: drop_parts_def)
  have p3: "cr_pending_nodes ?c3 = cr_pending_nodes c" "cr_pending_leaves ?c3 = cr_pending_leaves c" "cr_cb ?c3 = cr_cb c" by (simp_all add: drop_parts_def)
  have d4: "fold_opt delete_pending [0..<16] ?c3 = Some ?c4"
    using delete_pending_all [of "[0..<16]" ?c3] unfolding p3 map_nth_16 [OF np(2)] map_nth_16 [OF lp(2)]
  proof
    fix i a assume "i \<in> set [0..<16]" "cr_pending_nodes c ! i = Some a"
    then have "Some a \<in> set (cr_pending_nodes c)" using nth_mem [of i "cr_pending_nodes c"] np(2) by auto
    then show "cr_nodes ?c3 a \<noteq> None" using np(3,4) by (auto simp: drop_parts_def restrict_map_def)
  next
    fix i k assume "i \<in> set [0..<16]" "cr_pending_leaves c ! i = Some k"
    then have k: "Some k \<in> set (cr_pending_leaves c)" using nth_mem [of i "cr_pending_leaves c"] lp(2) by auto
    then obtain lf where lf: "cr_leaves c k = Some lf" using lp(4) by auto
    have n: "k \<notin> set (leaf_ptrs t)" "k \<notin> set ks" using k lp(3) by auto
    then have "cr_leaves ?c3 k = Some lf" using lf by (simp add: drop_parts_def restrict_map_def)
    then show "\<exists>lf. cr_leaves ?c3 k = Some lf \<and> (cr_cb c \<noteq> None \<longrightarrow> k_value lf = None \<and> k_to_be_freed lf = None)"
      using ring(2) [OF lf n(1) k] by blast
  qed (use np(3) lp(3) in simp_all)
  have del: "critnib_delete c = Some ?c4" unfolding critnib_delete_def d1 bind.bind_lunit d2 d3 d4 ..
  have "cr_nodes ?c4 = cr_nodes c |` (- (set (node_ptrs t) \<union> set ns \<union> set (somes (cr_pending_nodes c))))"
    by (simp add: without_def drop_parts_def Int_assoc)
  also have "\<dots> = Map.empty" by (rule restrict_dom_empty) (use np(4) in auto)
  finally have n4: "cr_nodes ?c4 = Map.empty" .
  have "cr_leaves ?c4 = cr_leaves c |` (- (set (leaf_ptrs t) \<union> set ks \<union> set (somes (cr_pending_leaves c))))"
    by (simp add: without_def drop_parts_def Int_assoc)
  also have "\<dots> = Map.empty" by (rule restrict_dom_empty) (use ring(1) in \<open>auto, blast\<close>)
  finally have l4: "cr_leaves ?c4 = Map.empty" .
  have "cr_alloc ?c4 = (case cr_cb c of None \<Rightarrow> cr_alloc c | Some cb \<Rightarrow> foldl cb (cr_alloc c) (view_values vw))"
    unfolding vw using give_back_tree [OF inv, of "cr_alloc c"] by (simp add: without_def drop_parts_def)
  then show ?thesis using del n4 l4 by blast
qed

end
