(* ===== verification/Critnib_Run.thy ===== *)
theory Critnib_Run
  imports Critnib_Delete "HOL-Library.Multiset"
begin

text \<open>
  Sessions of a client of the critnib: from creation through any sequence of calls to
  destruction. The client keeps the references it is given and releases them by position.
\<close>

section \<open>Calls\<close>

datatype 'v crit_call =
    Insert u64 'v bool
  | Remove u64
  | Get u64
  | Find_Le u64
  | Find u64 find_dir_t
  | Release nat

datatype 'v crit_ret = Status int | Value "'v option" | Entry "(u64 \<times> 'v option) option" | Skipped

definition hold :: "ref \<Rightarrow> ptr list \<Rightarrow> ptr list" where
  "hold ref held = (case ref of None \<Rightarrow> held | Some k \<Rightarrow> k # held)"

definition drop_nth :: "nat \<Rightarrow> 'a list \<Rightarrow> 'a list" where
  "drop_nth i xs = take i xs @ drop (Suc i) xs"

fun crit_exec :: "'v crit_call \<Rightarrow> ('v, 's) critnib \<times> ptr list \<Rightarrow> ('v crit_ret \<times> ('v, 's) critnib \<times> ptr list) option" where
  "crit_exec (Insert key v update) (c, held) = do { (e, c') \<leftarrow> critnib_insert c key (Some v) update; Some (Status e, c', held) }"
| "crit_exec (Remove key) (c, held) = do { (v, ref, c') \<leftarrow> critnib_remove c key True; Some (Value v, c', hold ref held) }"
| "crit_exec (Get key) (c, held) = do { (v, ref, c') \<leftarrow> critnib_get c key True; Some (Value v, c', hold ref held) }"
| "crit_exec (Find_Le key) (c, held) = do { (v, ref, c') \<leftarrow> critnib_find_le c key True; Some (Value v, c', hold ref held) }"
| "crit_exec (Find key dir) (c, held) = do { (_, found, ref, c') \<leftarrow> critnib_find c key dir True; Some (Entry found, c', hold ref held) }"
| "crit_exec (Release i) (c, held) =
     (if i < length held then do { (e, c') \<leftarrow> critnib_release c (Some (held ! i)); Some (Status e, c', drop_nth i held) }
      else Some (Skipped, c, held))"

fun crit_run :: "'v crit_call list \<Rightarrow> ('v, 's) critnib \<times> ptr list \<Rightarrow> ('v crit_ret list \<times> ('v, 's) critnib \<times> ptr list) option" where
  "crit_run [] st = Some ([], st)"
| "crit_run (op # ops) st = do { (r, st1) \<leftarrow> crit_exec op st; (rs, st2) \<leftarrow> crit_run ops st1; Some (r # rs, st2) }"

section \<open>What the calls promise\<close>

inductive crit_spec ::
  "('s \<Rightarrow> 'v \<Rightarrow> 's) option \<Rightarrow> 'v crit_call \<Rightarrow> 'v crit_view \<times> ptr list \<times> 's \<Rightarrow> 'v crit_ret \<Rightarrow> 'v crit_view \<times> ptr list \<times> 's \<Rightarrow> bool"
  for cb :: "('s \<Rightarrow> 'v \<Rightarrow> 's) option" where
  insert: "insert_result key v update vw e vw' \<Longrightarrow> crit_spec cb (Insert key v update) (vw, held, al) (Status e) (vw', held, al)"
| remove: "remove_result (cb \<noteq> None) key vw res ref vw' \<Longrightarrow> crit_spec cb (Remove key) (vw, held, al) (Value res) (vw', hold ref held, al)"
| get: "query_result (cb \<noteq> None) (cv_map vw key) vw res ref vw' \<Longrightarrow> crit_spec cb (Get key) (vw, held, al) (Value res) (vw', hold ref held, al)"
| find_le: "greatest (cv_map vw) (\<lambda>k. k \<le> key) hit \<Longrightarrow> query_result (cb \<noteq> None) (map_option snd hit) vw res ref vw' \<Longrightarrow>
    crit_spec cb (Find_Le key) (vw, held, al) (Value res) (vw', hold ref held, al)"
| find: "nearest dir key (cv_map vw) hit \<Longrightarrow> find_result (cb \<noteq> None) hit vw e found ref vw' \<Longrightarrow>
    crit_spec cb (Find key dir) (vw, held, al) (Entry found) (vw', hold ref held, al)"
| release: "i < length held \<Longrightarrow> cb = Some f \<Longrightarrow> release_result f (held ! i) vw al vw' al' \<Longrightarrow>
    crit_spec cb (Release i) (vw, held, al) (Status 0) (vw', drop_nth i held, al')"
| skip: "\<not> i < length held \<Longrightarrow> crit_spec cb (Release i) (vw, held, al) Skipped (vw, held, al)"

inductive crit_specs ::
  "('s \<Rightarrow> 'v \<Rightarrow> 's) option \<Rightarrow> 'v crit_call list \<Rightarrow> 'v crit_view \<times> ptr list \<times> 's \<Rightarrow> 'v crit_ret list \<Rightarrow> 'v crit_view \<times> ptr list \<times> 's \<Rightarrow> bool"
  for cb :: "('s \<Rightarrow> 'v \<Rightarrow> 's) option" where
  nil: "crit_specs cb [] s [] s"
| cons: "crit_spec cb op s r s1 \<Longrightarrow> crit_specs cb ops s1 rs s2 \<Longrightarrow> crit_specs cb (op # ops) s (r # rs) s2"

section \<open>The simulation\<close>

text \<open>The client holds exactly the references that are counted; \<open>n\<close> bounds the calls so far.\<close>

definition crit_sim :: "nat \<Rightarrow> ('s \<Rightarrow> 'v \<Rightarrow> 's) option \<Rightarrow> ('v, 's) critnib \<times> ptr list \<Rightarrow> 'v crit_view \<times> ptr list \<times> 's \<Rightarrow> bool" where
  "crit_sim n cb st s \<longleftrightarrow>
     (case (st, s) of ((c, held), (vw, held', al)) \<Rightarrow>
        crit_ok c vw \<and> held' = held \<and> al = cr_alloc c \<and> cr_cb c = cb \<and> cv_refs vw = count_list held \<and> length held \<le> n \<and>
        unat (cr_remove_count c) \<le> n \<and> (cb = None \<longrightarrow> held = []))"

lemma count_list_le_length: "count_list xs x \<le> length xs"
  by (induction xs) auto

lemma count_drop_nth: "i < length xs \<Longrightarrow> count_list (drop_nth i xs) = (count_list xs)(xs ! i := count_list xs (xs ! i) - 1)"
proof
  fix x assume i: "i < length xs"
  then have "count_list xs x = count_list (take i xs @ xs ! i # drop (Suc i) xs) x" by (simp flip: id_take_nth_drop)
  then show "count_list (drop_nth i xs) x = ((count_list xs)(xs ! i := count_list xs (xs ! i) - 1)) x"
    using i by (auto simp: drop_nth_def)
qed

lemma count_hold: "count_list (hold ref held) = (case ref of None \<Rightarrow> count_list held | Some k \<Rightarrow> (count_list held)(k := Suc (count_list held k)))"
  by (cases ref) (auto simp: hold_def fun_eq_iff)

lemma insert_result_refs: "insert_result key v update vw e vw' \<Longrightarrow> cv_refs vw' = cv_refs vw"
  by (auto simp: insert_result_def split: option.splits if_splits)

lemma remove_result_refs: "remove_result cb key vw res ref vw' \<Longrightarrow> cv_refs vw = count_list held \<Longrightarrow> cv_refs vw' = count_list (hold ref held) \<and> (\<not> cb \<longrightarrow> ref = None)"
  by (auto simp: remove_result_def removed_view_def count_hold split: option.splits if_splits)

lemma query_result_refs: "query_result cb hit vw res ref vw' \<Longrightarrow> cv_refs vw = count_list held \<Longrightarrow> cv_refs vw' = count_list (hold ref held) \<and> (\<not> cb \<longrightarrow> ref = None)"
  by (auto simp: query_result_def taken_view_def count_hold split: option.splits if_splits)

lemma find_result_refs: "find_result cb hit vw e found ref vw' \<Longrightarrow> cv_refs vw = count_list held \<Longrightarrow> cv_refs vw' = count_list (hold ref held) \<and> (\<not> cb \<longrightarrow> ref = None)"
  by (auto simp: find_result_def taken_view_def count_hold split: option.splits if_splits prod.splits)

lemma release_result_refs:
  "release_result f k vw al vw' al' \<Longrightarrow> 0 < cv_refs vw k \<Longrightarrow> cv_refs vw' = (cv_refs vw)(k := cv_refs vw k - 1)"
  by (auto simp: release_result_def split: if_splits)

lemma length_hold: "length (hold ref held) \<le> Suc (length held)"
  by (cases ref) (auto simp: hold_def)

lemma length_drop_nth: "length (drop_nth i xs) \<le> length xs"
  by (simp add: drop_nth_def)

definition absent_eq :: "'v crit_call \<Rightarrow> bool" where
  "absent_eq op = (case op of Find _ dir \<Rightarrow> dir = FIND_EQ | _ \<Rightarrow> False)"

lemma sim_unchanged:
  assumes "crit_sim n cb (c, held) (vw, held, cr_alloc c)" "unchanged_env c c'" "crit_ok c' vw'" "cv_refs vw' = count_list (hold ref held) \<and> (cb = None \<longrightarrow> ref = None)"
  shows "crit_sim (Suc n) cb (c', hold ref held) (vw', hold ref held, cr_alloc c)"
  using assms length_hold [of ref held] by (auto simp: crit_sim_def unchanged_env_def hold_def)

lemma unat_suc_le: "unat (x + 1 :: u64) \<le> Suc (unat x)"
  by (simp add: unat_word_ariths)

lemma sim_removal:
  assumes "crit_sim n cb (c, held) (vw, held, cr_alloc c)" "removal_env c c'" "crit_ok c' vw'" "cv_refs vw' = count_list (hold ref held) \<and> (cb = None \<longrightarrow> ref = None)"
  shows "crit_sim (Suc n) cb (c', hold ref held) (vw', hold ref held, cr_alloc c)"
  using assms length_hold [of ref held] unat_suc_le [of "cr_remove_count c"] by (auto simp: crit_sim_def removal_env_def hold_def)

lemma sim_bounds:
  assumes "crit_sim n cb (c, held) (vw, held, al)" "n + 19 < 2 ^ 64"
  shows "few_removals c" "cv_refs vw k + 3 < 2 ^ 64"
  using assms count_list_le_length [of held k] by (auto simp: crit_sim_def few_removals_def)

text \<open>The call returns, and its result and the next state are as promised.\<close>

definition call_ok :: "nat \<Rightarrow> ('s \<Rightarrow> 'v \<Rightarrow> 's) option \<Rightarrow> 'v crit_call \<Rightarrow> ('v, 's) critnib \<Rightarrow> ptr list \<Rightarrow> 'v crit_view \<Rightarrow> bool" where
  "call_ok n cb op c held vw \<longleftrightarrow>
     (\<exists>r c' held' vw'. crit_exec op (c, held) = Some (r, c', held') \<and> crit_sim (Suc n) cb (c', held') (vw', held', cr_alloc c') \<and>
        crit_spec cb op (vw, held, cr_alloc c) r (vw', held', cr_alloc c'))"

lemma call_okI:
  "crit_exec op (c, held) = Some (r, c', held') \<Longrightarrow> crit_sim (Suc n) cb (c', held') (vw', held', al') \<Longrightarrow>
   crit_spec cb op (vw, held, cr_alloc c) r (vw', held', al') \<Longrightarrow> call_ok n cb op c held vw"
  unfolding call_ok_def crit_sim_def by auto

lemma sim_release:
  assumes sim: "crit_sim n cb (c, held) (vw, held, cr_alloc c)" and i: "i < length held"
  shows "call_ok n cb (Release i) c held vw"
proof -
  have s: "crit_ok c vw" "cr_cb c = cb" "cv_refs vw = count_list held" "length held \<le> n" "unat (cr_remove_count c) \<le> n" "cb = None \<Longrightarrow> held = []"
    using sim by (auto simp: crit_sim_def)
  obtain f where f: "cb = Some f" using s(6) i by (cases cb) auto
  have "held ! i \<in> set held" using i by simp
  then have pos: "0 < cv_refs vw (held ! i)" unfolding s(3) using count_list_0_iff [of held "held ! i"] by simp
  obtain c' vw' where r: "critnib_release c (Some (held ! i)) = Some (0, c')" "release_env c c'" "crit_ok c' vw'"
    "release_result f (held ! i) vw (cr_alloc c) vw' (cr_alloc c')"
    using critnib_release_ok [OF s(1) _ pos] s(2) f by blast
  have "cv_refs vw' = count_list (drop_nth i held)"
    using release_result_refs [OF r(4) pos] by (simp add: s(3) count_drop_nth [OF i])
  then have "crit_sim (Suc n) cb (c', drop_nth i held) (vw', drop_nth i held, cr_alloc c')"
    using r(2,3) s length_drop_nth [of i held] f by (auto simp: crit_sim_def release_env_def)
  then show ?thesis by (rule call_okI [rotated]) (use r(1) i crit_spec.release [OF i f r(4)] in simp_all)
qed

lemma crit_step:
  assumes sim: "crit_sim n cb (c, held) (vw, held, cr_alloc c)" and n: "n + 19 < 2 ^ 64" and op: "\<not> absent_eq op"
  shows "call_ok n cb op c held vw"
proof -
  have ok: "crit_ok c vw" and cb: "cr_cb c = cb" and refs: "cv_refs vw = count_list held" using sim by (auto simp: crit_sim_def)
  note b = sim_bounds [OF sim n]
  show ?thesis
  proof (cases op)
    case (Insert key v update)
    obtain e c' vw' where r: "critnib_insert c key (Some v) update = Some (e, c')" "unchanged_env c c'" "crit_ok c' vw'" "insert_result key v update vw e vw'"
      using critnib_insert_ok [OF ok] by blast
    have "crit_sim (Suc n) cb (c', hold None held) (vw', hold None held, cr_alloc c)"
      using insert_result_refs [OF r(4)] refs by (intro sim_unchanged [OF sim r(2,3)]) (simp add: hold_def)
    then show ?thesis by (rule call_okI [rotated]) (use Insert r(1) crit_spec.insert [OF r(4)] in \<open>simp_all add: hold_def\<close>)
  next
    case (Remove key)
    obtain res ref c' vw' where r: "critnib_remove c key True = Some (res, ref, c')" "removal_env c c'" "crit_ok c' vw'" "remove_result (cb \<noteq> None) key vw res ref vw'"
      using critnib_remove_ok [OF ok, of True] unfolding cb by blast
    have "crit_sim (Suc n) cb (c', hold ref held) (vw', hold ref held, cr_alloc c)"
      using remove_result_refs [OF r(4) refs] by (intro sim_removal [OF sim r(2,3)]) auto
    then show ?thesis by (rule call_okI [rotated]) (use Remove r(1) crit_spec.remove [OF r(4)] in simp_all)
  next
    case (Get key)
    obtain res ref c' vw' where r: "critnib_get c key True = Some (res, ref, c')" "unchanged_env c c'" "crit_ok c' vw'" "query_result (cb \<noteq> None) (cv_map vw key) vw res ref vw'"
      using critnib_get_ok [OF ok, of True key, OF _ b(1) b(2)] unfolding cb by blast
    have "crit_sim (Suc n) cb (c', hold ref held) (vw', hold ref held, cr_alloc c)"
      using query_result_refs [OF r(4) refs] by (intro sim_unchanged [OF sim r(2,3)]) auto
    then show ?thesis by (rule call_okI [rotated]) (use Get r(1) crit_spec.get [OF r(4)] in simp_all)
  next
    case (Find_Le key)
    obtain hit res ref c' vw' where r: "critnib_find_le c key True = Some (res, ref, c')" "unchanged_env c c'" "crit_ok c' vw'"
      "greatest (cv_map vw) (\<lambda>k. k \<le> key) hit" "query_result (cb \<noteq> None) (map_option snd hit) vw res ref vw'"
      using critnib_find_le_ok [OF ok, of True key, OF _ b(1) b(2)] unfolding cb by blast
    have "crit_sim (Suc n) cb (c', hold ref held) (vw', hold ref held, cr_alloc c)"
      using query_result_refs [OF r(5) refs] by (intro sim_unchanged [OF sim r(2,3)]) auto
    then show ?thesis by (rule call_okI [rotated]) (use Find_Le r(1) crit_spec.find_le [OF r(4,5)] in simp_all)
  next
    case (Find key dir)
    then have "dir \<noteq> FIND_EQ" using op by (simp add: absent_eq_def)
    then obtain hit e found ref c' vw' where r: "critnib_find c key dir True = Some (e, found, ref, c')" "unchanged_env c c'" "crit_ok c' vw'"
      "nearest dir key (cv_map vw) hit" "find_result (cb \<noteq> None) hit vw e found ref vw'"
      using critnib_find_ok [OF ok, of True dir key, OF _ b(1) b(2)] unfolding cb by blast
    have "crit_sim (Suc n) cb (c', hold ref held) (vw', hold ref held, cr_alloc c)"
      using find_result_refs [OF r(5) refs] by (intro sim_unchanged [OF sim r(2,3)]) auto
    then show ?thesis by (rule call_okI [rotated]) (use Find r(1) crit_spec.find [OF r(4,5)] in simp_all)
  next
    case (Release i)
    show ?thesis
    proof (cases "i < length held")
      case True
      then show ?thesis using sim_release [OF sim] Release by blast
    next
      case False
      have "crit_sim (Suc n) cb (c, held) (vw, held, cr_alloc c)" using sim by (auto simp: crit_sim_def)
      then show ?thesis by (rule call_okI [rotated]) (use False Release crit_spec.skip [OF False] in simp_all)
    qed
  qed
qed

section \<open>Runs\<close>

definition empty_view :: "'v crit_view" where
  "empty_view = \<lparr>cv_map = Map.empty, cv_val = Map.empty, cv_refs = (\<lambda>_. 0)\<rparr>"

lemma critnib_new_sim: "fst (critnib_new cb al s) = Some c \<Longrightarrow> crit_sim 0 cb (c, []) (empty_view, [], al)"
proof -
  assume "fst (critnib_new cb al s) = Some c"
  then obtain s' where new: "critnib_new cb al s = (Some c, s')" by (cases "critnib_new cb al s") auto
  have som: "somes (replicate n None) = []" for n by (induction n) auto
  have c: "c = \<lparr>cr_root = None, cr_cb = cb, cr_alloc = al, cr_deleted_node = None,
                     cr_deleted_leaf = None, cr_pending_nodes = replicate 16 None, cr_pending_leaves = replicate 16 None,
                     cr_remove_count = 0, cr_nodes = Map.empty, cr_leaves = Map.empty, cr_host = s'\<rparr>"
    using new by (auto simp: critnib_new_def split: prod.splits option.splits bool.splits)
  have "crit_inv c CE [] [] [] []"
    by (rule crit_invI) (simp_all add: c nodes_inv_def leaves_inv_def som leaf_ptrs_def)
  moreover have "empty_view = view_of CE (cr_leaves c)"
    by (simp add: empty_view_def view_of_def c leaf_val_def leaf_refs_def fun_eq_iff)
  ultimately have "crit_ok c empty_view" unfolding crit_ok_def by blast
  then show ?thesis by (simp add: crit_sim_def c empty_view_def fun_eq_iff)
qed

lemma crit_run_sim:
  assumes "crit_sim n cb (c, held) (vw, held, cr_alloc c)" "n + length ops + 18 < 2 ^ 64" "\<forall>op\<in>set ops. \<not> absent_eq op"
  shows "\<exists>rs c' held' vw'. crit_run ops (c, held) = Some (rs, c', held') \<and>
    crit_sim (n + length ops) cb (c', held') (vw', held', cr_alloc c') \<and> crit_specs cb ops (vw, held, cr_alloc c) rs (vw', held', cr_alloc c')"
  using assms
proof (induction ops arbitrary: n c held vw)
  case Nil
  then show ?case by (auto intro: crit_specs.nil)
next
  case (Cons op ops)
  have "call_ok n cb op c held vw" by (rule crit_step [OF Cons.prems(1)]) (use Cons.prems in auto)
  then obtain r c1 held1 vw1 where r: "crit_exec op (c, held) = Some (r, c1, held1)" "crit_sim (Suc n) cb (c1, held1) (vw1, held1, cr_alloc c1)"
    "crit_spec cb op (vw, held, cr_alloc c) r (vw1, held1, cr_alloc c1)" unfolding call_ok_def by blast
  obtain rs c' held' vw' where rs: "crit_run ops (c1, held1) = Some (rs, c', held')"
    "crit_sim (Suc n + length ops) cb (c', held') (vw', held', cr_alloc c')" "crit_specs cb ops (vw1, held1, cr_alloc c1) rs (vw', held', cr_alloc c')"
    using Cons.IH [OF r(2)] Cons.prems by auto
  then have "crit_run (op # ops) (c, held) = Some (r # rs, c', held')" using r(1) by simp
  then show ?case using rs(2) crit_specs.cons [OF r(3) rs(3)] by fastforce
qed

section \<open>Ownership of the values\<close>

text \<open>The values that are in the tree, or removed and still referenced.\<close>

definition owned :: "'v crit_view \<Rightarrow> 'v multiset" where
  "owned vw = image_mset (\<lambda>p. the (cv_val vw p)) (mset_set (dom (cv_val vw)))"

definition updates :: "'v crit_call \<Rightarrow> bool" where
  "updates op = (case op of Insert _ _ u \<Rightarrow> u | _ \<Rightarrow> False)"

fun inserted :: "'v crit_call list \<Rightarrow> 'v crit_ret list \<Rightarrow> 'v list" where
  "inserted (Insert _ v _ # ops) (Status e # rs) = (if e = 0 then v # inserted ops rs else inserted ops rs)"
| "inserted (_ # ops) (_ # rs) = inserted ops rs"
| "inserted _ _ = []"

lemma crit_ok_finite: "crit_ok c vw \<Longrightarrow> finite (dom (cv_val vw))"
proof -
  assume "crit_ok c vw"
  then obtain t ns ks where inv: "crit_inv c t ns ks [] []" and vw: "vw = view_of t (cr_leaves c)" by (auto simp: crit_ok_def)
  have "dom (cv_val vw) \<subseteq> dom (cr_leaves c)" by (auto simp: vw view_of_def leaf_val_def split: option.splits)
  also have "\<dots> \<subseteq> {..<next_id (cr_host c)}" using crit_inv_parts(6) [OF inv] by auto
  finally show ?thesis by (rule finite_subset) simp
qed

lemma owned_add: "finite (dom (cv_val vw)) \<Longrightarrow> cv_val vw k = None \<Longrightarrow> cv_val vw' = (cv_val vw)(k \<mapsto> v) \<Longrightarrow> owned vw' = add_mset v (owned vw)"
proof -
  assume a: "finite (dom (cv_val vw))" "cv_val vw k = None" "cv_val vw' = (cv_val vw)(k \<mapsto> v)"
  then have k: "k \<notin> dom (cv_val vw)" "dom (cv_val vw') = insert k (dom (cv_val vw))" by auto
  have "image_mset (\<lambda>p. the (cv_val vw' p)) (mset_set (dom (cv_val vw))) = image_mset (\<lambda>p. the (cv_val vw p)) (mset_set (dom (cv_val vw)))"
    by (rule image_mset_cong) (use a k in auto)
  then show ?thesis unfolding owned_def k(2) using a k(1) by simp
qed

lemma owned_cong: "cv_val vw' = cv_val vw \<Longrightarrow> owned vw' = owned vw"
  by (simp add: owned_def)

lemma spec_owned:
  assumes "crit_spec (Some (\<lambda>al v. v # al)) op (vw, held, al) r (vw', held', al')" "finite (dom (cv_val vw))" "\<not> updates op"
  shows "mset al' + owned vw' = mset al + owned vw + mset (inserted [op] [r])"
  using assms
proof (cases rule: crit_spec.cases)
  case (insert key v update e)
  then show ?thesis using assms(2,3) owned_add [of vw]
    by (auto simp: insert_result_def updates_def ENOMEM_def EEXIST_def split: option.splits)
next
  case (remove key res ref)
  then have "cv_val vw' = cv_val vw" by (auto simp: remove_result_def removed_view_def split: option.splits)
  then show ?thesis using remove owned_cong by fastforce
next
  case (get key res ref)
  then have "cv_val vw' = cv_val vw" by (auto simp: query_result_def taken_view_def split: option.splits)
  then show ?thesis using get owned_cong by fastforce
next
  case (find_le key hit res ref)
  then have "cv_val vw' = cv_val vw" by (auto simp: query_result_def taken_view_def split: option.splits)
  then show ?thesis using find_le owned_cong by fastforce
next
  case (find dir key hit e found ref)
  then have "cv_val vw' = cv_val vw" by (auto simp: find_result_def taken_view_def split: option.splits)
  then show ?thesis using find owned_cong by fastforce
next
  case (release i f)
  then have rel: "release_result (\<lambda>al v. v # al) (held ! i) vw al vw' al'" by simp
  consider "al' = al" "cv_val vw' = cv_val vw" | v where "cv_val vw (held ! i) = Some v" "al' = v # al" "cv_val vw' = (cv_val vw)(held ! i := None)"
    using rel by (auto simp: release_result_def split: if_splits)
  then show ?thesis
  proof cases
    case 1
    then show ?thesis using owned_cong [OF 1(2)] release(1,3) by simp
  next
    case v: 2
    have "finite (dom (cv_val vw'))" unfolding v(3) using assms(2) by simp
    then have "owned vw = add_mset v (owned vw')" by (rule owned_add) (use v in auto)
    then show ?thesis using v(2) release(1,3) by simp
  qed
qed simp

lemma crit_run_owned:
  assumes "crit_sim n (Some (\<lambda>al v. v # al)) (c, held) (vw, held, cr_alloc c)" "n + length ops + 18 < 2 ^ 64"
    "\<forall>op\<in>set ops. \<not> absent_eq op \<and> \<not> updates op"
  shows "\<exists>rs c' held' vw'. crit_run ops (c, held) = Some (rs, c', held') \<and>
    crit_sim (n + length ops) (Some (\<lambda>al v. v # al)) (c', held') (vw', held', cr_alloc c') \<and>
    mset (cr_alloc c') + owned vw' = mset (cr_alloc c) + owned vw + mset (inserted ops rs)"
  using assms
proof (induction ops arbitrary: n c held vw)
  case (Cons op ops)
  have "call_ok n (Some (\<lambda>al v. v # al)) op c held vw" by (rule crit_step [OF Cons.prems(1)]) (use Cons.prems in auto)
  then obtain r c1 held1 vw1 where r: "crit_exec op (c, held) = Some (r, c1, held1)" "crit_sim (Suc n) (Some (\<lambda>al v. v # al)) (c1, held1) (vw1, held1, cr_alloc c1)"
    "crit_spec (Some (\<lambda>al v. v # al)) op (vw, held, cr_alloc c) r (vw1, held1, cr_alloc c1)" unfolding call_ok_def by blast
  have fin: "finite (dom (cv_val vw))" using Cons.prems(1) crit_ok_finite [of c vw] by (auto simp: crit_sim_def)
  obtain rs c' held' vw' where rs: "crit_run ops (c1, held1) = Some (rs, c', held')"
    "crit_sim (Suc n + length ops) (Some (\<lambda>al v. v # al)) (c', held') (vw', held', cr_alloc c')"
    "mset (cr_alloc c') + owned vw' = mset (cr_alloc c1) + owned vw1 + mset (inserted ops rs)"
    using Cons.IH [OF r(2)] Cons.prems by auto
  have "mset (cr_alloc c1) + owned vw1 = mset (cr_alloc c) + owned vw + mset (inserted [op] [r])"
    using spec_owned [OF r(3) fin] Cons.prems(3) by simp
  moreover have "mset (inserted (op # ops) (r # rs)) = mset (inserted [op] [r]) + mset (inserted ops rs)"
    by (cases op; cases r) auto
  ultimately have "mset (cr_alloc c') + owned vw' = mset (cr_alloc c) + owned vw + mset (inserted (op # ops) (r # rs))"
    using rs(3) by simp
  then show ?case using rs(1,2) r(1) by fastforce
qed auto

lemma owned_at_rest:
  assumes ok: "crit_ok c vw" and cb: "cr_cb c \<noteq> None" and none: "\<And>p. cv_refs vw p = 0"
  shows "owned vw = mset (view_values vw)"
proof -
  obtain t ns ks where inv: "crit_inv c t ns ks [] []" and vw: "vw = view_of t (cr_leaves c)" using ok by (auto simp: crit_ok_def)
  note lp = leaves_inv_parts [OF crit_inv_parts(5) [OF inv]] and ev = entries_view [OF crit_inv_parts(2) [OF inv]]
  have "p \<in> set (leaf_ptrs t)" if v: "cv_val vw p = Some v" for p v
  proof (rule ccontr)
    assume n: "p \<notin> set (leaf_ptrs t)"
    obtain lf where lf: "cr_leaves c p = Some lf" "k_to_be_freed lf = Some v"
      using v n by (auto simp: vw view_of_def leaf_val_def split: option.splits)
    have "removed_leaf lf" using lp(5) [OF lf(1)] lf(2) n
      by (auto simp: leaf_class_def idle_leaf_def ring_leaf_def held_leaf_def split: if_splits)
    then have "2 \<le> unat (k_ref_count lf)" by (simp add: removed_leaf_def LEAF_VALID_def word_le_nat_alt)
    then show False using none [of p] lf n by (auto simp: vw view_of_def leaf_refs_def)
  qed
  moreover have "cv_val vw p \<noteq> None" if p: "p \<in> set (leaf_ptrs t)" for p
  proof -
    obtain lf where lf: "cr_leaves c p = Some lf" using lp(4) p by auto
    then show ?thesis using lp(5) [OF lf] p by (auto simp: leaf_class_def live_leaf_def vw view_of_def leaf_val_def)
  qed
  ultimately have dom: "dom (cv_val vw) = set (leaf_ptrs t)" by blast
  have "distinct (leaf_ptrs t)" using lp(3) by simp
  then have "mset_set (dom (cv_val vw)) = mset (leaf_ptrs t)" by (simp add: dom mset_set_set)
  moreover have "leaf_ptrs t = map (\<lambda>k. the (cv_map vw k)) (sorted_list_of_set (dom (cv_map vw)))"
    using ev by (simp add: vw view_of_def leaf_ptrs_def)
  ultimately show ?thesis by (simp add: owned_def view_values_def image_mset.compositionality comp_def)
qed

text \<open>A client that releases all its references and deletes the critnib.\<close>

definition critnib_session :: "'v crit_call list \<Rightarrow> ('v, 's) critnib \<Rightarrow> ('v crit_ret list \<times> ('v, 's) critnib) option" where
  "critnib_session ops c = do {
     (rs, c1, held) \<leftarrow> crit_run ops (c, []);
     (_, c2, _) \<leftarrow> crit_run (replicate (length held) (Release 0)) (c1, held);
     c3 \<leftarrow> critnib_delete c2;
     Some (rs, c3)
   }"

lemma release_all_held:
  "crit_run (replicate (length held) (Release 0)) (c, held) = Some (rs, c', held') \<Longrightarrow> held' = []"
proof (induction held arbitrary: c rs)
  case (Cons k held)
  then show ?case by (auto simp: drop_nth_def split: bind_splits)
qed simp

lemma inserted_releases: "inserted (replicate n (Release i)) rs = []"
proof (induction n arbitrary: rs)
  case (Suc n)
  then show ?case by (cases rs) auto
qed simp

section \<open>Properties\<close>


definition demo_calls :: "string crit_call list" where
  "demo_calls = [Insert 0x1000 ''a'' False, Insert 0x1010 ''b'' False, Get 0x1000, Remove 0x1000, Release 0, Find_Le 0x1008,
     Release 0, Find 0x1000 FIND_G, Insert 0x1010 ''c'' False, Release 0]"

lemma demo_calls_plain: "\<forall>op\<in>set demo_calls. \<not> absent_eq op \<and> \<not> updates op"
  by (simp add: demo_calls_def absent_eq_def updates_def)




text \<open>
  C36. The search for an exact key follows a null pointer when the critnib is empty; the
  lookup of the same key reports that it is absent.
\<close>

theorem critnib_find_eq_null:
  assumes "crit_ok c vw" "cv_map vw = Map.empty" "few_removals c"
  shows "critnib_find c key FIND_EQ True = None \<and> critnib_get c key True = Some (None, None, c)"
proof -
  obtain t ns ks where inv: "crit_inv c t ns ks [] []" and vw: "vw = view_of t (cr_leaves c)" using assms(1) by (auto simp: crit_ok_def)
  have "entries t = []" using assms(2) by (auto simp: vw view_of_def)
  then have "t = CE" using entries_nonempty [OF crit_inv_parts(2) [OF inv]] by blast
  then have "cr_root c = None" using crit_inv_parts(1) [OF inv] by simp
  then show ?thesis
    by (simp add: critnib_find_def critnib_get_def retry_eq [OF assms(3)] find_key_def find_leaf_def get_walk.simps deref_def take_ref_def)
qed

theorem critnib_find_eq_null_witness:
  "\<exists>c. fst (critnib_new (None :: (unit \<Rightarrow> string \<Rightarrow> unit) option) () \<lparr>next_id = 1, oom = [], lock_fail = []\<rparr>) = Some c \<and>
     critnib_find c 0x1000 FIND_EQ True = None \<and> critnib_get c 0x1000 True = Some (None, None, c)"
proof -
  obtain c where c: "fst (critnib_new (None :: (unit \<Rightarrow> string \<Rightarrow> unit) option) () \<lparr>next_id = 1, oom = [], lock_fail = []\<rparr>) = Some c"
    by (auto simp: critnib_new_def ba_global_alloc_def mutex_init_def mutex_lock_def)
  then have "crit_ok c empty_view" "unat (cr_remove_count c) = 0" using critnib_new_sim [OF c] by (simp_all add: crit_sim_def)
  then show ?thesis using c critnib_find_eq_null [of c empty_view "0x1000"] by (simp add: few_removals_def empty_view_def)
qed

end
