(* ===== verification/Critnib_Iter.thy ===== *)
theory Critnib_Iter
  imports Critnib_Run
begin

text \<open>
  The iteration over a range of keys: the entries of the range are visited in the order of
  their keys until the visitor asks to stop.
\<close>

section \<open>Visits\<close>

fun visit :: "(u64 \<Rightarrow> 'v option \<Rightarrow> 'd \<Rightarrow> int \<times> 'd) \<Rightarrow> (u64 \<times> 'v option) list \<Rightarrow> 'd \<Rightarrow> bool \<times> 'd" where
  "visit func [] s = (False, s)"
| "visit func ((k, v) # es) s = (let (r, s') = func k v s in if r \<noteq> 0 then (True, s') else visit func es s')"

lemma visit_append: "visit func (xs @ ys) s = (let (b, s') = visit func xs s in if b then (b, s') else visit func ys s')"
  by (induction func xs s rule: visit.induct) (auto simp: Let_def split: prod.splits)

definition in_range :: "'v critnib_leaf heap \<Rightarrow> u64 \<Rightarrow> u64 \<Rightarrow> (u64 \<times> ptr) list \<Rightarrow> (u64 \<times> 'v option) list" where
  "in_range leaves lo hi es = map (\<lambda>(k, p). (k, k_value (the (leaves p)))) (filter (\<lambda>(k, p). lo \<le> k \<and> k \<le> hi) es)"

lemma in_range_append: "in_range leaves lo hi (xs @ ys) = in_range leaves lo hi xs @ in_range leaves lo hi ys"
  by (simp add: in_range_def)

lemma in_range_above: "\<forall>k\<in>fst ` set es. hi < k \<Longrightarrow> in_range leaves lo hi es = []"
  by (force simp: in_range_def filter_empty_conv)

text \<open>A result other than 0 of the recursion means that no later entry is to be visited.\<close>

definition iter_post ::
  "'v critnib_leaf heap \<Rightarrow> u64 \<Rightarrow> u64 \<Rightarrow> (u64 \<Rightarrow> 'v option \<Rightarrow> 'd \<Rightarrow> int \<times> 'd) \<Rightarrow> (u64 \<times> ptr) list \<Rightarrow> 'd \<Rightarrow> int \<times> 'd \<Rightarrow> bool" where
  "iter_post leaves lo hi func es s rs \<longleftrightarrow>
     (case visit func (in_range leaves lo hi es) s of (b, s') \<Rightarrow>
        snd rs = s' \<and> (b \<longrightarrow> fst rs \<noteq> 0) \<and> (fst rs \<noteq> 0 \<longrightarrow> b \<or> (\<exists>k\<in>fst ` set es. hi < k)))"

lemma iter_post_stop:
  assumes "iter_post leaves lo hi func es s (r, s')" "r \<noteq> 0" "\<forall>k\<in>fst ` set es. \<forall>k'\<in>fst ` set es'. k < k'"
  shows "iter_post leaves lo hi func (es @ es') s (1, s')"
proof -
  obtain b where b: "visit func (in_range leaves lo hi es) s = (b, s')" "b \<or> (\<exists>k\<in>fst ` set es. hi < k)"
    using assms(1,2) by (auto simp: iter_post_def split: prod.splits)
  show ?thesis
  proof (cases b)
    case False
    then obtain k where "k \<in> fst ` set es" "hi < k" using b(2) by blast
    then have "in_range leaves lo hi es' = []" using assms(3) by (intro in_range_above) force
    then show ?thesis using b(1) False \<open>k \<in> fst ` set es\<close> \<open>hi < k\<close> by (auto simp: iter_post_def in_range_append image_Un)
  qed (use b(1) in \<open>auto simp: iter_post_def in_range_append visit_append\<close>)
qed

lemma iter_post_next:
  assumes "iter_post leaves lo hi func es s (0, s1)" "iter_post leaves lo hi func es' s1 rs"
  shows "iter_post leaves lo hi func (es @ es') s rs"
  using assms by (auto simp: iter_post_def in_range_append visit_append image_Un split: prod.splits)

abbreviation iter_step ::
  "nat \<Rightarrow> ('v, 's) critnib \<Rightarrow> u64 \<Rightarrow> u64 \<Rightarrow> (u64 \<Rightarrow> 'v option \<Rightarrow> 'd \<Rightarrow> int \<times> 'd) \<Rightarrow> tagged option \<Rightarrow> int \<times> 'd \<Rightarrow> (int \<times> 'd) option" where
  "iter_step d c lo hi func \<equiv> (\<lambda>m (r, s).
     (case m of
        None \<Rightarrow> Some (r, s)
      | Some t \<Rightarrow> if r \<noteq> 0 then Some (r, s)
          else Option.bind (iter d c lo hi func t s) (\<lambda>(r', s'). Some (if r' \<noteq> 0 then 1 else 0, s'))))"

lemma iter_stopped: "r \<noteq> 0 \<Longrightarrow> fold_opt (iter_step d c lo hi func) ms (r, s) = Some (r, s)"
  by (induction ms) (auto split: option.splits)

lemma iter_children:
  assumes "\<And>t n s. t \<in> set cs \<Longrightarrow> tag t = Some n \<Longrightarrow>
      \<exists>rs. iter d c lo hi func n s = Some rs \<and> iter_post (cr_leaves c) lo hi func (entries t) s rs"
    "sorted_wrt (\<lambda>x y. fst x < fst y) (concat (map entries cs))"
  shows "\<exists>rs. fold_opt (iter_step d c lo hi func) (map tag cs) (0, s) = Some rs \<and> iter_post (cr_leaves c) lo hi func (concat (map entries cs)) s rs"
  using assms
proof (induction cs arbitrary: s)
  case (Cons t cs)
  have so: "sorted_wrt (\<lambda>x y. fst x < fst y) (concat (map entries cs))" "\<forall>k\<in>fst ` set (entries t). \<forall>k'\<in>fst ` set (concat (map entries cs)). k < k'"
    using Cons.prems(2) by (auto simp: sorted_wrt_append)
  have IH: "\<exists>rs. fold_opt (iter_step d c lo hi func) (map tag cs) (0, s') = Some rs \<and> iter_post (cr_leaves c) lo hi func (concat (map entries cs)) s' rs" for s'
    by (rule Cons.IH [OF _ so(1)]) (use Cons.prems(1) in auto)
  show ?case
  proof (cases "tag t")
    case None
    then show ?thesis using IH by simp
  next
    case (Some n)
    obtain r1 s1 where r1: "iter d c lo hi func n s = Some (r1, s1)" "iter_post (cr_leaves c) lo hi func (entries t) s (r1, s1)"
      using Cons.prems(1) [of t n s] Some by auto
    show ?thesis
    proof (cases "r1 = 0")
      case True
      then show ?thesis using IH [of s1] Some r1 iter_post_next [of "cr_leaves c" lo hi func "entries t" s s1] by auto
    next
      case False
      then show ?thesis using Some r1 iter_post_stop [OF r1(2) _ so(2)] iter_stopped [of 1 d c lo hi func "map tag cs" s1] by simp
    qed
  qed
qed (simp add: iter_post_def in_range_def)

section \<open>The bound below\<close>

text \<open>
  The test that skips a subtree compares \<open>lo\<close> with the path whose upper bits are all set. It
  never fires for a lower bound and keys below \<open>2 ^ 60\<close>, as addresses of processes are.
\<close>

definition low_keys :: "u64 \<Rightarrow> u64 set \<Rightarrow> bool" where
  "low_keys lo ks \<longleftrightarrow> lo = 0 \<or> lo < 2 ^ 60 \<and> (\<forall>k\<in>ks. k < 2 ^ 60)"

lemma bit_le: "bit (w :: u64) n \<Longrightarrow> n < 64 \<Longrightarrow> 2 ^ n \<le> w"
proof -
  assume "bit w n" "n < 64"
  then have "w AND 2 ^ n = 2 ^ n" by (intro bit_word_eqI) (auto simp: bit_simps)
  then show ?thesis using word_and_le1 [of w "2 ^ n"] word_and_le2 [of w "2 ^ n"] by metis
qed

lemma not_pruned:
  assumes "wf_ct (CN p path sh cs)" "low_keys lo (fst ` set (entries (CN p path sh cs)))"
  shows "\<not> (path OR path_mask sh) < lo"
proof (cases "lo = 0")
  case False
  then have lo: "lo < 2 ^ 60" "\<And>k. k \<in> fst ` set (entries (CN p path sh cs)) \<Longrightarrow> k < 2 ^ 60" using assms(2) by (auto simp: low_keys_def)
  obtain x y where "x < 2 ^ 60" "y < 2 ^ 60" "slice_index x sh < slice_index y sh" using parted_keys [OF assms(1)] lo(2) by metis
  then have "sh \<noteq> 60" by (auto simp: slice_index_div word_less_nat_alt)
  moreover have "sh \<le> 60" "sh mod 4 = 0" using assms(1) by auto
  ultimately have sh: "sh + 4 \<le> 60" by presburger
  have nib: "NIB = mask 4" by (simp add: NIB_def mask_eq_exp_minus_1)
  have "bit (path_mask sh) 60" using sh by (auto simp: path_mask_def nib bit_simps)
  then have "2 ^ 60 \<le> path OR path_mask sh" by (intro bit_le) (simp_all add: bit_simps)
  then show ?thesis using lo(1) by simp
qed simp

lemma iter_ok:
  "ct_rep (cr_nodes c) (cr_leaves c) t \<Longrightarrow> wf_ct t \<Longrightarrow> fits d t \<Longrightarrow> low_keys lo (fst ` set (entries t)) \<Longrightarrow> tag t = Some n \<Longrightarrow>
   \<exists>rs. iter d c lo hi func n s = Some rs \<and> iter_post (cr_leaves c) lo hi func (entries t) s rs"
proof (induction d t arbitrary: n s rule: fits.induct)
  case (2 d p k)
  then obtain d' lf where "d = Suc d'" "cr_leaves c p = Some lf" "k_key lf = k" by (cases d) auto
  then show ?case using 2 by (auto simp: iter_post_def in_range_def split: prod.splits)
next
  case (3 d p path sh cs)
  obtain d' where d: "d = Suc d'" "\<forall>t\<in>set cs. fits d' t" using 3(4) by (cases d) auto
  have nd: "cr_nodes c p = Some \<lparr>n_child = map tag cs, n_path = path, n_shift = sh\<rparr>" using 3(2) by simp
  have n: "n = Node_Ptr p" using 3(6) by simp
  have lk: "low_keys lo (fst ` set (entries t))" if "t \<in> set cs" for t using 3(5) that by (auto simp: low_keys_def)
  have ch: "\<exists>rs. fold_opt (iter_step d' c lo hi func) (map tag cs) (0, s) = Some rs \<and> iter_post (cr_leaves c) lo hi func (concat (map entries cs)) s rs"
  proof (rule iter_children)
    fix t n s assume t: "t \<in> set cs" "tag t = Some n"
    then show "\<exists>rs. iter d' c lo hi func n s = Some rs \<and> iter_post (cr_leaves c) lo hi func (entries t) s rs"
      using "3.IH" [OF t(1), of n s] 3(2,3) d lk by (auto simp del: wf_ct.simps simp: wf_ct.simps(3))
  next
    show "sorted_wrt (\<lambda>x y. fst x < fst y) (concat (map entries cs))" using entries_sorted [OF 3(3)] by simp
  qed
  show ?case
  proof (cases "hi < path")
    case True
    have above: "\<forall>k\<in>fst ` set (entries (CN p path sh cs)). hi < k"
    proof
      fix k assume "k \<in> fst ` set (entries (CN p path sh cs))"
      then have "above k sh = above path sh" by (rule wf_ct_entry [OF 3(3)])
      then have "path \<le> k" using 3(3) path_le [of path sh k] by simp
      then show "hi < k" using True by simp
    qed
    have "entries (CN p path sh cs) \<noteq> []" using entries_nonempty [OF 3(3)] by simp
    then have "iter_post (cr_leaves c) lo hi func (entries (CN p path sh cs)) s (1, s)"
      using above in_range_above [OF above, of "cr_leaves c" lo] by (cases "entries (CN p path sh cs)") (auto simp: iter_post_def simp del: entries.simps)
    then show ?thesis using True d(1) n nd by simp
  next
    case False
    then show ?thesis using ch d(1) n nd not_pruned [OF 3(3,5)] by simp
  qed
qed simp

section \<open>Properties\<close>

definition view_range :: "'v crit_view \<Rightarrow> u64 \<Rightarrow> u64 \<Rightarrow> (u64 \<times> 'v option) list" where
  "view_range vw lo hi =
     map (\<lambda>k. (k, cv_val vw (the (cv_map vw k)))) (filter (\<lambda>k. lo \<le> k \<and> k \<le> hi) (sorted_list_of_set (dom (cv_map vw))))"

lemma in_range_view:
  assumes inv: "crit_inv c t ns ks [] []"
  shows "in_range (cr_leaves c) lo hi (entries t) = view_range (view_of t (cr_leaves c)) lo hi"
proof -
  note parts = crit_inv_parts [OF inv] and lp = leaves_inv_parts [OF crit_inv_parts(5) [OF inv]]
  have v: "k_value (the (cr_leaves c p)) = leaf_val (leaf_ptrs t) (cr_leaves c) p \<and> map_of (entries t) k = Some p" if e: "(k, p) \<in> set (entries t)" for k p
  proof -
    have p: "p \<in> set (leaf_ptrs t)" using e by (force simp: leaf_ptrs_def)
    obtain lf where "cr_leaves c p = Some lf" using ct_rep_entry [OF parts(3) e] by blast
    moreover have "distinct (map fst (entries t))"
      using entries_view(1) [OF parts(2)] by simp
    ultimately show ?thesis using p e by (simp add: leaf_val_def)
  qed
  have "view_range (view_of t (cr_leaves c)) lo hi =
      map (\<lambda>k. (k, leaf_val (leaf_ptrs t) (cr_leaves c) (the (map_of (entries t) k)))) (filter (\<lambda>k. lo \<le> k \<and> k \<le> hi) (map fst (entries t)))"
    by (simp add: view_range_def view_of_def entries_view(1) [OF parts(2)])
  also have "\<dots> = in_range (cr_leaves c) lo hi (entries t)"
    unfolding in_range_def case_prod_unfold filter_map comp_def list.map_comp by (rule map_cong) (use v in auto)
  finally show ?thesis by simp
qed

text \<open>A critnib with two keys.\<close>

lemma critnib_pair:
  assumes "j \<noteq> k"
  obtains c :: "(string, unit) critnib" and vw where "crit_ok c vw" "dom (cv_map vw) = {j, k}"
proof -
  obtain c0 :: "(string, unit) critnib" where c0: "fst (critnib_new None () \<lparr>next_id = 1, oom = [], lock_fail = []\<rparr>) = Some c0" "oom (cr_host c0) = []"
    by (auto simp: critnib_new_def ba_global_alloc_def mutex_init_def mutex_lock_def)
  have ok: "crit_ok c0 empty_view" using critnib_new_sim [OF c0(1)] by (simp add: crit_sim_def)
  obtain e1 c1 vw1 where r1: "unchanged_env c0 c1" "crit_ok c1 vw1" "insert_result j ''a'' False empty_view e1 vw1" "e1 = ENOMEM \<longrightarrow> True \<in> set (oom (cr_host c0))"
    using critnib_insert_ok [OF ok] by blast
  obtain e2 c2 vw2 where r2: "unchanged_env c1 c2" "crit_ok c2 vw2" "insert_result k ''b'' False vw1 e2 vw2" "e2 = ENOMEM \<longrightarrow> True \<in> set (oom (cr_host c1))"
    using critnib_insert_ok [OF r1(2)] by blast
  have n: "e1 \<noteq> ENOMEM" "e2 \<noteq> ENOMEM" using r1(1,4) r2(4) c0(2) by (auto simp: unchanged_env_def)
  have "dom (cv_map vw1) = {j}" using r1(3) n by (auto simp: insert_result_def empty_view_def split: if_splits)
  then have "dom (cv_map vw2) = {j, k}" using r2(3) n assms by (auto simp: insert_result_def split: option.splits)
  then show thesis using that r2(2) by blast
qed



text \<open>
  C35. With keys that differ in the top four bits, an iteration with a lower bound above 0
  visits nothing, also when keys are in the range.
\<close>

theorem critnib_iter_skips:
  assumes "crit_ok c vw" "j \<in> dom (cv_map vw)" "k \<in> dom (cv_map vw)" "drop_bit 60 j \<noteq> drop_bit 60 k" "0 < lo"
  shows "critnib_iter c lo hi func s = Some s"
proof -
  obtain t ns ks where inv: "crit_inv c t ns ks [] []" and vw: "vw = view_of t (cr_leaves c)" using assms(1) by (auto simp: crit_ok_def)
  note parts = crit_inv_parts [OF inv]
  have jk: "j \<in> fst ` set (entries t)" "k \<in> fst ` set (entries t)" using assms(2,3) by (simp_all add: vw view_of_def dom_map_of_conv_image_fst)
  have "unat j div 2 ^ 60 \<noteq> unat k div 2 ^ 60" using assms(4) by (simp add: word_unat_eq_iff unat_drop_bit)
  show ?thesis
  proof (cases t)
    case (CN p path sh cs)
    have w: "wf_ct (CN p path sh cs)" using parts(2) CN by simp
    have "above j sh = above k sh" using wf_ct_entry(1) [OF w] jk CN by metis
    have "sh = 60"
    proof (rule ccontr)
      assume "sh \<noteq> 60"
      moreover have "sh mod 4 = 0" "sh \<le> 60" using w by simp_all
      ultimately have "sh + 4 \<le> 60" by presburger
      then have "unat x div 2 ^ 60 = above x sh div 2 ^ (60 - (sh + 4))" for x :: u64
        by (simp add: above_def div_mult2_eq [symmetric] flip: power_add)
      then show False using \<open>above j sh = above k sh\<close> \<open>unat j div 2 ^ 60 \<noteq> unat k div 2 ^ 60\<close> by simp
    qed
    have mask: "path_mask 60 = 0" by (simp add: path_mask_def NIB_def push_bit_eq_mult)
    moreover have "path = 0" using w \<open>sh = 60\<close> mask by (simp add: is_path_def)
    moreover have "cr_nodes c p = Some \<lparr>n_child = map tag cs, n_path = path, n_shift = sh\<rparr>" using parts(3) CN by simp
    ultimately show ?thesis using parts(1) CN assms(5) \<open>sh = 60\<close>
      by (simp add: critnib_iter_def iter.simps(2) [of 16, simplified])
  qed (use jk assms(4) in auto)
qed

theorem critnib_iter_skips_witness:
  "\<exists>(c :: (string, unit) critnib) vw. crit_ok c vw \<and> dom (cv_map vw) = {0x10, 0x2000000000000000} \<and>
     critnib_iter c 1 (- 1) (\<lambda>k v s. (0, k # s)) [] = Some []"
proof -
  obtain c :: "(string, unit) critnib" and vw where c: "crit_ok c vw" "dom (cv_map vw) = {0x10, 0x2000000000000000}"
    using critnib_pair [where j = "0x10" and k = "0x2000000000000000"] by auto
  have "critnib_iter c 1 (- 1) (\<lambda>k v s. (0, k # s)) [] = Some []"
    by (rule critnib_iter_skips [OF c(1), where j = "0x10" and k = "0x2000000000000000"]) (simp_all add: c(2))
  then show ?thesis using c by blast
qed

end
