(* ===== verification/Spec2Isabelle.thy ===== *)
theory Spec2Isabelle
  imports Fixed_Run Critnib_Iter
begin

text \<open>
  A verification development for the Unified Memory Framework, a C library that builds
  memory pools on top of memory providers. Paths below are relative to \<^verbatim>\<open>src/\<close>.

  \<^bold>\<open>The program.\<close> A \<^emph>\<open>memory provider\<close> hands out coarse pieces of memory through a table of
  operations; \<^verbatim>\<open>src/memory_provider.c\<close> checks such a table, fills in defaults, and wraps every
  operation. The \<^emph>\<open>fixed provider\<close> (\<^verbatim>\<open>src/provider/provider_fixed_memory.c\<close>) serves a range of
  the client's own memory through the \<^emph>\<open>coarse\<close> allocator (\<^verbatim>\<open>src/coarse/coarse.c\<close>), which keeps
  its blocks in \<^emph>\<open>ravl\<close> trees (\<^verbatim>\<open>src/ravl/ravl.c\<close>), and counts what it hands out with the
  atomic counters of \<^verbatim>\<open>src/provider/provider_ctl_stats_impl.h\<close>. The \<^emph>\<open>critnib\<close>
  (\<^verbatim>\<open>src/critnib/critnib.c\<close>) is the radix tree from addresses to values that the pools and the
  tracking of allocations use.

  \<^bold>\<open>Modelling.\<close> Definitions follow the C code function by function and branch by branch.
  Objects that the code reaches through pointers are in typed heaps (maps from identifiers to
  records), in-place stores are updates of those heaps, and the states are records with the
  fields of the C structures. A function returns an \<open>option\<close>: \<open>None\<close> stands for a
  dereferenced null or dangling pointer, a failed assertion, other undefined behaviour, or a
  loop that does not end, so a theorem that gives \<open>Some\<close> shows that none of these occurs.
  Result codes are values of a datatype. Sizes, addresses and counters are 64-bit words with
  their wrap-around. Loops are \<open>partial_function (option)\<close>; the recursions over critnib nodes
  have fuel 17, which is enough because the shifts of nodes are multiples of 4 up to 60 and
  fall strictly along a path, so that no path is longer than 16 nodes and a leaf. The host
  (allocator and mutexes) is a record \<open>host\<close> with scripts of failures, over which all theorems
  quantify. Code outside of \<^verbatim>\<open>src/\<close> (system calls, the upstream provider of the coarse
  allocator, the control handler of the fixed provider) is a parameter.

  \<^bold>\<open>Theories and what they show.\<close>
  \<^item> \<open>Umf_Prelude\<close>: result codes, the host, words and heaps.
  \<^item> \<open>Utils\<close>, \<open>Utils_Os\<close>: \<^verbatim>\<open>src/utils/utils_common.h\<close>, \<^verbatim>\<open>utils_math.h\<close>, \<^verbatim>\<open>utils_common.c\<close>,
    \<^verbatim>\<open>utils_posix_common.c\<close>: alignment with overflow, bit scans, option strings, protection flags.
  \<^item> \<open>Ravl\<close> (definitions), \<open>Ravl_Tree\<close> (pointer structure, rotations, ranks), \<open>Ravl_Index\<close>: the
    tree implements an ordered index. The locale \<open>ordered_index\<close> states the contract; its
    interpretation \<open>ravl_ix\<close> discharges it for the C operations.
  \<^item> \<open>Coarse\<close> (definitions), \<open>Coarse_Lists\<close>, \<open>Coarse_Free\<close>, \<open>Coarse_Blocks\<close>, \<open>Coarse_Merge\<close>,
    \<open>Coarse_Inv\<close>, \<open>Coarse_Alloc\<close>, \<open>Coarse_Ops\<close>, \<open>Coarse_Mem\<close>, \<open>Coarse_Total\<close>: free lists, the
    tree of blocks, the invariant (blocks tile the managed ranges, free blocks are indexed by
    size, sizes add up) and, for each operation, that it returns on all arguments, keeps the
    invariant, and does what it says.
  \<^item> \<open>Heap_Contract\<close>: the contract of a provider on the list of its live allocations.
  \<^item> \<open>Concurrency\<close>, \<open>Provider_Stats\<close>: atomic operations and the counters, sequentially and
    as interleaved atomic accesses of any number of threads (an inductive step relation).
  \<^item> \<open>Memory_Provider\<close> (definitions), \<open>Provider_Api\<close>: creation, destruction and the wrappers,
    proved once in the locale \<open>memory_provider\<close> for all providers that meet the contract.
  \<^item> \<open>Fixed_Provider\<close> (definitions), \<open>Fixed_Run\<close>: the interpretation \<open>fixed_mp\<close> of that locale,
    and theorems on arbitrary sequences of client calls.
  \<^item> \<open>Critnib\<close> (definitions), \<open>Critnib_Tree\<close> (shape, order, searches), \<open>Critnib_Frames\<close>
    (replacement of subtrees, walks), \<open>Critnib_Inv\<close> (pools, ring of removals, reference counts),
    \<open>Critnib_Insert\<close>, \<open>Critnib_Remove\<close>, \<open>Critnib_Refs\<close> (queries and releases), \<open>Critnib_Delete\<close>,
    \<open>Critnib_Iter\<close>: each operation on the view of a critnib as a map with counted references.
    \<open>Critnib_Run\<close>: sessions of arbitrary calls from creation to destruction.

  \<^bold>\<open>Not modelled.\<close> Providers that are sequences of system or driver calls (os, file, devdax,
  level zero, cuda), the memory targets and spaces on top of hwloc, the vendored uthash macros,
  logging, and the pools, tracking, control and inter-process parts.
\<close>

end
